(* ===== verification/Prelude.thy ===== *)
theory Prelude
  imports Main "HOL-Library.Word"
begin

text \<open>
  The vocabulary every component shares.

  \<^item> Fixed-width integers (\<open>uint8\<close> \<dots> \<open>uint64\<close>) and the \<open>status_t\<close> codes of
    \<^verbatim>\<open>headers/os/support/Errors.h\<close>; the POSIX names are abbreviations of the native
    codes, as in that header.
  \<^item> Results: \<open>'a option\<close> is the outcome of C code that may fail to return. \<open>None\<close> is a
    null dereference, an access outside an object, an endless loop or a panic.
  \<^item> Linked structures: \<open>path\<close> and \<open>backs\<close> describe the \<open>next\<close> and \<open>prev\<close> chains of a
    pointer heap as a list of nodes, \<open>walk\<close> is the loop that follows \<open>next\<close> until a node
    satisfies a test, and their lemmas say what a pointer update does to the list.
\<close>

unbundle bit_operations_syntax

section \<open>Integers and status codes\<close>

type_synonym uint8 = "8 word"
type_synonym uint16 = "16 word"
type_synonym uint32 = "32 word"
type_synonym uint64 = "64 word"

datatype status_t =
    B_OK | B_ERROR | B_NO_MEMORY | B_BAD_VALUE | B_IO_ERROR | B_TIMEOUT | B_CANCELED
  | B_BAD_ADDRESS | B_FILE_EXISTS | B_ENTRY_NOT_FOUND | B_FILE_ERROR | B_BAD_SEM_ID
  | B_NO_MORE_SEMS | B_INTERRUPTED | B_RESULT_NOT_REPRESENTABLE | B_DEVICE_FULL
  | EAFNOSUPPORT | ENOBUFS | B_NOT_ALLOWED | B_PERMISSION_DENIED | B_NOT_A_DIRECTORY | B_IS_A_DIRECTORY
  | B_READ_ONLY_DEVICE | B_NAME_TOO_LONG | B_DIRECTORY_NOT_EMPTY | ENXIO | ENODEV | EFBIG | EHOSTUNREACH
  | C_ERROR_STALE

abbreviation EINVAL :: status_t where "EINVAL \<equiv> B_BAD_VALUE"
abbreviation ENOMEM :: status_t where "ENOMEM \<equiv> B_NO_MEMORY"
abbreviation EEXIST :: status_t where "EEXIST \<equiv> B_FILE_EXISTS"
abbreviation ENOENT :: status_t where "ENOENT \<equiv> B_ENTRY_NOT_FOUND"
abbreviation EBADF :: status_t where "EBADF \<equiv> B_FILE_ERROR"
abbreviation ERANGE :: status_t where "ERANGE \<equiv> B_RESULT_NOT_REPRESENTABLE"
abbreviation ENOSPC :: status_t where "ENOSPC \<equiv> B_DEVICE_FULL"
abbreviation EIO :: status_t where "EIO \<equiv> B_IO_ERROR"
abbreviation EPERM :: status_t where "EPERM \<equiv> B_NOT_ALLOWED"
abbreviation EACCES :: status_t where "EACCES \<equiv> B_PERMISSION_DENIED"
abbreviation ENOTDIR :: status_t where "ENOTDIR \<equiv> B_NOT_A_DIRECTORY"
abbreviation EISDIR :: status_t where "EISDIR \<equiv> B_IS_A_DIRECTORY"
abbreviation EROFS :: status_t where "EROFS \<equiv> B_READ_ONLY_DEVICE"
abbreviation ENAMETOOLONG :: status_t where "ENAMETOOLONG \<equiv> B_NAME_TOO_LONG"
abbreviation ENOTEMPTY :: status_t where "ENOTEMPTY \<equiv> B_DIRECTORY_NOT_EMPTY"

text \<open>Collections of rewrite rules, extended by the components.\<close>

named_theorems heap_simps "frame and update rules of pointer heaps"
named_theorems op_defs "definitions of the operations, for symbolic evaluation"

section \<open>Chains of nodes in a pointer heap\<close>

definition headp :: "'a list \<Rightarrow> 'a option \<Rightarrow> 'a option" where
  "headp xs q = (case xs of [] \<Rightarrow> q | x # _ \<Rightarrow> Some x)"

definition lastp :: "'a option \<Rightarrow> 'a list \<Rightarrow> 'a option" where
  "lastp q xs = (if xs = [] then q else Some (last xs))"

primrec path :: "('a \<Rightarrow> 'a option) \<Rightarrow> 'a option \<Rightarrow> 'a list \<Rightarrow> 'a option \<Rightarrow> bool" where
  "path nx p [] q = (p = q)"
| "path nx p (x # xs) q = (p = Some x \<and> path nx (nx x) xs q)"

primrec backs :: "('a \<Rightarrow> 'a option) \<Rightarrow> 'a option \<Rightarrow> 'a list \<Rightarrow> bool" where
  "backs pv q [] = True"
| "backs pv q (x # xs) = (pv x = q \<and> backs pv (Some x) xs)"

lemma headp_simps [simp]: "headp [] q = q" "headp (x # xs) q = Some x"
  by (simp_all add: headp_def)

lemma headp_append [simp]: "headp (xs @ ys) q = headp xs (headp ys q)"
  by (cases xs) simp_all

lemma lastp_simps [simp]:
  "lastp q [] = q" "lastp q (xs @ [x]) = Some x" "lastp q (x # xs) = lastp (Some x) xs"
  by (simp_all add: lastp_def)

lemma lastp_append [simp]: "lastp q (xs @ ys) = lastp (lastp q xs) ys"
  by (simp add: lastp_def)

lemma path_append [simp]:
  "path nx p (xs @ ys) q \<longleftrightarrow> path nx p xs (headp ys q) \<and> path nx (headp ys q) ys q"
  by (induction xs arbitrary: p) (cases ys, auto)

lemma path_head: "path nx p xs q \<Longrightarrow> p = headp xs q"
  by (cases xs) auto

lemma backs_append [simp]:
  "backs pv q (xs @ ys) \<longleftrightarrow> backs pv q xs \<and> backs pv (lastp q xs) ys"
  by (induction xs arbitrary: q) auto

lemma path_cong: "(\<And>x. x \<in> set xs \<Longrightarrow> nx x = nx' x) \<Longrightarrow> path nx p xs q = path nx' p xs q"
  by (induction xs arbitrary: p) auto

lemma backs_cong: "(\<And>x. x \<in> set xs \<Longrightarrow> pv x = pv' x) \<Longrightarrow> backs pv q xs = backs pv' q xs"
  by (induction xs arbitrary: q) auto

lemma path_upd [simp, heap_simps]:
  "u \<notin> set xs \<Longrightarrow> path (\<lambda>i. f ((h(u := v)) i)) p xs q = path (\<lambda>i. f (h i)) p xs q"
  by (rule path_cong) auto

lemma backs_upd [simp, heap_simps]:
  "u \<notin> set xs \<Longrightarrow> backs (\<lambda>i. f ((h(u := v)) i)) q xs = backs (\<lambda>i. f (h i)) q xs"
  by (rule backs_cong) auto

text \<open>The chain from a pointer to null is unique, so a heap determines its list.\<close>

lemma path_unique: "path nx p xs None \<Longrightarrow> path nx p ys None \<Longrightarrow> xs = ys"
proof (induction xs arbitrary: p ys)
  case Nil
  then show ?case by (cases ys) auto
next
  case (Cons x xs)
  then show ?case by (cases ys) auto
qed

text \<open>
  The loop \<^verbatim>\<open>for (p = first; p; p = p->next) if (P(p)) break;\<close>. On a cyclic chain without a
  match it does not return, which is the outer \<open>None\<close>.
\<close>

partial_function (option) walk ::
    "('a \<Rightarrow> 'a option) \<Rightarrow> ('a \<Rightarrow> bool) \<Rightarrow> 'a option \<Rightarrow> 'a option option" where
  "walk nx P p =
     (case p of None \<Rightarrow> Some None | Some a \<Rightarrow> if P a then Some (Some a) else walk nx P (nx a))"

lemma walk_path: "path nx p xs None \<Longrightarrow> walk nx P p = Some (List.find P xs)"
proof (induction xs arbitrary: p)
  case Nil
  then show ?case by (simp add: walk.simps)
next
  case (Cons x xs)
  then show ?case by (subst walk.simps) simp
qed

lemma find_split:
  "List.find P xs = Some x \<Longrightarrow> \<exists>as bs. xs = as @ x # bs \<and> P x \<and> (\<forall>a\<in>set as. \<not> P a)"
proof (induction xs)
  case Nil
  then show ?case by simp
next
  case (Cons a xs)
  show ?case
  proof (cases "P a")
    case True
    with Cons.prems show ?thesis by force
  next
    case False
    with Cons obtain as bs where "xs = as @ x # bs" "P x" "\<forall>a\<in>set as. \<not> P a" by auto
    with False show ?thesis by (intro exI [of _ "a # as"] exI [of _ bs]) simp
  qed
qed

section \<open>Words as numbers\<close>

lemma unat_plus_no_wrap: "unat (a :: 'a::len word) + unat b < 2 ^ LENGTH('a) \<Longrightarrow>
  unat (a + b) = unat a + unat b"
  by (simp add: unat_word_ariths)

lemma unat_minus_no_wrap: "b \<le> (a :: 'a::len word) \<Longrightarrow> unat (a - b) = unat a - unat b"
  by (simp add: unat_sub)

lemma word_le_unat: "(a :: 'a::len word) \<le> b \<longleftrightarrow> unat a \<le> unat b"
  by (simp add: word_le_nat_alt)

lemma word_less_unat: "(a :: 'a::len word) < b \<longleftrightarrow> unat a < unat b"
  by (simp add: word_less_nat_alt)

lemma unat_lt_pow: "unat (a :: 'a::len word) < 2 ^ LENGTH('a)"
  by (rule unsigned_less)

lemma unat_and_not_mask: "unat ((x::'a::len word) AND NOT (mask n)) = unat x div 2^n * 2^n"
proof -
  have 1: "x AND NOT (mask n) = push_bit n (drop_bit n x)" 
    by (rule bit_eqI) (auto simp add: bit_simps) 
  have "(unat x div 2 ^ n) * 2^n < 2 ^ LENGTH('a)" 
    by (metis div_times_less_eq_dividend le_less_trans unsigned_less)
  then have "take_bit LENGTH('a) ((unat x div 2 ^ n) * 2^n) = (unat x div 2 ^ n) * 2^n"
    by (simp only: take_bit_nat_eq_self_iff)
  moreover have "unat (push_bit n (drop_bit n x)) = take_bit LENGTH('a) (push_bit n (drop_bit n (unat x)))"
    by (simp only: unsigned_push_bit_eq unsigned_drop_bit_eq) (simp add: take_bit_push_bit take_bit_nat_eq_self)
  ultimately show ?thesis unfolding 1
    by (simp only: push_bit_eq_mult drop_bit_eq_div)
qed

lemma unat_mask_word: "k < LENGTH('a) \<Longrightarrow> unat (2 ^ k - 1 :: 'a::len word) = 2 ^ k - 1"
proof -
  assume k: "k < LENGTH('a)"
  have "(2 ^ k - 1 :: 'a word) = of_nat (2 ^ k - 1)" by (simp add: of_nat_diff)
  moreover have "(2::nat) ^ k - 1 < 2 ^ LENGTH('a)"
    using k by (meson diff_le_self le_less_trans one_less_numeral_iff power_strict_increasing semiring_norm(76))
  ultimately show ?thesis by (simp only: unat_of_nat mod_less)
qed

end
