(* ===== verification/MemoryManager.thy ===== *)
theory MemoryManager
  imports Prelude
begin

text \<open>
  \<^verbatim>\<open>src/add-ons/kernel/drivers/graphics/common/memory_manager.c\<close>: the manager of graphics
  memory. The managed range is cut into blocks; the block descriptors live in the array
  \<^verbatim>\<open>mem->heap\<close>, and a pointer to a descriptor is its index. The descriptors of the
  blocks form a doubly linked list in address order, the spare ones a list through \<open>next\<close>.

  The outcome of \<^verbatim>\<open>acquire_sem\<close>, \<^verbatim>\<open>malloc\<close>, \<^verbatim>\<open>create_sem\<close> and \<^verbatim>\<open>create_area\<close> is an argument.
\<close>

section \<open>State\<close>

record mem_block =
  mb_prev :: "nat option"
  mb_next :: "nat option"
  mb_base :: uint32
  mb_size :: uint32
  mb_tag :: nat
  mb_allocated :: bool

record mem_info =
  mem_first :: "nat option"
  mem_block_size :: uint32
  mem_heap :: "nat \<Rightarrow> mem_block"
  mem_unused :: "nat option"
  mem_heap_entries :: uint32

abbreviation heap_next :: "mem_info \<Rightarrow> nat \<Rightarrow> nat option" where
  "heap_next mem \<equiv> (\<lambda>i. mb_next (mem_heap mem i))"

abbreviation heap_prev :: "mem_info \<Rightarrow> nat \<Rightarrow> nat option" where
  "heap_prev mem \<equiv> (\<lambda>i. mb_prev (mem_heap mem i))"

section \<open>Operations\<close>

definition merge :: "mem_info \<Rightarrow> nat \<Rightarrow> mem_info option" where
  "merge mem block =
     (case mb_next (mem_heap mem block) of
        None \<Rightarrow> None
      | Some n \<Rightarrow>
          (let h0 = mem_heap mem;
               h1 = h0(block := (h0 block)\<lparr>mb_size := mb_size (h0 block) + mb_size (h0 n)\<rparr>);
               h2 = (case mb_next (h1 n) of
                       None \<Rightarrow> h1
                     | Some nn \<Rightarrow> h1(nn := (h1 nn)\<lparr>mb_prev := Some block\<rparr>));
               h3 = h2(block := (h2 block)\<lparr>mb_next := mb_next (h2 n)\<rparr>);
               h4 = h3(n := (h3 n)\<lparr>mb_next := mem_unused mem\<rparr>)
           in Some (mem\<lparr>mem_heap := h4, mem_unused := Some n\<rparr>)))"

definition set_allocated :: "mem_info \<Rightarrow> nat \<Rightarrow> bool \<Rightarrow> mem_info" where
  "set_allocated mem block a =
     mem\<lparr>mem_heap := (mem_heap mem)(block := (mem_heap mem block)\<lparr>mb_allocated := a\<rparr>)\<rparr>"

definition merge_prev :: "mem_info \<Rightarrow> nat \<Rightarrow> (mem_info \<times> nat) option" where
  "merge_prev mem block =
     (case mb_prev (mem_heap mem block) of
        Some p \<Rightarrow>
          if \<not> mb_allocated (mem_heap mem p)
          then map_option (\<lambda>m. (m, p)) (merge mem p)
          else Some (mem, block)
      | None \<Rightarrow> Some (mem, block))"

definition merge_next :: "mem_info \<Rightarrow> nat \<Rightarrow> (mem_info \<times> nat) option" where
  "merge_next mem block =
     (case mb_next (mem_heap mem block) of
        Some n \<Rightarrow>
          if \<not> mb_allocated (mem_heap mem n)
          then map_option (\<lambda>m. (m, block)) (merge mem block)
          else Some (mem, block)
      | None \<Rightarrow> Some (mem, block))"

definition freeblock :: "mem_info \<Rightarrow> nat \<Rightarrow> (mem_info \<times> nat) option" where
  "freeblock mem block =
     Option.bind (merge_prev (set_allocated mem block False) block)
       (\<lambda>(m, b). merge_next m b)"

definition zero_block :: mem_block where
  "zero_block = \<lparr>mb_prev = None, mb_next = None, mb_base = 0, mb_size = 0, mb_tag = 0,
     mb_allocated = False\<rparr>"

definition link_entries :: "nat \<Rightarrow> (nat \<Rightarrow> mem_block) \<Rightarrow> (nat \<Rightarrow> mem_block)" where
  "link_entries n h = fold (\<lambda>i h. h(i - 1 := (h (i - 1))\<lparr>mb_next := Some i\<rparr>)) [1..<n] h"

text \<open>
  The heap area is sized in 32-bit arithmetic (a descriptor takes 40 bytes) and rounded up to
  pages; a descriptor outside of it may not be written. The area is cleared when it is created.
  The outer \<open>None\<close> is an access outside the area, the inner one the null result of an error path.
\<close>

definition heap_area_size :: "uint32 \<Rightarrow> uint32" where
  "heap_area_size heapEntries =
     (let sz = heapEntries * 40 in (sz + 4096 - 1) AND NOT (4096 - 1))"

definition mem_init ::
    "bool \<Rightarrow> bool \<Rightarrow> bool \<Rightarrow> uint32 \<Rightarrow> uint32 \<Rightarrow> uint32 \<Rightarrow> uint32 \<Rightarrow> mem_info option option" where
  "mem_init malloc_ok sem_ok area_ok start len blockSize heapEntries =
     (if \<not> malloc_ok then Some None
      else if \<not> sem_ok then Some None
      else if \<not> area_ok then Some None
      else if heapEntries = 0 \<or> unat (heap_area_size heapEntries) < 40 * unat heapEntries then None
      else
        (let n = unat heapEntries;
             h0 = (\<lambda>_. zero_block);
             h1 = link_entries n h0;
             h2 = h1(n - 1 := (h1 (n - 1))\<lparr>mb_next := None\<rparr>);
             h3 = h2(0 := (h2 0)\<lparr>mb_base := start, mb_size := len, mb_prev := None,
                     mb_next := None, mb_allocated := False\<rparr>)
         in Some (Some \<lparr>mem_first = Some 0, mem_block_size = blockSize, mem_heap = h3,
                  mem_unused = Some 1, mem_heap_entries = heapEntries\<rparr>)))"

definition round_up :: "mem_info \<Rightarrow> uint32 \<Rightarrow> uint32" where
  "round_up mem sz = (sz + mem_block_size mem - 1) AND NOT (mem_block_size mem - 1)"

definition find_fit :: "mem_info \<Rightarrow> uint32 \<Rightarrow> nat option option" where
  "find_fit mem sz =
     walk (heap_next mem)
       (\<lambda>b. \<not> mb_allocated (mem_heap mem b) \<and> mb_size (mem_heap mem b) \<ge> sz)
       (mem_first mem)"

definition split_block :: "mem_info \<Rightarrow> nat \<Rightarrow> nat \<Rightarrow> uint32 \<Rightarrow> mem_info" where
  "split_block mem current newEntry sz =
     (let h0 = mem_heap mem;
          u = mb_next (h0 newEntry);
          h1 = h0(newEntry := (h0 newEntry)
                 \<lparr>mb_next := mb_next (h0 current), mb_prev := Some current,
                  mb_allocated := False, mb_base := mb_base (h0 current) + sz,
                  mb_size := mb_size (h0 current) - sz\<rparr>);
          h2 = (case mb_next (h1 current) of
                  None \<Rightarrow> h1
                | Some nn \<Rightarrow> h1(nn := (h1 nn)\<lparr>mb_prev := Some newEntry\<rparr>));
          h3 = h2(current := (h2 current)\<lparr>mb_next := Some newEntry, mb_size := sz\<rparr>)
      in mem\<lparr>mem_heap := h3, mem_unused := u\<rparr>)"

definition take_block :: "mem_info \<Rightarrow> nat \<Rightarrow> nat \<Rightarrow> mem_info" where
  "take_block mem current tg =
     mem\<lparr>mem_heap := (mem_heap mem)(current :=
       (mem_heap mem current)\<lparr>mb_allocated := True, mb_tag := tg\<rparr>)\<rparr>"

definition mem_alloc ::
    "status_t \<Rightarrow> mem_info \<Rightarrow> uint32 \<Rightarrow> nat
      \<Rightarrow> (mem_info \<times> status_t \<times> (uint32 \<times> uint32) option) option" where
  "mem_alloc acquired mem sz0 tg =
     (if acquired \<noteq> B_OK then Some (mem, acquired, None)
      else
        (let sz = round_up mem sz0 in
         case find_fit mem sz of
           None \<Rightarrow> None
         | Some None \<Rightarrow> Some (mem, B_NO_MEMORY, None)
         | Some (Some current) \<Rightarrow>
             if sz \<noteq> mb_size (mem_heap mem current) then
               (case mem_unused mem of
                  None \<Rightarrow> Some (mem, B_NO_MEMORY, None)
                | Some newEntry \<Rightarrow>
                    Some (take_block (split_block mem current newEntry sz) current tg, B_OK,
                          Some (word_of_nat current + 1, mb_base (mem_heap mem current))))
             else
               Some (take_block mem current tg, B_OK,
                     Some (word_of_nat current + 1, mb_base (mem_heap mem current)))))"

definition mem_free :: "status_t \<Rightarrow> mem_info \<Rightarrow> uint32 \<Rightarrow> nat \<Rightarrow> (mem_info \<times> status_t) option" where
  "mem_free acquired mem blockID tg =
     (if acquired \<noteq> B_OK then Some (mem, acquired)
      else
        (let i = blockID - 1 in
         if i \<ge> mem_heap_entries mem then Some (mem, B_BAD_VALUE)
         else
           (let block = unat i in
            if \<not> mb_allocated (mem_heap mem block) \<or> mb_tag (mem_heap mem block) \<noteq> tg
            then Some (mem, B_BAD_VALUE)
            else map_option (\<lambda>(m, b). (m, B_OK)) (freeblock mem block))))"

partial_function (option) freetag_loop :: "mem_info \<Rightarrow> nat \<Rightarrow> nat option \<Rightarrow> mem_info option" where
  "freetag_loop mem tg p =
     (case p of
        None \<Rightarrow> Some mem
      | Some b \<Rightarrow>
          if mb_allocated (mem_heap mem b) \<and> mb_tag (mem_heap mem b) = tg then
            Option.bind (freeblock mem b) (\<lambda>mb. freetag_loop (fst mb) tg (mb_next (mem_heap (fst mb) (snd mb))))
          else freetag_loop mem tg (mb_next (mem_heap mem b)))"

definition mem_freetag :: "status_t \<Rightarrow> mem_info \<Rightarrow> nat \<Rightarrow> (mem_info \<times> status_t) option" where
  "mem_freetag acquired mem tg =
     (if acquired \<noteq> B_OK then Some (mem, acquired)
      else map_option (\<lambda>m. (m, B_OK)) (freetag_loop mem tg (mem_first mem)))"

section \<open>The invariant of a heap\<close>

definition mem_rep :: "mem_info \<Rightarrow> nat list \<Rightarrow> nat list \<Rightarrow> bool" where
  "mem_rep mem xs us \<longleftrightarrow>
     path (heap_next mem) (mem_first mem) xs None \<and> backs (heap_prev mem) None xs \<and>
     path (heap_next mem) (mem_unused mem) us None \<and> distinct (xs @ us) \<and>
     set (xs @ us) = {..<unat (mem_heap_entries mem)} \<and>
     (\<forall>u\<in>set us. \<not> mb_allocated (mem_heap mem u))"

fun tiles :: "(nat \<Rightarrow> mem_block) \<Rightarrow> nat \<Rightarrow> nat list \<Rightarrow> nat \<Rightarrow> bool" where
  "tiles h s [] e = (s = e)"
| "tiles h s (x # xs) e = (unat (mb_base (h x)) = s \<and> tiles h (s + unat (mb_size (h x))) xs e)"

definition coalesced :: "(nat \<Rightarrow> mem_block) \<Rightarrow> nat list \<Rightarrow> bool" where
  "coalesced h xs = successively (\<lambda>a b. mb_allocated (h a) \<or> mb_allocated (h b)) xs"

definition mem_inv :: "nat \<Rightarrow> nat \<Rightarrow> mem_info \<Rightarrow> bool" where
  "mem_inv s e mem \<longleftrightarrow> e < 2 ^ 32 \<and>
     (\<exists>xs us. mem_rep mem xs us \<and> xs \<noteq> [] \<and> tiles (mem_heap mem) s xs e \<and> coalesced (mem_heap mem) xs)"

text \<open>The allocated extents: block number, first byte, length in bytes and owner.\<close>

definition extents :: "mem_info \<Rightarrow> (nat \<times> nat \<times> nat \<times> nat) set" where
  "extents mem = {(i, unat (mb_base (mem_heap mem i)), unat (mb_size (mem_heap mem i)),
      mb_tag (mem_heap mem i)) | i. i < unat (mem_heap_entries mem) \<and> mb_allocated (mem_heap mem i)}"

lemma extents_iff: "(i, b, l, t) \<in> extents mem \<longleftrightarrow>
    i < unat (mem_heap_entries mem) \<and> mb_allocated (mem_heap mem i) \<and>
    b = unat (mb_base (mem_heap mem i)) \<and> l = unat (mb_size (mem_heap mem i)) \<and>
    t = mb_tag (mem_heap mem i)"
  by (auto simp: extents_def)

lemma extents_eqI: "(\<And>i b l t. (i, b, l, t) \<in> A \<longleftrightarrow> (i, b, l, t) \<in> B) \<Longrightarrow> A = (B :: (nat \<times> nat \<times> nat \<times> nat) set)"
  by (rule set_eqI) (simp add: split_paired_all)

definition same_payload :: "mem_block \<Rightarrow> mem_block \<Rightarrow> bool" where
  "same_payload a b \<longleftrightarrow> mb_base a = mb_base b \<and> mb_size a = mb_size b"

lemma same_payload_refl [simp]: "same_payload a a"
  by (simp add: same_payload_def)

lemma tiles_cong: "(\<And>x. x \<in> set xs \<Longrightarrow> same_payload (h x) (h' x)) \<Longrightarrow> tiles h s xs e = tiles h' s xs e"
  by (induction xs arbitrary: s) (auto simp: same_payload_def)

lemma coalesced_cong:
  "(\<And>x. x \<in> set xs \<Longrightarrow> mb_allocated (h x) = mb_allocated (h' x)) \<Longrightarrow> coalesced h xs = coalesced h' xs"
  unfolding coalesced_def by (rule successively_cong) auto

lemma tiles_append: "tiles h s (xs @ ys) e \<longleftrightarrow> (\<exists>m. tiles h s xs m \<and> tiles h m ys e)"
  by (induction xs arbitrary: s) auto

lemma tiles_le: "tiles h s xs e \<Longrightarrow> s \<le> e"
  by (induction xs arbitrary: s) (auto dest!: add_leD1)

lemma tiles_member:
  "tiles h s xs e \<Longrightarrow> x \<in> set xs \<Longrightarrow>
     s \<le> unat (mb_base (h x)) \<and> unat (mb_base (h x)) + unat (mb_size (h x)) \<le> e"
proof (induction xs arbitrary: s)
  case Nil
  then show ?case by simp
next
  case (Cons a xs)
  then show ?case
    using tiles_le by (cases "x = a") fastforce+
qed

lemma tiles_disjoint:
  "tiles h s xs e \<Longrightarrow> distinct xs \<Longrightarrow> x \<in> set xs \<Longrightarrow> y \<in> set xs \<Longrightarrow> x \<noteq> y \<Longrightarrow>
     unat (mb_base (h x)) + unat (mb_size (h x)) \<le> unat (mb_base (h y)) \<or>
     unat (mb_base (h y)) + unat (mb_size (h y)) \<le> unat (mb_base (h x))"
proof (induction xs arbitrary: s)
  case Nil
  then show ?case by simp
next
  case (Cons a xs)
  from Cons.prems(1) have t: "tiles h (s + unat (mb_size (h a))) xs e" and b: "unat (mb_base (h a)) = s"
    by auto
  consider "x = a" "y \<in> set xs" | "y = a" "x \<in> set xs" | "x \<in> set xs" "y \<in> set xs"
    using Cons.prems by auto
  then show ?case
  proof cases
    case 1
    with tiles_member [OF t, of y] b show ?thesis by auto
  next
    case 2
    with tiles_member [OF t, of x] b show ?thesis by auto
  next
    case 3
    with Cons t show ?thesis by auto
  qed
qed

section \<open>Merging and freeing\<close>

lemmas upd_simps = heap_simps fun_upd_same fun_upd_other

lemma merge_eq_last:
  assumes "mb_next (mem_heap mem b) = Some n" and "mb_next (mem_heap mem n) = None" and "b \<noteq> n"
  shows "merge mem b = Some (mem\<lparr>mem_heap := (mem_heap mem)
      (b := (mem_heap mem b)\<lparr>mb_size := mb_size (mem_heap mem b) + mb_size (mem_heap mem n), mb_next := None\<rparr>,
       n := (mem_heap mem n)\<lparr>mb_next := mem_unused mem\<rparr>), mem_unused := Some n\<rparr>)"
  using assms by (simp add: merge_def Let_def fun_eq_iff)

lemma merge_eq_mid:
  assumes "mb_next (mem_heap mem b) = Some n" and "mb_next (mem_heap mem n) = Some c"
    and "b \<noteq> n" and "c \<noteq> n" and "c \<noteq> b"
  shows "merge mem b = Some (mem\<lparr>mem_heap := (mem_heap mem)
      (b := (mem_heap mem b)\<lparr>mb_size := mb_size (mem_heap mem b) + mb_size (mem_heap mem n), mb_next := Some c\<rparr>,
       n := (mem_heap mem n)\<lparr>mb_next := mem_unused mem\<rparr>,
       c := (mem_heap mem c)\<lparr>mb_prev := Some b\<rparr>), mem_unused := Some n\<rparr>)"
  using assms by (simp add: merge_def Let_def fun_eq_iff)

definition merged :: "mem_info \<Rightarrow> nat \<Rightarrow> nat \<Rightarrow> mem_info \<Rightarrow> bool" where
  "merged mem b n mem' \<longleftrightarrow>
     mem_block_size mem' = mem_block_size mem \<and> mem_heap_entries mem' = mem_heap_entries mem \<and>
     (\<forall>i. mb_base (mem_heap mem' i) = mb_base (mem_heap mem i) \<and>
          mb_tag (mem_heap mem' i) = mb_tag (mem_heap mem i) \<and>
          mb_allocated (mem_heap mem' i) = mb_allocated (mem_heap mem i) \<and>
          mb_size (mem_heap mem' i) =
            (if i = b then mb_size (mem_heap mem b) + mb_size (mem_heap mem n)
             else mb_size (mem_heap mem i)))"

lemma mem_repI:
  assumes "path (heap_next mem) (mem_first mem) xs None" "backs (heap_prev mem) None xs"
    "path (heap_next mem) (mem_unused mem) us None" "distinct (xs @ us)"
    "set (xs @ us) = {..<unat (mem_heap_entries mem)}"
    "\<And>u. u \<in> set us \<Longrightarrow> \<not> mb_allocated (mem_heap mem u)"
  shows "mem_rep mem xs us"
  using assms by (simp add: mem_rep_def)

lemma mem_repD:
  assumes "mem_rep mem xs us"
  shows "path (heap_next mem) (mem_first mem) xs None" "backs (heap_prev mem) None xs"
    "path (heap_next mem) (mem_unused mem) us None" "distinct (xs @ us)"
    "set (xs @ us) = {..<unat (mem_heap_entries mem)}"
    "\<And>u. u \<in> set us \<Longrightarrow> \<not> mb_allocated (mem_heap mem u)"
  using assms by (simp_all add: mem_rep_def)

lemma merge_rep:
  assumes rep: "mem_rep mem (as @ b # n # cs) us" and fr: "\<not> mb_allocated (mem_heap mem n)"
  shows "\<exists>mem'. merge mem b = Some mem' \<and> mem_rep mem' (as @ b # cs) (n # us) \<and> merged mem b n mem'"
proof -
  note D = mem_repD [OF rep]
  have ins: "set ((as @ b # cs) @ n # us) = {..<unat (mem_heap_entries mem)}" using D(5) by auto
  show ?thesis
  proof (cases cs)
    case Nil
    have "mb_next (mem_heap mem b) = Some n" "mb_next (mem_heap mem n) = None" "b \<noteq> n"
      using D(1,4) Nil by simp_all
    note eq = merge_eq_last [OF this]
    let ?m = "the (merge mem b)"
    have "mem_rep ?m (as @ b # cs) (n # us)"
    proof (rule mem_repI)
      show "path (heap_next ?m) (mem_first ?m) (as @ b # cs) None"
        using D(1,4) Nil unfolding eq by (simp add: upd_simps del: fun_upd_apply)
      show "backs (heap_prev ?m) None (as @ b # cs)"
        using D(2,4) Nil unfolding eq by (simp add: upd_simps del: fun_upd_apply)
      show "path (heap_next ?m) (mem_unused ?m) (n # us) None"
        using D(3,4) Nil unfolding eq by (simp add: upd_simps del: fun_upd_apply)
    qed (use D(4,6) ins fr in \<open>auto simp: eq\<close>)
    moreover have "merged mem b n ?m" unfolding eq using \<open>b \<noteq> n\<close> by (simp add: merged_def)
    ultimately show ?thesis by (simp add: eq)
  next
    case (Cons c cs')
    have "mb_next (mem_heap mem b) = Some n" "mb_next (mem_heap mem n) = Some c"
      "b \<noteq> n" "c \<noteq> n" "c \<noteq> b"
      using D(1,4) Cons by auto
    note eq = merge_eq_mid [OF this]
    let ?m = "the (merge mem b)"
    have "mem_rep ?m (as @ b # cs) (n # us)"
    proof (rule mem_repI)
      show "path (heap_next ?m) (mem_first ?m) (as @ b # cs) None"
        using D(1,4) Cons unfolding eq by (simp add: upd_simps del: fun_upd_apply)
      show "backs (heap_prev ?m) None (as @ b # cs)"
        using D(2,4) Cons unfolding eq by (simp add: upd_simps del: fun_upd_apply)
      show "path (heap_next ?m) (mem_unused ?m) (n # us) None"
        using D(3,4) Cons unfolding eq by (simp add: upd_simps del: fun_upd_apply)
    qed (use D(4,6) ins fr in \<open>auto simp: eq\<close>)
    moreover have "merged mem b n ?m" unfolding eq using \<open>b \<noteq> n\<close> \<open>c \<noteq> b\<close> by (simp add: merged_def)
    ultimately show ?thesis by (simp add: eq)
  qed
qed

text \<open>
  A heap whose range \<open>s \<dots> e\<close> is tiled, without the requirement that free neighbours
  are merged, which does not hold in the middle of \<open>freeblock\<close>.
\<close>

definition tiled :: "nat \<Rightarrow> nat \<Rightarrow> mem_info \<Rightarrow> nat list \<Rightarrow> nat list \<Rightarrow> bool" where
  "tiled s e mem xs us \<longleftrightarrow> e < 2 ^ 32 \<and> mem_rep mem xs us \<and> tiles (mem_heap mem) s xs e"

lemma coalesced_append:
  "coalesced h (xs @ ys) \<longleftrightarrow> coalesced h xs \<and> coalesced h ys \<and>
     (xs = [] \<or> ys = [] \<or> mb_allocated (h (last xs)) \<or> mb_allocated (h (hd ys)))"
  by (simp add: coalesced_def successively_append_iff)

lemma coalesced_simps [simp]:
  "coalesced h []" "coalesced h [x]"
  "coalesced h (x # y # zs) \<longleftrightarrow> (mb_allocated (h x) \<or> mb_allocated (h y)) \<and> coalesced h (y # zs)"
  by (simp_all add: coalesced_def)

lemma coalesced_ConsD: "coalesced h (x # xs) \<Longrightarrow> coalesced h xs"
  by (cases xs) simp_all

lemma merge_tiled:
  assumes t: "tiled s e mem (as @ b # n # cs) us" and fr: "\<not> mb_allocated (mem_heap mem n)"
  shows "\<exists>mem'. merge mem b = Some mem' \<and> merged mem b n mem' \<and> tiled s e mem' (as @ b # cs) (n # us)"
proof -
  from t have rep: "mem_rep mem (as @ b # n # cs) us" and e: "e < 2 ^ 32"
    and ti: "tiles (mem_heap mem) s (as @ b # n # cs) e" by (simp_all add: tiled_def)
  from merge_rep [OF rep fr] obtain mem' where m: "merge mem b = Some mem'"
    "mem_rep mem' (as @ b # cs) (n # us)" "merged mem b n mem'" by blast
  from mem_repD(4) [OF rep] have d: "b \<notin> set as" "b \<notin> set cs" by auto
  have other: "\<And>x. x \<noteq> b \<Longrightarrow> same_payload (mem_heap mem x) (mem_heap mem' x)"
    using m(3) by (simp add: merged_def same_payload_def)
  from ti obtain k where k: "tiles (mem_heap mem) s as k" "unat (mb_base (mem_heap mem b)) = k"
    "tiles (mem_heap mem) (k + unat (mb_size (mem_heap mem b)) + unat (mb_size (mem_heap mem n))) cs e"
    by (auto simp: tiles_append)
  have "unat (mb_size (mem_heap mem b)) + unat (mb_size (mem_heap mem n)) < 2 ^ LENGTH(32)"
    using tiles_le [OF k(3)] e by simp
  then have sz: "unat (mb_size (mem_heap mem' b)) =
      unat (mb_size (mem_heap mem b)) + unat (mb_size (mem_heap mem n))"
    using m(3) by (simp add: merged_def unat_plus_no_wrap)
  have "tiles (mem_heap mem') s as k"
    using k(1) d(1) tiles_cong [of as "mem_heap mem" "mem_heap mem'"] other by metis
  moreover have "tiles (mem_heap mem') (k + unat (mb_size (mem_heap mem' b))) cs e"
    using k(3) d(2) tiles_cong [of cs "mem_heap mem" "mem_heap mem'"] other sz by (metis add.assoc)
  moreover have "unat (mb_base (mem_heap mem' b)) = k" using k(2) m(3) by (simp add: merged_def)
  ultimately have "tiles (mem_heap mem') s (as @ b # cs) e" by (auto simp: tiles_append)
  with m e show ?thesis by (auto simp: tiled_def)
qed

lemma merged_extents:
  assumes "merged mem b n mem'" and "\<not> mb_allocated (mem_heap mem b)"
  shows "extents mem' = extents mem"
  using assms by (intro extents_eqI) (auto simp: extents_iff merged_def)

lemma merged_coalesced:
  "merged mem b n mem' \<Longrightarrow> coalesced (mem_heap mem') xs = coalesced (mem_heap mem) xs"
  by (rule coalesced_cong) (simp add: merged_def)

definition frame :: "mem_info \<Rightarrow> mem_info \<Rightarrow> bool" where
  "frame mem mem' \<longleftrightarrow> mem_block_size mem' = mem_block_size mem \<and>
     mem_heap_entries mem' = mem_heap_entries mem \<and> extents mem' = extents mem \<and>
     (\<forall>i. mb_allocated (mem_heap mem' i) = mb_allocated (mem_heap mem i) \<and>
          mb_tag (mem_heap mem' i) = mb_tag (mem_heap mem i))"

lemma merged_frame:
  "merged mem b n mem' \<Longrightarrow> \<not> mb_allocated (mem_heap mem b) \<Longrightarrow> frame mem mem'"
  using merged_extents [of mem b n mem'] by (simp add: frame_def merged_def)

lemma merge_prev_spec:
  assumes t: "tiled s e mem (as @ b # cs) us" and fr: "\<not> mb_allocated (mem_heap mem b)"
    and co: "coalesced (mem_heap mem) as" "coalesced (mem_heap mem) cs"
  shows "\<exists>mem' b' as' us'. merge_prev mem b = Some (mem', b') \<and> tiled s e mem' (as' @ b' # cs) us' \<and>
    frame mem mem' \<and> \<not> mb_allocated (mem_heap mem' b') \<and> set as' \<subseteq> set as \<and>
    coalesced (mem_heap mem') (as' @ [b']) \<and> coalesced (mem_heap mem') cs"
proof (cases as rule: rev_cases)
  case Nil
  with t have "mb_prev (mem_heap mem b) = None" by (simp add: tiled_def mem_rep_def)
  with Nil t fr co show ?thesis
    by (intro exI [of _ mem] exI [of _ b] exI [of _ "[]"] exI [of _ us]) (simp add: merge_prev_def frame_def)
next
  case (snoc as0 p)
  with t have p: "mb_prev (mem_heap mem b) = Some p" by (simp add: tiled_def mem_rep_def)
  show ?thesis
  proof (cases "mb_allocated (mem_heap mem p)")
    case True
    with p snoc t fr co show ?thesis
      by (intro exI [of _ mem] exI [of _ b] exI [of _ as] exI [of _ us])
        (simp add: merge_prev_def frame_def coalesced_append)
  next
    case False
    from t snoc have t': "tiled s e mem (as0 @ p # b # cs) us" by simp
    from merge_tiled [OF t' fr] obtain mem' where m: "merge mem p = Some mem'" "merged mem p b mem'"
      "tiled s e mem' (as0 @ p # cs) (b # us)" by blast
    moreover have "\<not> mb_allocated (mem_heap mem' p)" using m(2) False by (simp add: merged_def)
    ultimately show ?thesis
      using p False co snoc merged_frame [OF m(2) False] merged_coalesced [OF m(2)]
      by (intro exI [of _ mem'] exI [of _ p] exI [of _ as0] exI [of _ "b # us"])
        (auto simp: merge_prev_def)
  qed
qed

lemma merge_next_spec:
  assumes t: "tiled s e mem (as @ b # cs) us" and fr: "\<not> mb_allocated (mem_heap mem b)"
    and co: "coalesced (mem_heap mem) (as @ [b])" "coalesced (mem_heap mem) cs"
  shows "\<exists>mem' cs' us'. merge_next mem b = Some (mem', b) \<and> tiled s e mem' (as @ b # cs') us' \<and>
    frame mem mem' \<and> (cs' = cs \<or> (\<exists>n. cs = n # cs')) \<and> coalesced (mem_heap mem') (as @ b # cs')"
proof (cases cs)
  case Nil
  with t have "mb_next (mem_heap mem b) = None" by (simp add: tiled_def mem_rep_def)
  with Nil t co show ?thesis by (auto simp: merge_next_def frame_def)
next
  case (Cons n cs0)
  with t have n: "mb_next (mem_heap mem b) = Some n" by (simp add: tiled_def mem_rep_def)
  show ?thesis
  proof (cases "mb_allocated (mem_heap mem n)")
    case True
    with n Cons t co show ?thesis
      by (intro exI [of _ mem] exI [of _ cs] exI [of _ us])
        (simp add: merge_next_def frame_def coalesced_append)
  next
    case False
    from t Cons have t': "tiled s e mem (as @ b # n # cs0) us" by simp
    from merge_tiled [OF t' False] obtain mem' where m: "merge mem b = Some mem'" "merged mem b n mem'"
      "tiled s e mem' (as @ b # cs0) (n # us)" by blast
    have "coalesced (mem_heap mem) (as @ b # cs0)"
      using co Cons False coalesced_ConsD [of "mem_heap mem" n cs0]
      by (cases cs0) (auto simp: coalesced_append)
    with m n False Cons merged_frame [OF m(2) fr] merged_coalesced [OF m(2)] show ?thesis
      by (intro exI [of _ mem'] exI [of _ cs0] exI [of _ "n # us"]) (auto simp: merge_next_def)
  qed
qed

lemma set_allocated_tiled:
  assumes t: "tiled s e mem (as @ b # cs) us"
  shows "tiled s e (set_allocated mem b a) (as @ b # cs) us"
proof -
  from t have rep: "mem_rep mem (as @ b # cs) us" by (simp add: tiled_def)
  have nx: "heap_next (set_allocated mem b a) = heap_next mem"
    "heap_prev (set_allocated mem b a) = heap_prev mem"
    by (simp_all add: set_allocated_def fun_eq_iff)
  have same: "mem_first (set_allocated mem b a) = mem_first mem"
    "mem_unused (set_allocated mem b a) = mem_unused mem"
    "mem_heap_entries (set_allocated mem b a) = mem_heap_entries mem"
    by (simp_all add: set_allocated_def)
  have "\<not> mb_allocated (mem_heap (set_allocated mem b a) u)" if "u \<in> set us" for u
    using that mem_repD(4,6) [OF rep] by (auto simp: set_allocated_def)
  then have "mem_rep (set_allocated mem b a) (as @ b # cs) us"
    using rep unfolding mem_rep_def nx same by blast
  moreover have "tiles (mem_heap (set_allocated mem b a)) s xs k = tiles (mem_heap mem) s xs k" for xs s k
    by (rule tiles_cong) (simp add: set_allocated_def same_payload_def)
  ultimately show ?thesis using t by (simp add: tiled_def)
qed

lemma set_allocated_coalesced:
  "b \<notin> set xs \<Longrightarrow> coalesced (mem_heap (set_allocated mem b a)) xs = coalesced (mem_heap mem) xs"
  by (rule coalesced_cong) (auto simp: set_allocated_def)

lemma set_allocated_extents:
  "extents (set_allocated mem b False) = {x \<in> extents mem. fst x \<noteq> b}"
  by (rule extents_eqI) (simp add: extents_iff set_allocated_def)

lemma freeblock_spec:
  assumes t: "tiled s e mem (as @ b # cs) us" and co: "coalesced (mem_heap mem) as" "coalesced (mem_heap mem) cs"
  shows "\<exists>mem' c as' cs' us'. freeblock mem b = Some (mem', c) \<and> tiled s e mem' (as' @ c # cs') us' \<and>
    coalesced (mem_heap mem') (as' @ c # cs') \<and> frame (set_allocated mem b False) mem' \<and>
    \<not> mb_allocated (mem_heap mem' c) \<and> set as' \<subseteq> set as \<and> (cs' = cs \<or> (\<exists>n. cs = n # cs'))"
proof -
  let ?m = "set_allocated mem b False"
  have d: "b \<notin> set as" "b \<notin> set cs" using t by (auto simp: tiled_def mem_rep_def)
  have fr: "\<not> mb_allocated (mem_heap ?m b)" by (simp add: set_allocated_def)
  from merge_prev_spec [OF set_allocated_tiled [OF t] fr] co d obtain m1 b' as' us1 where
    1: "merge_prev ?m b = Some (m1, b')" "tiled s e m1 (as' @ b' # cs) us1" "frame ?m m1"
      "\<not> mb_allocated (mem_heap m1 b')" "set as' \<subseteq> set as"
      "coalesced (mem_heap m1) (as' @ [b'])" "coalesced (mem_heap m1) cs"
    by (auto simp: set_allocated_coalesced)
  from merge_next_spec [OF 1(2,4,6,7)] obtain m2 cs' us2 where
    2: "merge_next m1 b' = Some (m2, b')" "tiled s e m2 (as' @ b' # cs') us2" "frame m1 m2"
      "cs' = cs \<or> (\<exists>n. cs = n # cs')" "coalesced (mem_heap m2) (as' @ b' # cs')"
    by blast
  have "frame ?m m2" using 1(3) 2(3) by (simp add: frame_def)
  moreover have "\<not> mb_allocated (mem_heap m2 b')" using 2(3) 1(4) by (simp add: frame_def)
  ultimately show ?thesis using 1 2 by (auto simp: freeblock_def)
qed

lemma tiled_next:
  assumes "tiled s e mem (as @ b # cs) us"
  shows "mb_next (mem_heap mem b) = headp cs None"
proof -
  have "path (heap_next mem) (mb_next (mem_heap mem b)) cs None"
    using assms by (simp add: tiled_def mem_rep_def)
  then show ?thesis by (rule path_head)
qed

lemma mem_invE:
  assumes "mem_inv s e mem"
  obtains xs us where "tiled s e mem xs us" "xs \<noteq> []" "coalesced (mem_heap mem) xs"
  using assms by (auto simp: mem_inv_def tiled_def)

lemma mem_invI: "tiled s e mem xs us \<Longrightarrow> xs \<noteq> [] \<Longrightarrow> coalesced (mem_heap mem) xs \<Longrightarrow> mem_inv s e mem"
  by (auto simp: mem_inv_def tiled_def)

lemma tiled_allocated_mem:
  assumes "tiled s e mem xs us" "i < unat (mem_heap_entries mem)" "mb_allocated (mem_heap mem i)"
  shows "i \<in> set xs"
proof -
  have "i \<in> set (xs @ us)" using assms mem_repD(5) [of mem xs us] by (simp add: tiled_def)
  with assms show ?thesis by (auto simp: tiled_def mem_rep_def)
qed

lemma coalesced_split:
  "coalesced h (as @ b # cs) \<Longrightarrow> coalesced h as \<and> coalesced h cs"
  using coalesced_ConsD by (auto simp: coalesced_append)

section \<open>Freeing a block and freeing an owner's blocks\<close>

lemma frame_extents: "frame (set_allocated mem b False) mem' \<Longrightarrow>
    extents mem' = {x \<in> extents mem. fst x \<noteq> b}"
  by (simp add: frame_def set_allocated_extents)

lemma mem_free_ok:
  assumes inv: "mem_inv s e mem"
    and own: "blockID - 1 < mem_heap_entries mem"
      "mb_allocated (mem_heap mem (unat (blockID - 1)))"
      "mb_tag (mem_heap mem (unat (blockID - 1))) = tg"
  shows "\<exists>mem'. mem_free B_OK mem blockID tg = Some (mem', B_OK) \<and> mem_inv s e mem' \<and>
    extents mem' = {x \<in> extents mem. fst x \<noteq> unat (blockID - 1)} \<and>
    \<not> mb_allocated (mem_heap mem' (unat (blockID - 1))) \<and>
    mem_heap_entries mem' = mem_heap_entries mem \<and> mem_block_size mem' = mem_block_size mem"
proof -
  let ?b = "unat (blockID - 1)"
  from inv obtain xs us where t: "tiled s e mem xs us" and co: "coalesced (mem_heap mem) xs"
    by (rule mem_invE)
  have "?b \<in> set xs" using tiled_allocated_mem [OF t] own by (simp add: word_less_unat)
  then obtain as cs where xs: "xs = as @ ?b # cs" by (meson split_list)
  from freeblock_spec [of s e mem as ?b cs us] t co xs coalesced_split [of "mem_heap mem" as ?b cs]
  obtain mem' c as' cs' us' where f: "freeblock mem ?b = Some (mem', c)"
    "tiled s e mem' (as' @ c # cs') us'" "coalesced (mem_heap mem') (as' @ c # cs')"
    "frame (set_allocated mem ?b False) mem'" by auto
  have "mem_inv s e mem'" using f(2,3) by (auto intro: mem_invI)
  moreover have "\<not> mb_allocated (mem_heap mem' ?b)"
    using f(4) by (simp add: frame_def set_allocated_def)
  moreover have "mem_free B_OK mem blockID tg = Some (mem', B_OK)"
    using own f(1) by (simp add: mem_free_def Let_def)
  ultimately show ?thesis using f(4) frame_extents [OF f(4)]
    by (simp add: frame_def set_allocated_def)
qed

lemma mem_free_rejects:
  assumes "\<not> (blockID - 1 < mem_heap_entries mem \<and> mb_allocated (mem_heap mem (unat (blockID - 1))) \<and>
     mb_tag (mem_heap mem (unat (blockID - 1))) = tg)"
  shows "mem_free B_OK mem blockID tg = Some (mem, B_BAD_VALUE)"
  using assms by (auto simp: mem_free_def Let_def not_less)

lemma extents_set_allocated_tag:
  assumes "mb_tag (mem_heap mem b) = tg"
  shows "{x \<in> extents (set_allocated mem b False). snd (snd (snd x)) \<noteq> tg} =
     {x \<in> extents mem. snd (snd (snd x)) \<noteq> tg}"
  using assms by (intro extents_eqI) (auto simp: extents_iff set_allocated_def)

text \<open>
  The loop of \<open>mem_freetag\<close>, from the middle of the list: no block before the current one
  belongs to the owner.
\<close>

lemma freetag_loop_spec:
  "tiled s e mem (as @ cs) us \<Longrightarrow> coalesced (mem_heap mem) (as @ cs) \<Longrightarrow> as @ cs \<noteq> [] \<Longrightarrow>
   (\<forall>x\<in>set as. mb_allocated (mem_heap mem x) \<longrightarrow> mb_tag (mem_heap mem x) \<noteq> tg) \<Longrightarrow>
   \<exists>mem'. freetag_loop mem tg (headp cs None) = Some mem' \<and> mem_inv s e mem' \<and>
     extents mem' = {x \<in> extents mem. snd (snd (snd x)) \<noteq> tg} \<and>
     mem_heap_entries mem' = mem_heap_entries mem \<and> mem_block_size mem' = mem_block_size mem"
proof (induction "length cs" arbitrary: cs as mem us rule: less_induct)
  case less
  note t = less.prems(1) and co = less.prems(2) and ne = less.prems(3) and no = less.prems(4)
  show ?case
  proof (cases cs)
    case Nil
    have "{x \<in> extents mem. snd (snd (snd x)) \<noteq> tg} = extents mem"
      using no Nil tiled_allocated_mem [OF t] by (intro extents_eqI) (auto simp: extents_iff)
    with Nil t co ne show ?thesis by (auto simp: freetag_loop.simps intro: mem_invI)
  next
    case (Cons b ds)
    have hd: "headp cs None = Some b" using Cons by simp
    have nx: "mb_next (mem_heap mem b) = headp ds None"
      using t Cons by (auto intro: tiled_next)
    show ?thesis
    proof (cases "mb_allocated (mem_heap mem b) \<and> mb_tag (mem_heap mem b) = tg")
      case False
      have "length ds < length cs" "tiled s e mem ((as @ [b]) @ ds) us"
        "coalesced (mem_heap mem) ((as @ [b]) @ ds)" "(as @ [b]) @ ds \<noteq> []"
        "\<forall>x\<in>set (as @ [b]). mb_allocated (mem_heap mem x) \<longrightarrow> mb_tag (mem_heap mem x) \<noteq> tg"
        using Cons t co no False by simp_all
      note IH = less.hyps [OF this]
      have "freetag_loop mem tg (headp cs None) = freetag_loop mem tg (headp ds None)"
        unfolding hd by (subst freetag_loop.simps) (simp only: option.case if_not_P [OF False] nx)
      with IH show ?thesis by simp
    next
      case True
      from freeblock_spec [of s e mem as b ds us] t co Cons coalesced_split [of "mem_heap mem" as b ds]
      obtain m1 c as' cs' us' where f: "freeblock mem b = Some (m1, c)"
        "tiled s e m1 (as' @ c # cs') us'" "coalesced (mem_heap m1) (as' @ c # cs')"
        "frame (set_allocated mem b False) m1" "\<not> mb_allocated (mem_heap m1 c)" "set as' \<subseteq> set as"
        "cs' = ds \<or> (\<exists>n. ds = n # cs')"
        by auto
      have len: "length cs' < length cs" using f(7) Cons by auto
      have nx1: "mb_next (mem_heap m1 c) = headp cs' None"
        using f(2) by (rule tiled_next)
      have "\<forall>x\<in>set (as' @ [c]). mb_allocated (mem_heap m1 x) \<longrightarrow> mb_tag (mem_heap m1 x) \<noteq> tg"
        using f(4,5,6) no by (auto simp: frame_def set_allocated_def)
      with less.hyps [OF len, of m1 "as' @ [c]" us'] f(2,3)
      obtain m2 where m2: "freetag_loop m1 tg (headp cs' None) = Some m2" "mem_inv s e m2"
        "extents m2 = {x \<in> extents m1. snd (snd (snd x)) \<noteq> tg}"
        "mem_heap_entries m2 = mem_heap_entries m1" "mem_block_size m2 = mem_block_size m1" by auto
      have "freetag_loop mem tg (headp cs None) = Some m2"
        using True hd f(1) nx1 m2(1) by (subst freetag_loop.simps) simp
      moreover have "extents m2 = {x \<in> extents mem. snd (snd (snd x)) \<noteq> tg}"
        using m2(3) f(4) extents_set_allocated_tag [of mem b tg] True by (simp add: frame_def)
      ultimately show ?thesis using m2 f(4) by (simp add: frame_def set_allocated_def)
    qed
  qed
qed

lemma mem_freetag_spec:
  assumes "mem_inv s e mem"
  shows "\<exists>mem'. mem_freetag B_OK mem tg = Some (mem', B_OK) \<and> mem_inv s e mem' \<and>
     extents mem' = {x \<in> extents mem. snd (snd (snd x)) \<noteq> tg} \<and>
     mem_heap_entries mem' = mem_heap_entries mem \<and> mem_block_size mem' = mem_block_size mem"
proof -
  from assms obtain xs us where t: "tiled s e mem ([] @ xs) us" "coalesced (mem_heap mem) ([] @ xs)"
    "[] @ xs \<noteq> []" by (auto elim: mem_invE)
  have "path (heap_next mem) (mem_first mem) xs None" using t(1) by (simp add: tiled_def mem_rep_def)
  then have "mem_first mem = headp xs None" by (rule path_head)
  with freetag_loop_spec [OF t, of tg] show ?thesis by (auto simp: mem_freetag_def)
qed

section \<open>Allocation\<close>

lemma find_fit_find:
  "tiled s e mem xs us \<Longrightarrow> find_fit mem sz =
     Some (List.find (\<lambda>b. \<not> mb_allocated (mem_heap mem b) \<and> mb_size (mem_heap mem b) \<ge> sz) xs)"
  unfolding find_fit_def by (rule walk_path) (simp add: tiled_def mem_rep_def)

lemma take_block_rep:
  assumes "mem_rep mem (as @ b # cs) us"
  shows "mem_rep (take_block mem b tg) (as @ b # cs) us"
proof -
  have nx: "heap_next (take_block mem b tg) = heap_next mem"
    "heap_prev (take_block mem b tg) = heap_prev mem"
    by (simp_all add: take_block_def fun_eq_iff)
  have same: "mem_first (take_block mem b tg) = mem_first mem"
    "mem_unused (take_block mem b tg) = mem_unused mem"
    "mem_heap_entries (take_block mem b tg) = mem_heap_entries mem"
    by (simp_all add: take_block_def)
  have "\<not> mb_allocated (mem_heap (take_block mem b tg) u)" if "u \<in> set us" for u
    using that mem_repD(4,6) [OF assms] by (auto simp: take_block_def)
  then show ?thesis
    using assms unfolding mem_rep_def nx same by blast
qed

lemma take_block_tiled:
  assumes t: "tiled s e mem (as @ b # cs) us"
  shows "tiled s e (take_block mem b tg) (as @ b # cs) us"
proof -
  have "tiles (mem_heap (take_block mem b tg)) s xs k = tiles (mem_heap mem) s xs k" for xs s k
    by (rule tiles_cong) (simp add: take_block_def same_payload_def)
  with t take_block_rep show ?thesis by (simp add: tiled_def)
qed

lemma take_block_coalesced:
  "coalesced (mem_heap mem) xs \<Longrightarrow> coalesced (mem_heap (take_block mem b tg)) xs"
  unfolding coalesced_def by (erule successively_mono) (auto simp: take_block_def)

lemma take_block_extents:
  assumes "b < unat (mem_heap_entries mem)" and "\<not> mb_allocated (mem_heap mem b)"
  shows "extents (take_block mem b tg) =
    insert (b, unat (mb_base (mem_heap mem b)), unat (mb_size (mem_heap mem b)), tg) (extents mem)"
  using assms by (intro extents_eqI) (auto simp: extents_iff take_block_def)

lemma split_eq_last:
  assumes "mb_next (mem_heap mem b) = None" and "b \<noteq> n"
  shows "split_block mem b n sz = mem\<lparr>mem_heap := (mem_heap mem)
      (n := (mem_heap mem n)\<lparr>mb_next := None, mb_prev := Some b, mb_allocated := False,
         mb_base := mb_base (mem_heap mem b) + sz, mb_size := mb_size (mem_heap mem b) - sz\<rparr>,
       b := (mem_heap mem b)\<lparr>mb_next := Some n, mb_size := sz\<rparr>),
      mem_unused := mb_next (mem_heap mem n)\<rparr>"
  using assms by (simp add: split_block_def Let_def)

lemma split_eq_mid:
  assumes "mb_next (mem_heap mem b) = Some c" and "b \<noteq> n" and "c \<noteq> n" and "c \<noteq> b"
  shows "split_block mem b n sz = mem\<lparr>mem_heap := (mem_heap mem)
      (n := (mem_heap mem n)\<lparr>mb_next := Some c, mb_prev := Some b, mb_allocated := False,
         mb_base := mb_base (mem_heap mem b) + sz, mb_size := mb_size (mem_heap mem b) - sz\<rparr>,
       c := (mem_heap mem c)\<lparr>mb_prev := Some n\<rparr>,
       b := (mem_heap mem b)\<lparr>mb_next := Some n, mb_size := sz\<rparr>),
      mem_unused := mb_next (mem_heap mem n)\<rparr>"
  using assms by (simp add: split_block_def Let_def)

definition splitted :: "mem_info \<Rightarrow> nat \<Rightarrow> nat \<Rightarrow> uint32 \<Rightarrow> mem_info \<Rightarrow> bool" where
  "splitted mem b n sz mem' \<longleftrightarrow>
     mem_block_size mem' = mem_block_size mem \<and> mem_heap_entries mem' = mem_heap_entries mem \<and>
     mb_base (mem_heap mem' n) = mb_base (mem_heap mem b) + sz \<and>
     mb_size (mem_heap mem' n) = mb_size (mem_heap mem b) - sz \<and>
     \<not> mb_allocated (mem_heap mem' n) \<and> mb_size (mem_heap mem' b) = sz \<and>
     (\<forall>i. i \<noteq> n \<longrightarrow> mb_base (mem_heap mem' i) = mb_base (mem_heap mem i) \<and>
          mb_tag (mem_heap mem' i) = mb_tag (mem_heap mem i) \<and>
          mb_allocated (mem_heap mem' i) = mb_allocated (mem_heap mem i)) \<and>
     (\<forall>i. i \<noteq> n \<and> i \<noteq> b \<longrightarrow> mb_size (mem_heap mem' i) = mb_size (mem_heap mem i))"

lemma split_rep:
  assumes rep: "mem_rep mem (as @ b # cs) (n # us)"
  shows "mem_rep (split_block mem b n sz) (as @ b # n # cs) us \<and> splitted mem b n sz (split_block mem b n sz)"
proof -
  note D = mem_repD [OF rep]
  have ins: "set ((as @ b # n # cs) @ us) = {..<unat (mem_heap_entries mem)}" using D(5) by auto
  let ?m = "split_block mem b n sz"
  show ?thesis
  proof (cases cs)
    case Nil
    have "mb_next (mem_heap mem b) = None" "b \<noteq> n" using D(1,4) Nil by auto
    note eq = split_eq_last [OF this, of sz]
    have "mem_rep ?m (as @ b # n # cs) us"
    proof (rule mem_repI)
      show "path (heap_next ?m) (mem_first ?m) (as @ b # n # cs) None"
        using D(1,4) Nil unfolding eq by (simp add: upd_simps del: fun_upd_apply)
      show "backs (heap_prev ?m) None (as @ b # n # cs)"
        using D(2,4) Nil unfolding eq by (simp add: upd_simps del: fun_upd_apply)
      show "path (heap_next ?m) (mem_unused ?m) us None"
        using D(3,4) Nil unfolding eq by (simp add: upd_simps del: fun_upd_apply)
    qed (use D(4,6) ins in \<open>auto simp: eq\<close>)
    moreover have "splitted mem b n sz ?m" unfolding eq using \<open>b \<noteq> n\<close> by (simp add: splitted_def)
    ultimately show ?thesis by blast
  next
    case (Cons c cs')
    have "mb_next (mem_heap mem b) = Some c" "b \<noteq> n" "c \<noteq> n" "c \<noteq> b" using D(1,4) Cons by auto
    note eq = split_eq_mid [OF this, of sz]
    have "mem_rep ?m (as @ b # n # cs) us"
    proof (rule mem_repI)
      show "path (heap_next ?m) (mem_first ?m) (as @ b # n # cs) None"
        using D(1,4) Cons unfolding eq by (simp add: upd_simps del: fun_upd_apply)
      show "backs (heap_prev ?m) None (as @ b # n # cs)"
        using D(2,4) Cons unfolding eq by (simp add: upd_simps del: fun_upd_apply)
      show "path (heap_next ?m) (mem_unused ?m) us None"
        using D(3,4) Cons unfolding eq by (simp add: upd_simps del: fun_upd_apply)
    qed (use D(4,6) ins in \<open>auto simp: eq\<close>)
    moreover have "splitted mem b n sz ?m"
      unfolding eq using \<open>b \<noteq> n\<close> \<open>c \<noteq> n\<close> \<open>c \<noteq> b\<close> by (simp add: splitted_def)
    ultimately show ?thesis by blast
  qed
qed

lemma splitted_extents:
  assumes "splitted mem b n sz mem'" and "\<not> mb_allocated (mem_heap mem b)" and "\<not> mb_allocated (mem_heap mem n)"
  shows "extents mem' = extents mem"
proof (rule extents_eqI)
  fix i a l t
  show "(i, a, l, t) \<in> extents mem' \<longleftrightarrow> (i, a, l, t) \<in> extents mem"
    using assms by (cases "i = n"; cases "i = b") (auto simp: extents_iff splitted_def)
qed

lemma split_tiled:
  assumes t: "tiled s e mem (as @ b # cs) (n # us)" and le: "sz \<le> mb_size (mem_heap mem b)"
  shows "tiled s e (split_block mem b n sz) (as @ b # n # cs) us"
proof -
  let ?m = "split_block mem b n sz"
  from t have rep: "mem_rep mem (as @ b # cs) (n # us)" and e: "e < 2 ^ 32"
    and ti: "tiles (mem_heap mem) s (as @ b # cs) e" by (simp_all add: tiled_def)
  from split_rep [OF rep] have m: "mem_rep ?m (as @ b # n # cs) us" "splitted mem b n sz ?m" by auto
  from mem_repD(4) [OF rep] have d: "b \<notin> set as" "b \<notin> set cs" "n \<notin> set as" "n \<notin> set cs" "b \<noteq> n" by auto
  have other: "same_payload (mem_heap mem x) (mem_heap ?m x)" if "x \<noteq> b" "x \<noteq> n" for x
    using m(2) that by (simp add: splitted_def same_payload_def)
  from ti obtain k where k: "tiles (mem_heap mem) s as k" "unat (mb_base (mem_heap mem b)) = k"
    "tiles (mem_heap mem) (k + unat (mb_size (mem_heap mem b))) cs e"
    by (auto simp: tiles_append)
  have le': "unat sz \<le> unat (mb_size (mem_heap mem b))" using le by (simp add: word_le_unat)
  have "unat (mb_base (mem_heap mem b)) + unat sz < 2 ^ LENGTH(32)"
    using tiles_le [OF k(3)] k(2) le' e by simp
  then have base: "unat (mb_base (mem_heap ?m n)) = k + unat sz"
    using m(2) k(2) by (simp add: splitted_def unat_plus_no_wrap)
  have size: "unat (mb_size (mem_heap ?m n)) = unat (mb_size (mem_heap mem b)) - unat sz"
    using m(2) le by (simp add: splitted_def unat_minus_no_wrap)
  have 1: "tiles (mem_heap ?m) s as k"
    using k(1) d tiles_cong [of as "mem_heap mem" "mem_heap ?m"] other by metis
  have 2: "tiles (mem_heap ?m) (k + unat (mb_size (mem_heap mem b))) cs e"
    using k(3) d tiles_cong [of cs "mem_heap mem" "mem_heap ?m"] other by metis
  have "unat (mb_base (mem_heap ?m b)) = k" "mb_size (mem_heap ?m b) = sz"
    using k(2) m(2) d(5) by (simp_all add: splitted_def)
  with 1 2 base size le' have "tiles (mem_heap ?m) s (as @ b # n # cs) e" by (auto simp: tiles_append)
  with m e show ?thesis by (simp add: tiled_def)
qed

lemma split_take_spec:
  fixes tg :: nat
  assumes t: "tiled s e mem (as @ b # cs) (n # us)" and co: "coalesced (mem_heap mem) (as @ b # cs)"
    and nb: "\<not> mb_allocated (mem_heap mem b)" and le: "sz \<le> mb_size (mem_heap mem b)"
  defines "m \<equiv> take_block (split_block mem b n sz) b tg"
  shows "mem_inv s e m \<and> mem_heap_entries m = mem_heap_entries mem \<and>
    mem_block_size m = mem_block_size mem \<and>
    extents m = insert (b, unat (mb_base (mem_heap mem b)), unat sz, tg) (extents mem)"
proof -
  let ?m1 = "split_block mem b n sz"
  have sp: "splitted mem b n sz ?m1" using t split_rep [of mem as b cs n us sz] by (simp add: tiled_def)
  have t1: "tiled s e ?m1 (as @ b # n # cs) us" using split_tiled [OF t le] .
  have d: "b \<noteq> n" "n \<notin> set as" "n \<notin> set cs" "\<not> mb_allocated (mem_heap mem n)" "b \<notin> set as" "b \<notin> set cs"
    "b < unat (mem_heap_entries mem)"
    using t by (auto simp: tiled_def mem_rep_def)
  have same: "mb_allocated (mem_heap m i) = mb_allocated (mem_heap mem i)" if "i \<noteq> b" "i \<noteq> n" for i
    using sp that by (simp add: splitted_def take_block_def m_def)
  have "coalesced (mem_heap mem) as" "coalesced (mem_heap mem) cs"
    using co coalesced_split by blast+
  moreover have "cs \<noteq> [] \<longrightarrow> mb_allocated (mem_heap mem (hd cs))"
    using co nb by (cases cs) (simp_all add: coalesced_append)
  ultimately have "coalesced (mem_heap m) as" "coalesced (mem_heap m) cs"
    "cs \<noteq> [] \<longrightarrow> mb_allocated (mem_heap m (hd cs))"
    using same d coalesced_cong [of as "mem_heap mem" "mem_heap m"]
      coalesced_cong [of cs "mem_heap mem" "mem_heap m"] by (metis, metis, metis hd_in_set)
  moreover have "mb_allocated (mem_heap m b)" by (simp add: take_block_def m_def)
  ultimately have "coalesced (mem_heap m) (as @ b # n # cs)" by (cases cs) (auto simp: coalesced_append)
  with take_block_tiled [OF t1] have "mem_inv s e m" by (auto simp: m_def intro: mem_invI)
  moreover have "extents m = insert (b, unat (mb_base (mem_heap mem b)), unat sz, tg) (extents mem)"
    using take_block_extents [of b ?m1 tg] splitted_extents [OF sp nb d(4)] sp d nb
    by (simp add: splitted_def m_def)
  ultimately show ?thesis using sp by (simp add: splitted_def take_block_def m_def)
qed

lemma mem_alloc_spec:
  assumes inv: "mem_inv s e mem"
  shows "(\<exists>mem' b. mem_alloc B_OK mem sz tg =
        Some (mem', B_OK, Some (word_of_nat b + 1, mb_base (mem_heap mem b))) \<and> mem_inv s e mem' \<and>
        b < unat (mem_heap_entries mem) \<and> \<not> mb_allocated (mem_heap mem b) \<and>
        round_up mem sz \<le> mb_size (mem_heap mem b) \<and>
        mem_heap_entries mem' = mem_heap_entries mem \<and> mem_block_size mem' = mem_block_size mem \<and>
        extents mem' = insert (b, unat (mb_base (mem_heap mem b)), unat (round_up mem sz), tg) (extents mem)) \<or>
     (mem_alloc B_OK mem sz tg = Some (mem, B_NO_MEMORY, None) \<and>
        (mem_unused mem = None \<or>
         (\<forall>xs us. mem_rep mem xs us \<longrightarrow>
            (\<forall>b\<in>set xs. \<not> mb_allocated (mem_heap mem b) \<longrightarrow> mb_size (mem_heap mem b) < round_up mem sz))))"
    (is "?ok \<or> ?fail")
proof -
  from inv obtain xs us where t: "tiled s e mem xs us" and ne: "xs \<noteq> []" and co: "coalesced (mem_heap mem) xs"
    by (rule mem_invE)
  let ?sz = "round_up mem sz"
  let ?P = "\<lambda>b. \<not> mb_allocated (mem_heap mem b) \<and> mb_size (mem_heap mem b) \<ge> ?sz"
  note ff = find_fit_find [OF t, of ?sz]
  show ?thesis
  proof (cases "List.find ?P xs")
    case None
    have "mem_rep mem xs us" using t by (simp add: tiled_def)
    then have "xs' = xs" if "mem_rep mem xs' us'" for xs' us'
      using that path_unique by (auto simp: mem_rep_def)
    with None have "\<forall>xs us. mem_rep mem xs us \<longrightarrow>
            (\<forall>b\<in>set xs. \<not> mb_allocated (mem_heap mem b) \<longrightarrow> mb_size (mem_heap mem b) < ?sz)"
      by (auto simp: find_None_iff not_le)
    moreover have "mem_alloc B_OK mem sz tg = Some (mem, B_NO_MEMORY, None)"
      using ff None by (simp add: mem_alloc_def Let_def)
    ultimately show ?thesis by blast
  next
    case (Some b)
    from find_split [OF Some] obtain as cs where xs: "xs = as @ b # cs" and P: "?P b" by blast
    have bn: "b < unat (mem_heap_entries mem)" using t xs by (auto simp: tiled_def mem_rep_def)
    have ff': "find_fit mem ?sz = Some (Some b)" using ff Some by simp
    have nb: "\<not> mb_allocated (mem_heap mem b)" using P by simp
    show ?thesis
    proof (cases "?sz = mb_size (mem_heap mem b)")
      case True
      let ?m = "take_block mem b tg"
      have "mem_alloc B_OK mem sz tg = Some (?m, B_OK, Some (word_of_nat b + 1, mb_base (mem_heap mem b)))"
        using ff' True by (simp add: mem_alloc_def Let_def)
      moreover have "mem_inv s e ?m"
        using take_block_tiled [of s e mem as b cs us tg] take_block_coalesced t co xs
        by (auto intro: mem_invI)
      moreover have "extents ?m = insert (b, unat (mb_base (mem_heap mem b)), unat ?sz, tg) (extents mem)"
        using take_block_extents [OF bn nb] True by simp
      ultimately show ?thesis using bn P by (auto simp: take_block_def)
    next
      case False
      show ?thesis
      proof (cases us)
        case Nil
        then have "mem_unused mem = None" using t by (simp add: tiled_def mem_rep_def)
        then show ?thesis using ff' False by (simp add: mem_alloc_def Let_def)
      next
        case (Cons n us')
        then have un: "mem_unused mem = Some n" using t by (simp add: tiled_def mem_rep_def)
        have t': "tiled s e mem (as @ b # cs) (n # us')" using t xs Cons by simp
        let ?m1 = "split_block mem b n ?sz"
        let ?m = "take_block ?m1 b tg"
        have eq: "mem_alloc B_OK mem sz tg = Some (?m, B_OK, Some (word_of_nat b + 1, mb_base (mem_heap mem b)))"
          using ff' False un by (simp add: mem_alloc_def Let_def)
        have "coalesced (mem_heap mem) (as @ b # cs)" using co xs by simp
        from split_take_spec [OF t' this nb, where sz = ?sz and tg = tg] eq bn P show ?thesis by blast
      qed
    qed
  qed
qed

section \<open>Initialisation\<close>

lemma link_entries_Suc:
  "1 \<le> n \<Longrightarrow> link_entries (Suc n) h =
     (link_entries n h)(n - 1 := (link_entries n h (n - 1))\<lparr>mb_next := Some n\<rparr>)"
  by (simp add: link_entries_def)

lemma link_entries_eq:
  "link_entries n h i = (if i + 1 < n then (h i)\<lparr>mb_next := Some (i + 1)\<rparr> else h i)"
proof (induction n)
  case 0
  then show ?case by (simp add: link_entries_def)
next
  case (Suc n)
  show ?case
  proof (cases "1 \<le> n")
    case True
    then show ?thesis using Suc by (auto simp: link_entries_Suc)
  next
    case False
    then show ?thesis by (simp add: link_entries_def)
  qed
qed

lemma init_unused_path:
  "(\<And>i. 1 \<le> i \<Longrightarrow> i < n \<Longrightarrow> nx i = (if i + 1 < n then Some (i + 1) else None)) \<Longrightarrow>
   1 \<le> k \<Longrightarrow> k < n \<Longrightarrow> path nx (Some k) [k..<n] None"
proof (induction "n - k" arbitrary: k)
  case 0
  then show ?case by simp
next
  case (Suc d)
  show ?case
  proof (cases "Suc k < n")
    case True
    with Suc have "path nx (Some (Suc k)) [Suc k..<n] None" by simp
    with True Suc.prems show ?thesis by (simp add: upt_rec [of k n])
  next
    case False
    with Suc.prems have "[k..<n] = [k]" by (simp add: upt_rec)
    with False Suc.prems show ?thesis by simp
  qed
qed

lemma heap_area_size_enough:
  assumes "40 * unat entries + 4095 < 2 ^ 32"
  shows "40 * unat entries \<le> unat (heap_area_size entries)"
proof -
  have m: "unat (entries * 40) = 40 * unat entries"
    using assms by (simp add: unat_word_ariths)
  have p: "unat (entries * 40 + 4095) = 40 * unat entries + 4095"
    using assms m by (simp add: unat_word_ariths)
  have "heap_area_size entries = (entries * 40 + 4095) AND NOT (mask 12)"
    by (simp add: heap_area_size_def Let_def mask_eq_exp_minus_1 add.commute)
  then have "unat (heap_area_size entries) = (40 * unat entries + 4095) div 4096 * 4096"
    using p unat_and_not_mask [of "entries * 40 + 4095" 12] by simp
  then show ?thesis by linarith
qed
lemma mem_init_eq:
  assumes "2 \<le> unat entries" and "40 * unat entries + 4095 < 2 ^ 32"
  shows "\<exists>mem. mem_init True True True start len bs entries = Some (Some mem) \<and>
    mem_heap mem = (\<lambda>i. if i = 0 then zero_block\<lparr>mb_base := start, mb_size := len\<rparr>
      else zero_block\<lparr>mb_next := (if i + 1 < unat entries then Some (i + 1) else None)\<rparr>) \<and>
    mem_first mem = Some 0 \<and> mem_unused mem = Some 1 \<and> mem_heap_entries mem = entries \<and>
    mem_block_size mem = bs"
proof -
  have "entries \<noteq> 0" using assms(1) by auto
  then show ?thesis
    using assms heap_area_size_enough [OF assms(2)]
    by (auto simp: mem_init_def Let_def link_entries_eq fun_eq_iff zero_block_def)
qed

lemma mem_init_spec:
  assumes ent: "2 \<le> unat entries" "40 * unat entries + 4095 < 2 ^ 32"
    and range: "unat start + unat len < 2 ^ 32"
  shows "\<exists>mem. mem_init True True True start len bs entries = Some (Some mem) \<and>
    mem_inv (unat start) (unat start + unat len) mem \<and> extents mem = {} \<and>
    mem_heap_entries mem = entries \<and> mem_block_size mem = bs"
proof -
  from mem_init_eq [OF ent] obtain mem where
    eq: "mem_init True True True start len bs entries = Some (Some mem)"
    and hp: "mem_heap mem = (\<lambda>i. if i = 0 then zero_block\<lparr>mb_base := start, mb_size := len\<rparr>
      else zero_block\<lparr>mb_next := (if i + 1 < unat entries then Some (i + 1) else None)\<rparr>)"
    and f: "mem_first mem = Some 0" "mem_unused mem = Some 1" "mem_heap_entries mem = entries"
      "mem_block_size mem = bs" by blast
  have "mem_rep mem [0] [1..<unat entries]"
  proof (rule mem_repI)
    show "path (heap_next mem) (mem_unused mem) [1..<unat entries] None"
      unfolding f(2) using ent by (intro init_unused_path) (auto simp: hp)
  qed (use ent in \<open>auto simp: hp f zero_block_def\<close>)
  then have "tiled (unat start) (unat start + unat len) mem [0] [1..<unat entries]"
    using range by (simp add: tiled_def hp)
  moreover have "extents mem = {}" by (auto simp: extents_def hp zero_block_def)
  ultimately show ?thesis using eq f by (auto intro: mem_invI)
qed

section \<open>The size of an allocation\<close>

lemma round_up_unat:
  assumes "mem_block_size mem = 2 ^ k" and "k < 32"
  shows "unat (round_up mem sz) = (unat sz + (2 ^ k - 1)) mod 2 ^ 32 div 2 ^ k * 2 ^ k"
proof -
  have p: "unat (2 ^ k - 1 :: uint32) = 2 ^ k - 1"
    using assms(2) by (simp add: unat_mask_word)
  have q: "unat (sz + (2 ^ k - 1)) = (unat sz + (2 ^ k - 1)) mod 2 ^ 32"
    using p by (simp add: unat_word_ariths)
  have e: "sz + 2 ^ k - 1 = sz + (2 ^ k - 1 :: uint32)" by simp
  show ?thesis
    unfolding round_up_def assms(1) e
    using q unat_and_not_mask [of "sz + (2 ^ k - 1)" k] by (simp add: mask_eq_exp_minus_1)
qed

lemma extents_disjoint:
  assumes "mem_inv s e mem" and "(i, a, l, t) \<in> extents mem" and "(j, b, k, u) \<in> extents mem" and "i \<noteq> j"
  shows "a + l \<le> b \<or> b + k \<le> a"
proof -
  from assms(1) obtain xs us where t: "tiled s e mem xs us" by (rule mem_invE)
  then have "tiles (mem_heap mem) s xs e" "distinct xs" by (simp_all add: tiled_def mem_rep_def)
  with tiles_disjoint assms(2-4) tiled_allocated_mem [OF t] show ?thesis by (auto simp: extents_iff)
qed

lemma extents_range:
  assumes "mem_inv s e mem" and "(i, a, l, t) \<in> extents mem"
  shows "s \<le> a \<and> a + l \<le> e"
proof -
  from assms(1) obtain xs us where t: "tiled s e mem xs us" by (rule mem_invE)
  then have "tiles (mem_heap mem) s xs e" by (simp add: tiled_def)
  with tiles_member assms(2) tiled_allocated_mem [OF t] show ?thesis by (auto simp: extents_iff)
qed

lemma extents_nil_single:
  assumes "mem_inv s e mem" and "extents mem = {}"
  shows "\<exists>b. mem_first mem = Some b \<and> mb_next (mem_heap mem b) = None \<and>
    unat (mb_base (mem_heap mem b)) = s \<and> unat (mb_size (mem_heap mem b)) = e - s"
proof -
  from assms(1) obtain xs us where t: "tiled s e mem xs us" "xs \<noteq> []" "coalesced (mem_heap mem) xs"
    by (rule mem_invE)
  have free: "\<not> mb_allocated (mem_heap mem x)" if "x \<in> set xs" for x
    using that assms(2) t(1) by (auto simp: extents_def tiled_def mem_rep_def)
  obtain b where "xs = [b]"
  proof (cases xs)
    case Nil
    with t(2) show ?thesis by simp
  next
    case (Cons x ys)
    with t(3) free that show ?thesis by (cases ys) auto
  qed
  with t(1) show ?thesis by (auto simp: tiled_def mem_rep_def)
qed

section \<open>Reachable heaps\<close>

text \<open>Any client call, whatever it passes and whatever the semaphore says.\<close>

inductive mem_step :: "mem_info \<Rightarrow> mem_info \<Rightarrow> bool" where
  alloc: "mem_alloc st mem sz tg = Some (mem', r) \<Longrightarrow> mem_step mem mem'"
| free: "mem_free st mem blockID tg = Some (mem', r) \<Longrightarrow> mem_step mem mem'"
| freetag: "mem_freetag st mem tg = Some (mem', r) \<Longrightarrow> mem_step mem mem'"

inductive mem_reach :: "uint32 \<Rightarrow> uint32 \<Rightarrow> mem_info \<Rightarrow> bool" for start len where
  init: "mem_init True True True start len bs entries = Some (Some mem) \<Longrightarrow>
    2 \<le> unat entries \<Longrightarrow> 40 * unat entries + 4095 < 2 ^ 32 \<Longrightarrow> mem_reach start len mem"
| step: "mem_reach start len mem \<Longrightarrow> mem_step mem mem' \<Longrightarrow> mem_reach start len mem'"

inductive_cases mem_stepE: "mem_step mem mem'"

lemma mem_alloc_inv:
  assumes "mem_inv s e mem"
  shows "\<exists>mem' r. mem_alloc st mem sz tg = Some (mem', r) \<and> mem_inv s e mem'"
  using mem_alloc_spec [OF assms, of sz tg] assms
  by (cases "st = B_OK") (auto simp: mem_alloc_def)

lemma mem_free_inv:
  assumes "mem_inv s e mem"
  shows "\<exists>mem' r. mem_free st mem blockID tg = Some (mem', r) \<and> mem_inv s e mem'"
proof (cases "st = B_OK")
  case True
  then show ?thesis
    using mem_free_ok [OF assms, of blockID tg] mem_free_rejects [of blockID mem tg] assms by blast
qed (use assms in \<open>auto simp: mem_free_def\<close>)

lemma mem_freetag_inv:
  assumes "mem_inv s e mem"
  shows "\<exists>mem' r. mem_freetag st mem tg = Some (mem', r) \<and> mem_inv s e mem'"
  using mem_freetag_spec [OF assms, of tg] assms
  by (cases "st = B_OK") (auto simp: mem_freetag_def)

lemma mem_step_inv: "mem_step mem mem' \<Longrightarrow> mem_inv s e mem \<Longrightarrow> mem_inv s e mem'"
proof (erule mem_stepE)
  fix st sz tg r
  assume "mem_inv s e mem" and "mem_alloc st mem sz tg = Some (mem', r)"
  with mem_alloc_inv [of s e mem st sz tg] show ?thesis by auto
next
  fix st blockID tg r
  assume "mem_inv s e mem" and "mem_free st mem blockID tg = Some (mem', r)"
  with mem_free_inv [of s e mem st blockID tg] show ?thesis by auto
next
  fix st tg r
  assume "mem_inv s e mem" and "mem_freetag st mem tg = Some (mem', r)"
  with mem_freetag_inv [of s e mem st tg] show ?thesis by auto
qed

lemma mem_reach_inv:
  assumes "mem_reach start len mem" and "unat start + unat len < 2 ^ 32"
  shows "mem_inv (unat start) (unat start + unat len) mem"
  using assms
proof (induction rule: mem_reach.induct)
  case (init bs entries mem)
  then show ?case using mem_init_spec [of entries start len bs] by auto
next
  case (step mem mem')
  then show ?case using mem_step_inv by blast
qed

section \<open>Properties\<close>

text \<open>The heap of the examples: sixteen KB from 4096 on, in 4 KB pages, with eight descriptors.\<close>

definition sample_heap :: mem_info where
  "sample_heap = the (the (mem_init True True True 0x1000 0x4000 0x1000 8))"

lemma sample_heap_spec:
  "mem_init True True True 0x1000 0x4000 0x1000 8 = Some (Some sample_heap)"
  "mem_inv 0x1000 0x5000 sample_heap" "extents sample_heap = {}" "mem_heap_entries sample_heap = 8"
  "mem_block_size sample_heap = 0x1000"
  using mem_init_spec [of 8 "0x1000" "0x4000" "0x1000"] by (auto simp: sample_heap_def)

lemma sample_heap_eq:
  "mem_first sample_heap = Some 0" "mem_unused sample_heap = Some 1"
  "mem_heap sample_heap = (\<lambda>i. if i = 0 then zero_block\<lparr>mb_base := 0x1000, mb_size := 0x4000\<rparr>
      else zero_block\<lparr>mb_next := (if i + 1 < 8 then Some (i + 1) else None)\<rparr>)"
  using mem_init_eq [of 8 "0x1000" "0x4000" "0x1000"] by (auto simp: sample_heap_def)

lemma sample_alloc:
  "mem_alloc B_OK sample_heap 5000 7 =
     Some (take_block (split_block sample_heap 0 1 0x2000) 0 7, B_OK, Some (1, 0x1000))"
proof -
  have r: "round_up sample_heap 5000 = 0x2000" by (simp add: round_up_def sample_heap_spec)
  have f: "find_fit sample_heap 0x2000 = Some (Some 0)"
    unfolding find_fit_def by (subst walk.simps) (simp add: sample_heap_eq zero_block_def)
  show ?thesis by (simp add: mem_alloc_def Let_def r f sample_heap_eq zero_block_def)
qed

text \<open>
  C1: On a well-formed heap \<open>mem_alloc\<close> always returns. Either it succeeds, adding exactly one
  extent of the rounded size, inside the managed range, disjoint from all others and under the
  returned block ID, or it fails with \<open>B_NO_MEMORY\<close> and changes nothing, because there is no spare
  descriptor or no free block is large enough.
\<close>

theorem mem_alloc_exact:
  assumes "mem_inv s e mem"
  shows "(\<exists>mem' bid off. mem_alloc B_OK mem sz tg = Some (mem', B_OK, Some (bid, off)) \<and>
        mem_inv s e mem' \<and>
        extents mem' = insert (unat (bid - 1), unat off, unat (round_up mem sz), tg) (extents mem) \<and>
        s \<le> unat off \<and> unat off + unat (round_up mem sz) \<le> e \<and>
        (\<forall>(i, a, l, t) \<in> extents mem. i \<noteq> unat (bid - 1) \<and>
           (a + l \<le> unat off \<or> unat off + unat (round_up mem sz) \<le> a))) \<or>
     (mem_alloc B_OK mem sz tg = Some (mem, B_NO_MEMORY, None) \<and>
        (mem_unused mem = None \<or>
         (\<forall>xs us. mem_rep mem xs us \<longrightarrow>
            (\<forall>b\<in>set xs. \<not> mb_allocated (mem_heap mem b) \<longrightarrow> mb_size (mem_heap mem b) < round_up mem sz))))"
proof -
  consider (fail) "mem_alloc B_OK mem sz tg = Some (mem, B_NO_MEMORY, None)"
      "mem_unused mem = None \<or> (\<forall>xs us. mem_rep mem xs us \<longrightarrow>
        (\<forall>b\<in>set xs. \<not> mb_allocated (mem_heap mem b) \<longrightarrow> mb_size (mem_heap mem b) < round_up mem sz))"
    | (ok) mem' b where "mem_alloc B_OK mem sz tg =
          Some (mem', B_OK, Some (word_of_nat b + 1, mb_base (mem_heap mem b)))"
        "mem_inv s e mem'" "b < unat (mem_heap_entries mem)" "\<not> mb_allocated (mem_heap mem b)"
        "extents mem' = insert (b, unat (mb_base (mem_heap mem b)), unat (round_up mem sz), tg) (extents mem)"
    using mem_alloc_spec [OF assms, of sz tg] by blast
  then show ?thesis
  proof cases
    case ok
    have "b < 2 ^ LENGTH(32)" using ok(3) unat_lt_pow [of "mem_heap_entries mem"] by linarith
    then have id: "unat (word_of_nat b + 1 - 1 :: uint32) = b" by (simp add: unat_of_nat)
    have new: "(b, unat (mb_base (mem_heap mem b)), unat (round_up mem sz), tg) \<in> extents mem'"
      using ok(5) by simp
    have "i \<noteq> b \<and> (a + l \<le> unat (mb_base (mem_heap mem b)) \<or>
        unat (mb_base (mem_heap mem b)) + unat (round_up mem sz) \<le> a)"
      if "(i, a, l, t) \<in> extents mem" for i a l t
      using extents_disjoint [OF ok(2) _ new, of i a l t] that ok(4,5) by (auto simp: extents_iff)
    with ok extents_range [OF ok(2) new] id show ?thesis by fastforce
  qed blast
qed

text \<open>The example allocates 5000 bytes, which takes two pages.\<close>

theorem mem_alloc_exact_witness:
  "\<exists>mem' bid off. mem_alloc B_OK sample_heap 5000 7 = Some (mem', B_OK, Some (bid, off)) \<and>
     extents mem' = {(unat (bid - 1), unat off, 8192, 7)}"
proof -
  have r: "unat (round_up sample_heap 5000) = 8192"
    by (simp add: round_up_def sample_heap_spec)
  show ?thesis
    using mem_alloc_exact [OF sample_heap_spec(2), of 5000 7] r sample_heap_spec(3) sample_alloc
    by auto
qed

text \<open>
  C6: \<open>mem_free\<close> succeeds exactly for the block ID of an extent that the tag owns; it then removes
  that extent and no other and keeps the heap well formed. In every other case (unknown ID, free
  block, foreign owner, double free) it returns \<open>B_BAD_VALUE\<close> and changes nothing.
\<close>

theorem mem_free_exact:
  assumes "mem_inv s e mem"
  shows "\<exists>mem' r. mem_free B_OK mem blockID tg = Some (mem', r) \<and> mem_inv s e mem' \<and>
    (if \<exists>a l. (unat (blockID - 1), a, l, tg) \<in> extents mem
     then r = B_OK \<and> extents mem' = {x \<in> extents mem. fst x \<noteq> unat (blockID - 1)} \<and>
       mem_free B_OK mem' blockID tg = Some (mem', B_BAD_VALUE)
     else r = B_BAD_VALUE \<and> mem' = mem)"
proof (cases "blockID - 1 < mem_heap_entries mem \<and> mb_allocated (mem_heap mem (unat (blockID - 1))) \<and>
     mb_tag (mem_heap mem (unat (blockID - 1))) = tg")
  case True
  then have "\<exists>a l. (unat (blockID - 1), a, l, tg) \<in> extents mem"
    by (auto simp: extents_iff word_less_unat)
  moreover from mem_free_ok [OF assms] True obtain mem' where m:
    "mem_free B_OK mem blockID tg = Some (mem', B_OK)" "mem_inv s e mem'"
    "extents mem' = {x \<in> extents mem. fst x \<noteq> unat (blockID - 1)}"
    "\<not> mb_allocated (mem_heap mem' (unat (blockID - 1)))" by blast
  moreover have "mem_free B_OK mem' blockID tg = Some (mem', B_BAD_VALUE)"
    using m(4) by (intro mem_free_rejects) simp
  ultimately show ?thesis by simp
next
  case False
  then have "\<not> (\<exists>a l. (unat (blockID - 1), a, l, tg) \<in> extents mem)"
    by (auto simp: extents_iff word_less_unat)
  with mem_free_rejects [OF False] assms show ?thesis by simp
qed

theorem mem_free_exact_witness:
  "\<exists>mem'. mem_free B_OK sample_heap 3 7 = Some (mem', B_BAD_VALUE) \<and> mem' = sample_heap"
  using mem_free_exact [OF sample_heap_spec(2), of 3 7] sample_heap_spec(3) by auto

text \<open>
  C8: \<open>mem_freetag\<close> always returns, and it frees exactly the extents of the owner: the loop visits
  every block although freeing merges the block it stands on with its neighbours.
\<close>

theorem mem_freetag_exact:
  assumes "mem_inv s e mem"
  shows "\<exists>mem'. mem_freetag B_OK mem tg = Some (mem', B_OK) \<and> mem_inv s e mem' \<and>
     extents mem' = {(i, a, l, t) \<in> extents mem. t \<noteq> tg}"
proof -
  have "{x \<in> extents mem. snd (snd (snd x)) \<noteq> tg} = {(i, a, l, t) \<in> extents mem. t \<noteq> tg}"
    by (auto split: prod.splits)
  with mem_freetag_spec [OF assms, of tg] show ?thesis by auto
qed

theorem mem_freetag_exact_witness:
  "\<exists>mem'. mem_freetag B_OK (fst (the (mem_alloc B_OK sample_heap 5000 7))) 7 = Some (mem', B_OK) \<and>
     extents mem' = {}"
proof -
  let ?m = "fst (the (mem_alloc B_OK sample_heap 5000 7))"
  have i: "mem_inv 0x1000 0x5000 ?m"
    using mem_alloc_inv [OF sample_heap_spec(2), of B_OK 5000 7] by auto
  have "\<forall>(i, a, l, t) \<in> extents ?m. t = 7"
    by (auto simp: sample_alloc extents_iff take_block_def split_block_def sample_heap_eq
        zero_block_def Let_def split: if_splits)
  with mem_freetag_exact [OF i, of 7] show ?thesis by auto
qed

text \<open>
  C7: Whatever sequence of calls clients make after \<open>mem_init\<close>, with whatever arguments, the heap
  stays well formed: no call crashes or loops, no two extents overlap, all lie in the managed
  range, and when none is left the heap has grown back to one free block of the whole range.
\<close>

theorem mem_reach_safe:
  assumes "mem_reach start len mem" and "unat start + unat len < 2 ^ 32"
  shows "mem_alloc st mem sz tg \<noteq> None \<and> mem_free st mem blockID tg \<noteq> None \<and>
    mem_freetag st mem tg \<noteq> None \<and>
    (\<forall>(i, a, l, t) \<in> extents mem. unat start \<le> a \<and> a + l \<le> unat start + unat len \<and>
       (\<forall>(j, b, k, u) \<in> extents mem. i \<noteq> j \<longrightarrow> a + l \<le> b \<or> b + k \<le> a)) \<and>
    (extents mem = {} \<longrightarrow> (\<exists>b. mem_first mem = Some b \<and> mb_next (mem_heap mem b) = None \<and>
       mb_base (mem_heap mem b) = start \<and> mb_size (mem_heap mem b) = len))"
proof -
  note inv = mem_reach_inv [OF assms]
  have "mem_alloc st mem sz tg \<noteq> None" "mem_free st mem blockID tg \<noteq> None"
    "mem_freetag st mem tg \<noteq> None"
    using mem_alloc_inv [OF inv, of st sz tg] mem_free_inv [OF inv, of st blockID tg]
      mem_freetag_inv [OF inv, of st tg] by auto
  moreover have "\<forall>(i, a, l, t) \<in> extents mem. unat start \<le> a \<and> a + l \<le> unat start + unat len \<and>
       (\<forall>(j, b, k, u) \<in> extents mem. i \<noteq> j \<longrightarrow> a + l \<le> b \<or> b + k \<le> a)"
    using extents_range [OF inv] extents_disjoint [OF inv] by blast
  moreover have "extents mem = {} \<longrightarrow> (\<exists>b. mem_first mem = Some b \<and> mb_next (mem_heap mem b) = None \<and>
       mb_base (mem_heap mem b) = start \<and> mb_size (mem_heap mem b) = len)"
    using extents_nil_single [OF inv] by (auto simp: word_unat_eq_iff)
  ultimately show ?thesis by blast
qed

theorem mem_reach_safe_witness:
  "mem_reach 0x1000 0x4000 sample_heap \<and>
   (\<exists>b. mem_first sample_heap = Some b \<and> mb_size (mem_heap sample_heap b) = 0x4000)"
proof -
  have r: "mem_reach 0x1000 0x4000 sample_heap"
    by (rule mem_reach.init [OF sample_heap_spec(1)]) simp_all
  with mem_reach_safe [OF r, of B_OK 0 0 0] sample_heap_spec(3) show ?thesis by auto
qed

text \<open>
  C16: For a power of two as block size, the size of an allocation is the smallest multiple of the
  block size that holds the request, as long as the 32-bit sum does not wrap. A request within one
  block size of 4 GB wraps to the size 0, and \<open>mem_alloc\<close> then reports success for an empty extent.
\<close>

theorem round_up_spec:
  assumes "mem_block_size mem = 2 ^ k" and "k < 32"
  shows "(unat sz + 2 ^ k - 1 < 2 ^ 32 \<longrightarrow>
      2 ^ k dvd unat (round_up mem sz) \<and> unat sz \<le> unat (round_up mem sz) \<and>
      unat (round_up mem sz) < unat sz + 2 ^ k) \<and>
    (2 ^ 32 \<le> unat sz + 2 ^ k - 1 \<longrightarrow> round_up mem sz = 0)"
proof (intro conjI impI)
  let ?n = "unat sz + 2 ^ k - 1"
  have pos: "(0::nat) < 2 ^ k" by simp
  then have n: "unat sz + (2 ^ k - 1) = ?n" by linarith
  note eq = round_up_unat [OF assms, of sz, unfolded n]
  {
    assume "?n < 2 ^ 32"
    then have u: "unat (round_up mem sz) = ?n div 2 ^ k * 2 ^ k" using eq by simp
    have "?n div 2 ^ k * 2 ^ k + ?n mod 2 ^ k = ?n" "?n mod 2 ^ k < 2 ^ k"
      by (rule div_mult_mod_eq, simp)
    with u show "2 ^ k dvd unat (round_up mem sz)" "unat sz \<le> unat (round_up mem sz)"
      "unat (round_up mem sz) < unat sz + 2 ^ k"
      by (simp, linarith, linarith)
  next
    assume ge: "2 ^ 32 \<le> ?n"
    have lt: "unat sz < 2 ^ 32" using unat_lt_pow [of sz] by simp
    have "2 ^ k < (2::nat) ^ 32" using assms(2) by (intro power_strict_increasing) simp_all
    then have "?n mod 2 ^ 32 = ?n - 2 ^ 32" using ge lt by (simp add: mod_if)
    then have "?n mod 2 ^ 32 < 2 ^ k" using lt pos by linarith
    with eq have "unat (round_up mem sz) = 0" by simp
    then show "round_up mem sz = 0" by (simp add: unsigned_eq_0_iff)
  }
qed

theorem round_up_spec_witness:
  "unat (round_up sample_heap 5000) < 5000 + 2 ^ 12 \<and> round_up sample_heap 0xFFFFF001 = 0"
proof -
  have "mem_block_size sample_heap = 2 ^ 12" by (simp add: sample_heap_spec)
  from round_up_spec [OF this, of 5000] round_up_spec [OF this, of "0xFFFFF001"] show ?thesis by simp
qed

end
