(* ===== verification/StrToInt.thy ===== *)
theory StrToInt
  imports Prelude
begin

text \<open>
  \<^verbatim>\<open>src/system/kernel/lib/strtol.c\<close>, \<^verbatim>\<open>strtoul.c\<close>, \<^verbatim>\<open>strtoll.c\<close> and \<^verbatim>\<open>strtoull.c\<close>. The four functions
  share their scanner, which is written once here.

  A \<^verbatim>\<open>char *\<close> is the list of the characters from it to the end of its buffer, the terminating
  NUL included; reading past that end is \<open>None\<close>. \<^verbatim>\<open>*endptr\<close> is returned as an offset from
  \<^verbatim>\<open>nptr\<close>, \<open>errno\<close> as the status the function sets. \<^verbatim>\<open>long\<close> has the width \<open>'l\<close>, so that both
  data models are covered, and \<^verbatim>\<open>long long\<close> has 64 bits.
\<close>

section \<open>Characters\<close>

abbreviation ord :: "char \<Rightarrow> nat" where "ord c \<equiv> of_char c"

definition NUL :: char where "NUL = CHR 0x00"

definition isspace :: "char \<Rightarrow> bool" where
  "isspace c \<longleftrightarrow> c = CHR '' '' \<or> 9 \<le> ord c \<and> ord c \<le> 13"

definition isdigit :: "char \<Rightarrow> bool" where
  "isdigit c \<longleftrightarrow> ord (CHR ''0'') \<le> ord c \<and> ord c \<le> ord (CHR ''9'')"

definition is_hexdigit :: "char \<Rightarrow> bool" where
  "is_hexdigit c \<longleftrightarrow> isdigit c \<or> ord (CHR ''A'') \<le> ord c \<and> ord c \<le> ord (CHR ''F'') \<or>
     ord (CHR ''a'') \<le> ord c \<and> ord c \<le> ord (CHR ''f'')"

definition digit_of :: "char \<Rightarrow> nat option" where
  "digit_of c =
     (if ord (CHR ''0'') \<le> ord c \<and> ord c \<le> ord (CHR ''9'') then Some (ord c - ord (CHR ''0''))
      else if ord (CHR ''A'') \<le> ord c \<and> ord c \<le> ord (CHR ''Z'') then Some (ord c - (ord (CHR ''A'') - 10))
      else if ord (CHR ''a'') \<le> ord c \<and> ord c \<le> ord (CHR ''z'') then Some (ord c - (ord (CHR ''a'') - 10))
      else None)"

section \<open>The scanner\<close>

text \<open>\<^verbatim>\<open>c = *s++\<close>\<close>

fun fetch :: "string \<Rightarrow> (char \<times> string) option" where
  "fetch [] = None"
| "fetch (c # s) = Some (c, s)"

fun skip_space :: "string \<Rightarrow> (char \<times> string) option" where
  "skip_space [] = None"
| "skip_space (c # s) = (if isspace c then skip_space s else Some (c, s))"

definition scan_sign :: "char \<Rightarrow> string \<Rightarrow> (bool \<times> char \<times> string) option" where
  "scan_sign c s =
     (if c = CHR ''-'' then map_option (\<lambda>(c, s). (True, c, s)) (fetch s)
      else if c = CHR ''+'' then map_option (\<lambda>(c, s). (False, c, s)) (fetch s)
      else Some (False, c, s))"

text \<open>
  A radix prefix is taken only when a digit of the radix follows it. The tests are evaluated
  from left to right, so \<^verbatim>\<open>s[1]\<close> is read only after \<^verbatim>\<open>*s\<close> was the letter.
\<close>

definition scan_prefix ::
    "int \<Rightarrow> char set \<Rightarrow> (char \<Rightarrow> bool) \<Rightarrow> int \<Rightarrow> char \<Rightarrow> string \<Rightarrow> (int \<times> char \<times> string) option" where
  "scan_prefix radix letters dig base c s =
     (if (base = 0 \<or> base = radix) \<and> c = CHR ''0'' then
        (case s of
           [] \<Rightarrow> None
         | x # s1 \<Rightarrow>
             if x \<in> letters then
               (case s1 of
                  [] \<Rightarrow> None
                | d # s2 \<Rightarrow> if dig d then Some (radix, d, s2) else Some (base, c, s))
             else Some (base, c, s))
      else Some (base, c, s))"

definition scan_hex :: "int \<Rightarrow> char \<Rightarrow> string \<Rightarrow> (int \<times> char \<times> string) option" where
  "scan_hex = scan_prefix 16 {CHR ''x'', CHR ''X''} is_hexdigit"

definition scan_bin :: "int \<Rightarrow> char \<Rightarrow> string \<Rightarrow> (int \<times> char \<times> string) option" where
  "scan_bin = scan_prefix 2 {CHR ''b'', CHR ''B''} (\<lambda>d. d = CHR ''0'' \<or> d = CHR ''1'')"

definition default_base :: "int \<Rightarrow> char \<Rightarrow> int" where
  "default_base base c = (if base = 0 then if c = CHR ''0'' then 8 else 10 else base)"

definition scan_head :: "string \<Rightarrow> int \<Rightarrow> (bool \<times> int \<times> char \<times> string) option" where
  "scan_head nptr base =
     Option.bind (skip_space nptr) (\<lambda>(c, s).
     Option.bind (scan_sign c s) (\<lambda>(neg, c, s).
     Option.bind (scan_hex base c s) (\<lambda>(base, c, s).
     map_option (\<lambda>(base, c, s). (neg, default_base base c, c, s)) (scan_bin base c s))))"

text \<open>The loop over the digits; it returns \<open>any\<close>, \<open>acc\<close> and \<open>s\<close>, which is behind the stopping character.\<close>

fun scan_digits ::
    "nat \<Rightarrow> 'l::len word \<Rightarrow> nat \<Rightarrow> char \<Rightarrow> string \<Rightarrow> int \<Rightarrow> 'l word \<Rightarrow> (int \<times> 'l word \<times> string) option" where
  "scan_digits base cutoff cutlim c s anyd acc =
     (case digit_of c of
        None \<Rightarrow> Some (anyd, acc, s)
      | Some d \<Rightarrow>
          if d \<ge> base then Some (anyd, acc, s)
          else
            (let (anyd', acc') =
               (if anyd < 0 \<or> acc > cutoff \<or> (acc = cutoff \<and> d > cutlim) then (- 1, acc)
                else (1, acc * of_nat base + of_nat d))
             in case s of [] \<Rightarrow> None | c' # s' \<Rightarrow> scan_digits base cutoff cutlim c' s' anyd' acc'))"

declare scan_digits.simps [simp del]

section \<open>The four functions\<close>

definition LONG_MAX :: "'l::len word" where "LONG_MAX = mask (LENGTH('l) - 1)"
definition LONG_MIN :: "'l::len word" where "LONG_MIN = push_bit (LENGTH('l) - 1) 1"
definition ULONG_MAX :: "'l::len word" where "ULONG_MAX = - 1"

definition end_offset :: "string \<Rightarrow> int \<Rightarrow> string \<Rightarrow> nat" where
  "end_offset nptr anyd s = (if anyd \<noteq> 0 then length nptr - length s - 1 else 0)"

definition strtol :: "string \<Rightarrow> int \<Rightarrow> ('l::len word \<times> status_t option \<times> nat) option" where
  "strtol nptr base0 =
     Option.bind (scan_head nptr base0) (\<lambda>(neg, base, c, s).
       if base < 2 \<or> base > 36 then Some (0, Some EINVAL, end_offset nptr 0 s)
       else
         (let limit = (if neg then - (LONG_MIN + LONG_MAX) + LONG_MAX else LONG_MAX :: 'l word);
              cutlim = unat (limit mod of_int base);
              cutoff = limit div of_int base
          in map_option (\<lambda>(anyd, acc, s).
               if anyd < 0 then (if neg then LONG_MIN else LONG_MAX, Some ERANGE, end_offset nptr anyd s)
               else if anyd = 0 then (acc, Some EINVAL, end_offset nptr anyd s)
               else (if neg then - acc else acc, None, end_offset nptr anyd s))
             (scan_digits (nat base) cutoff cutlim c s 0 0)))"

definition strtoul :: "string \<Rightarrow> int \<Rightarrow> ('l::len word \<times> status_t option \<times> nat) option" where
  "strtoul nptr base0 =
     Option.bind (scan_head nptr base0) (\<lambda>(neg, base, c, s).
       if base < 2 \<or> base > 36 then Some (0, Some EINVAL, end_offset nptr 0 s)
       else
         (let cutoff = (ULONG_MAX :: 'l word) div of_int base;
              cutlim = unat ((ULONG_MAX :: 'l word) mod of_int base)
          in map_option (\<lambda>(anyd, acc, s).
               if anyd < 0 then (ULONG_MAX, Some ERANGE, end_offset nptr anyd s)
               else if anyd = 0 then (acc, Some EINVAL, end_offset nptr anyd s)
               else (if neg then - acc else acc, None, end_offset nptr anyd s))
             (scan_digits (nat base) cutoff cutlim c s 0 0)))"

definition strtoll :: "string \<Rightarrow> int \<Rightarrow> (uint64 \<times> status_t option \<times> nat) option" where
  "strtoll nptr base0 =
     Option.bind (scan_head nptr base0) (\<lambda>(neg, base, c, s).
       if base < 2 \<or> base > 36 then Some (0, Some EINVAL, end_offset nptr 0 s)
       else
         (let limit = (if neg then - (LONG_MIN + LONG_MAX) + LONG_MAX else LONG_MAX :: uint64);
              cutlim = unat (limit mod of_int base);
              cutoff = limit div of_int base
          in map_option (\<lambda>(anyd, acc, s).
               if anyd < 0 then (if neg then LONG_MIN else LONG_MAX, Some ERANGE, end_offset nptr anyd s)
               else if anyd = 0 then (acc, Some EINVAL, end_offset nptr anyd s)
               else (if neg then - acc else acc, None, end_offset nptr anyd s))
             (scan_digits (nat base) cutoff cutlim c s 0 0)))"

definition strtoull :: "string \<Rightarrow> int \<Rightarrow> (uint64 \<times> status_t option \<times> nat) option" where
  "strtoull nptr base0 =
     Option.bind (scan_head nptr base0) (\<lambda>(neg, base, c, s).
       if base < 2 \<or> base > 36 then Some (0, Some EINVAL, end_offset nptr 0 s)
       else
         (let cutoff = (ULONG_MAX :: uint64) div of_int base;
              cutlim = unat ((ULONG_MAX :: uint64) mod of_int base)
          in map_option (\<lambda>(anyd, acc, s).
               if anyd < 0 then (ULONG_MAX, Some ERANGE, end_offset nptr anyd s)
               else if anyd = 0 then (acc, Some EINVAL, end_offset nptr anyd s)
               else (if neg then - acc else acc, None, end_offset nptr anyd s))
             (scan_digits (nat base) cutoff cutlim c s 0 0)))"

section \<open>The digit loop\<close>

definition digits_value :: "nat \<Rightarrow> nat list \<Rightarrow> nat \<Rightarrow> nat" where
  "digits_value base ds a = foldl (\<lambda>a d. a * base + d) a ds"

lemma digits_value_simps [simp]:
  "digits_value base [] a = a" "digits_value base (d # ds) a = digits_value base ds (a * base + d)"
  by (simp_all add: digits_value_def)

lemma digits_value_mono: "0 < base \<Longrightarrow> a \<le> digits_value base ds a"
proof (induction ds arbitrary: a)
  case (Cons d ds)
  have "a \<le> a * base + d" using Cons.prems by (cases base) auto
  also have "\<dots> \<le> digits_value base ds (a * base + d)" using Cons by blast
  finally show ?case by simp
qed simp

text \<open>The overflow test of the loop is exact.\<close>

lemma cutoff_exact:
  assumes "(d::nat) < b"
  shows "a > m div b \<or> (a = m div b \<and> d > m mod b) \<longleftrightarrow> a * b + d > m"
proof -
  have m: "m = m div b * b + m mod b" by simp
  consider "a < m div b" | "a = m div b" | "a > m div b" by linarith
  then show ?thesis
  proof cases
    case 1
    then have "a * b + b \<le> m div b * b" by (metis Suc_leI mult_Suc mult_le_mono1 add.commute)
    then have "a * b + d \<le> m" using assms m by linarith
    with 1 show ?thesis by simp
  next
    case 2
    have "d > m mod b \<longleftrightarrow> m div b * b + d > m" using m by (intro iffI; linarith)
    with 2 show ?thesis by simp
  next
    case 3
    then have "m div b * b + b \<le> a * b" by (metis Suc_leI mult_Suc mult_le_mono1 add.commute)
    moreover have "m mod b < b" using assms by simp
    ultimately have "m < a * b + d" using m by linarith
    with 3 show ?thesis by simp
  qed
qed

definition stops :: "nat \<Rightarrow> char \<Rightarrow> bool" where
  "stops base c \<longleftrightarrow> (case digit_of c of None \<Rightarrow> True | Some d \<Rightarrow> base \<le> d)"

text \<open>
  On a run of digits that a non-digit ends, the loop returns their value if it is at most the
  limit and the mark of an overflow otherwise, and it stops behind the non-digit.
\<close>

lemma scan_digits_step:
  "digit_of c = Some d \<Longrightarrow> d < base \<Longrightarrow>
   scan_digits base cutoff cutlim c (c' # s') anyd acc =
     (if anyd < 0 \<or> acc > cutoff \<or> (acc = cutoff \<and> d > cutlim)
      then scan_digits base cutoff cutlim c' s' (- 1) acc
      else scan_digits base cutoff cutlim c' s' 1 (acc * of_nat base + of_nat d))"
  by (subst scan_digits.simps) auto

lemma scan_digits_overflowed:
  assumes "map digit_of cs = map Some ds" and "\<forall>d\<in>set ds. d < base" and "stops base t"
    and "(c # s) = cs @ t # rest" and "anyd < 0"
  shows "\<exists>k acc'. scan_digits base cutoff cutlim c s anyd acc = Some (k, acc', rest) \<and> k < 0"
  using assms
proof (induction cs arbitrary: ds c s acc anyd)
  case Nil
  then show ?case by (auto simp: scan_digits.simps stops_def split: option.splits)
next
  case (Cons x xs)
  from Cons.prems obtain d ds' where ds: "ds = d # ds'" "digit_of x = Some d" "map digit_of xs = map Some ds'"
    by (cases ds) auto
  from Cons.prems have c: "c = x" "s = xs @ t # rest" by auto
  then obtain c' s' where s: "s = c' # s'" by (cases xs) auto
  have "\<exists>k acc'. scan_digits base cutoff cutlim c' s' (- 1) acc = Some (k, acc', rest) \<and> k < 0"
    using Cons.IH [of ds' c' s' "- 1" acc] Cons.prems ds c s by auto
  moreover have "d < base" using Cons.prems(2) ds by simp
  ultimately show ?case
    using Cons.prems(5) ds(2) unfolding s c(1) by (simp add: scan_digits_step)
qed

lemma scan_digits_value:
  fixes cutoff :: "'l::len word"
  assumes "map digit_of cs = map Some ds" and "\<forall>d\<in>set ds. d < base" and "stops base t"
    and "(c # s) = cs @ t # rest" and "0 < base" and "m < 2 ^ LENGTH('l)"
    and "unat cutoff = m div base" and "cutlim = m mod base" and "a \<le> m"
    and "0 \<le> anyd"
  shows "\<exists>k acc'. scan_digits base cutoff cutlim c s anyd (of_nat a) = Some (k, acc', rest) \<and>
    (if digits_value base ds a \<le> m
     then acc' = of_nat (digits_value base ds a) \<and> k = (if ds = [] then anyd else 1)
     else k < 0)"
  using assms
proof (induction cs arbitrary: ds c s a anyd)
  case Nil
  then show ?case by (auto simp: scan_digits.simps stops_def split: option.splits)
next
  case (Cons x xs)
  from Cons.prems obtain d ds' where ds: "ds = d # ds'" "digit_of x = Some d" "map digit_of xs = map Some ds'"
    by (cases ds) auto
  from Cons.prems have c: "c = x" "s = xs @ t # rest" by auto
  then obtain c' s' where s: "s = c' # s'" by (cases xs) auto
  have d: "d < base" using Cons.prems ds by simp
  have ua: "unat (of_nat a :: 'l word) = a" using Cons.prems by (simp add: unat_of_nat)
  have over: "of_nat a > cutoff \<or> (of_nat a = cutoff \<and> d > cutlim) \<longleftrightarrow> a * base + d > m"
    using cutoff_exact [OF d, of m a] Cons.prems ua by (auto simp: word_less_unat word_unat_eq_iff)
  show ?case
  proof (cases "a * base + d > m")
    case True
    then have "digits_value base ds a > m"
      using digits_value_mono [of base "a * base + d" ds'] Cons.prems ds by simp
    moreover have "\<exists>k acc'. scan_digits base cutoff cutlim c' s' (- 1) (of_nat a) = Some (k, acc', rest) \<and> k < 0"
      using scan_digits_overflowed [of xs ds' base t c' s' rest "- 1"] Cons.prems ds c s by auto
    ultimately show ?thesis
      using True over ds d c(1) s by (simp add: scan_digits_step)
  next
    case False
    have "scan_digits base cutoff cutlim c s anyd (of_nat a) =
        scan_digits base cutoff cutlim c' s' 1 (of_nat (a * base + d))"
      using False over ds d c(1) s Cons.prems(10) by (auto simp: scan_digits_step)
    moreover obtain k acc' where
      "scan_digits base cutoff cutlim c' s' 1 (of_nat (a * base + d)) = Some (k, acc', rest)"
      "if digits_value base ds' (a * base + d) \<le> m
       then acc' = of_nat (digits_value base ds' (a * base + d)) \<and> k = 1 else k < 0"
      using Cons.IH [of ds' c' s' "a * base + d" 1] False Cons.prems ds c s by auto
    ultimately show ?thesis
      using ds(1) by (intro exI [of _ k] exI [of _ acc']) simp
  qed
qed

section \<open>The head of a numeral\<close>

lemma digit_of_nospace: "digit_of c = Some d \<Longrightarrow> \<not> isspace c \<and> c \<noteq> CHR ''-'' \<and> c \<noteq> CHR ''+'' \<and> c \<noteq> NUL"
  by (auto simp: digit_of_def isspace_def NUL_def split: if_splits)

lemma digit_of_hex: "digit_of c = Some d \<Longrightarrow> d < 16 \<Longrightarrow> is_hexdigit c"
  by (auto simp: digit_of_def is_hexdigit_def isdigit_def split: if_splits)

lemma digit_of_bin: "digit_of c = Some d \<Longrightarrow> d < 2 \<Longrightarrow> c = CHR ''0'' \<or> c = CHR ''1''"
proof -
  assume "digit_of c = Some d" "d < 2"
  then have "ord c = 48 \<or> ord c = 49" by (auto simp: digit_of_def split: if_splits)
  then show ?thesis
    using of_char_eq_iff [of c "CHR ''0''", where 'a = nat] of_char_eq_iff [of c "CHR ''1''", where 'a = nat]
    by auto
qed

definition sign_text :: "bool \<Rightarrow> string \<Rightarrow> bool" where
  "sign_text neg sg \<longleftrightarrow> (if neg then sg = ''-'' else sg = [] \<or> sg = ''+'')"

definition prefixed :: "int \<Rightarrow> string \<Rightarrow> bool" where
  "prefixed base s \<longleftrightarrow> (\<exists>x d s'. s = CHR ''0'' # x # d # s' \<and>
     ((base = 0 \<or> base = 16) \<and> x \<in> {CHR ''x'', CHR ''X''} \<and> is_hexdigit d \<or>
      (base = 0 \<or> base = 2) \<and> x \<in> {CHR ''b'', CHR ''B''} \<and> (d = CHR ''0'' \<or> d = CHR ''1'')))"

definition radix_text :: "int \<Rightarrow> string \<Rightarrow> nat \<Rightarrow> string \<Rightarrow> bool" where
  "radix_text base pfx b s \<longleftrightarrow>
     (base = 0 \<or> base = 16) \<and> pfx \<in> {''0x'', ''0X''} \<and> b = 16 \<or>
     (base = 0 \<or> base = 2) \<and> pfx \<in> {''0b'', ''0B''} \<and> b = 2 \<or>
     pfx = [] \<and> \<not> prefixed base s \<and> 2 \<le> b \<and> b \<le> 36 \<and>
       (base = int b \<or> base = 0 \<and> b = (if hd s = CHR ''0'' then 8 else 10))"

text \<open>
  \<open>numeral_text base neg b cs ds t rest s k\<close>: the string \<open>s\<close> is white space, a sign, a radix prefix,
  the digits \<open>cs\<close> with values \<open>ds\<close> below the effective base \<open>b\<close>, which end at offset \<open>k\<close>, a
  character that is no digit, and a rest; it is terminated.
\<close>

definition numeral_text ::
    "int \<Rightarrow> bool \<Rightarrow> nat \<Rightarrow> string \<Rightarrow> nat list \<Rightarrow> char \<Rightarrow> string \<Rightarrow> string \<Rightarrow> nat \<Rightarrow> bool" where
  "numeral_text base neg b cs ds t rest s k \<longleftrightarrow>
     (\<exists>ws sg pfx. s = ws @ sg @ pfx @ cs @ t # rest \<and> (\<forall>c\<in>set ws. isspace c) \<and> sign_text neg sg \<and>
        radix_text base pfx b (cs @ t # rest) \<and> k = length (ws @ sg @ pfx @ cs)) \<and>
     cs \<noteq> [] \<and> map digit_of cs = map Some ds \<and> (\<forall>d\<in>set ds. d < b) \<and> stops b t \<and> NUL \<in> set (t # rest)"

lemma skip_space_append:
  "\<forall>c\<in>set ws. isspace c \<Longrightarrow> \<not> isspace c \<Longrightarrow> skip_space (ws @ c # s) = Some (c, s)"
  by (induction ws) auto

lemma scan_prefix_none:
  assumes "base = 0 \<or> base = radix \<Longrightarrow> c = CHR ''0'' \<Longrightarrow> x \<in> letters \<Longrightarrow> \<exists>d s2. s1 = d # s2 \<and> \<not> dig d"
  shows "scan_prefix radix letters dig base c (x # s1) = Some (base, c, x # s1)"
  using assms by (auto simp: scan_prefix_def split: list.splits)

lemma scan_radix:
  assumes r: "radix_text base pfx b (c # s)" and d: "digit_of c = Some d" "d < b"
    and nul: "NUL \<in> set s" and p: "p # ps = pfx @ c # s"
  shows "Option.bind (scan_hex base p ps) (\<lambda>(base, c, s).
     map_option (\<lambda>(base, c, s). (neg, default_base base c, c, s)) (scan_bin base c s)) =
     Some (neg, int b, c, s)"
proof -
  consider (hex) "base = 0 \<or> base = 16" "pfx = ''0x'' \<or> pfx = ''0X''" "b = 16"
    | (bin) "base = 0 \<or> base = 2" "pfx = ''0b'' \<or> pfx = ''0B''" "b = 2"
    | (plain) "pfx = []" "\<not> prefixed base (c # s)" "2 \<le> b"
        "base = int b \<or> base = 0 \<and> b = (if c = CHR ''0'' then 8 else 10)"
    using r by (auto simp: radix_text_def)
  then show ?thesis
  proof cases
    case hex
    then obtain x where x: "pfx = [CHR ''0'', x]" "x \<in> {CHR ''x'', CHR ''X''}" by auto
    with p have ps: "p = CHR ''0''" "ps = x # c # s" by auto
    have "is_hexdigit c" using digit_of_hex d hex(3) by simp
    then have "scan_hex base p ps = Some (16, c, s)"
      using hex(1) x(2) ps by (simp add: scan_hex_def scan_prefix_def)
    moreover have "scan_bin 16 c s = Some (16, c, s)" by (simp add: scan_bin_def scan_prefix_def)
    ultimately show ?thesis using hex(3) by (simp add: default_base_def)
  next
    case bin
    then obtain x where x: "pfx = [CHR ''0'', x]" "x \<in> {CHR ''b'', CHR ''B''}" by auto
    with p have ps: "p = CHR ''0''" "ps = x # c # s" by auto
    have "scan_hex base p ps = Some (base, p, ps)"
      using bin(1) x(2) ps by (auto simp: scan_hex_def scan_prefix_def)
    moreover have "c = CHR ''0'' \<or> c = CHR ''1''" using digit_of_bin d bin(3) by simp
    then have "scan_bin base p ps = Some (2, c, s)"
      using bin(1) x(2) ps by (simp add: scan_bin_def scan_prefix_def)
    ultimately show ?thesis using bin(3) by (simp add: default_base_def)
  next
    case plain
    from p plain(1) have ps: "p = c" "ps = s" by simp_all
    obtain x s1 where s: "s = x # s1" using nul by (cases s) auto
    have tl: "\<exists>d s2. s1 = d # s2" if "x \<in> {CHR ''x'', CHR ''X'', CHR ''b'', CHR ''B''}"
      using nul that s by (cases s1) (auto simp: NUL_def)
    have hex: "scan_hex base c s = Some (base, c, s)"
      unfolding scan_hex_def s by (rule scan_prefix_none) (use plain(2) tl s in \<open>auto simp: prefixed_def\<close>)
    have bin: "scan_bin base c s = Some (base, c, s)"
      unfolding scan_bin_def s by (rule scan_prefix_none) (use plain(2) tl s in \<open>auto simp: prefixed_def\<close>)
    from plain(3,4) have "default_base base c = int b" by (auto simp: default_base_def)
    with ps hex bin show ?thesis by simp
  qed
qed

lemma scan_head_text:
  assumes "numeral_text base neg b cs ds t rest s k"
  shows "scan_head s base = Some (neg, int b, hd cs, tl cs @ t # rest) \<and> k + length rest + 1 = length s"
proof -
  from assms obtain ws sg pfx where s: "s = ws @ sg @ pfx @ cs @ t # rest" and ws: "\<forall>c\<in>set ws. isspace c"
    and sg: "sign_text neg sg" and r: "radix_text base pfx b (cs @ t # rest)"
    and k: "k = length (ws @ sg @ pfx @ cs)"
    and cs: "cs \<noteq> []" "map digit_of cs = map Some ds" "\<forall>d\<in>set ds. d < b" "NUL \<in> set (t # rest)"
    by (auto simp: numeral_text_def)
  from cs obtain c cs' d ds' where c: "cs = c # cs'" "ds = d # ds'" "digit_of c = Some d" "d < b"
    by (cases cs; cases ds) auto
  define y where "y = pfx @ cs @ t # rest"
  obtain p ps where y: "y = p # ps" using c by (cases y) (auto simp: y_def)
  have p: "\<not> isspace p" "p \<noteq> CHR ''-''" "p \<noteq> CHR ''+''"
    using y r c digit_of_nospace [of c d] by (auto simp: y_def radix_text_def isspace_def)
  have rad: "Option.bind (scan_hex base p ps) (\<lambda>(base, c, s).
     map_option (\<lambda>(base, c, s). (neg, default_base base c, c, s)) (scan_bin base c s)) =
     Some (neg, int b, c, cs' @ t # rest)"
    using r c cs(4) y by (intro scan_radix [of base pfx b c "cs' @ t # rest" d p ps neg]) (auto simp: y_def)
  have "scan_head s base = Some (neg, int b, c, cs' @ t # rest)"
  proof (cases "sg = []")
    case True
    then have "skip_space s = Some (p, ps)" "\<not> neg"
      using skip_space_append [OF ws p(1), of ps] s y sg by (auto simp: y_def sign_text_def split: if_splits)
    with rad p show ?thesis by (simp add: scan_head_def scan_sign_def)
  next
    case False
    then obtain q where q: "sg = [q]" "q = (if neg then CHR ''-'' else CHR ''+'')"
      using sg by (auto simp: sign_text_def split: if_splits)
    then have "\<not> isspace q" by (simp add: isspace_def)
    then have "skip_space s = Some (q, p # ps)"
      using skip_space_append [OF ws, of q "p # ps"] s y q by (simp add: y_def)
    moreover have "scan_sign q (p # ps) = Some (neg, p, ps)"
      using q(2) by (simp add: scan_sign_def)
    ultimately show ?thesis using rad by (simp add: scan_head_def)
  qed
  with s k c show ?thesis by simp
qed

section \<open>Limits\<close>

lemma unat_LONG_MAX: "unat (LONG_MAX :: 'l::len word) = 2 ^ (LENGTH('l) - 1) - 1"
  unfolding LONG_MAX_def mask_eq_exp_minus_1 by (rule unat_mask_word) simp

lemma LONG_MIN_eq: "(LONG_MIN :: 'l::len word) = of_nat (2 ^ (LENGTH('l) - 1))"
  by (simp add: LONG_MIN_def push_bit_eq_mult)

lemma half_lt: "(2::nat) ^ (LENGTH('l::len) - 1) < 2 ^ LENGTH('l)"
  by (simp add: power_strict_increasing)

lemma unat_LONG_MIN: "unat (LONG_MIN :: 'l::len word) = 2 ^ (LENGTH('l) - 1)"
  unfolding LONG_MIN_eq unat_of_nat using half_lt [where 'l = 'l] by (rule mod_less)

lemma neg_limit: "- (LONG_MIN + LONG_MAX) + LONG_MAX = (LONG_MIN :: 'l::len word)"
proof -
  have "(2::'l word) ^ LENGTH('l) = 2 * 2 ^ (LENGTH('l) - 1)"
    by (metis len_gt_0 power_minus_mult mult.commute)
  then have "(2::'l word) * 2 ^ (LENGTH('l) - 1) = 0" by simp
  then show ?thesis
    by (simp add: LONG_MIN_def LONG_MAX_def push_bit_eq_mult mask_eq_exp_minus_1 algebra_simps)
qed

lemma unat_ULONG_MAX: "unat (ULONG_MAX :: 'l::len word) = 2 ^ LENGTH('l) - 1"
  by (simp add: ULONG_MAX_def unsigned_minus_1_eq_mask mask_eq_exp_minus_1)

lemma sint_of_int_range:
  "- (2 ^ (LENGTH('l::len) - 1)) \<le> x \<Longrightarrow> x < 2 ^ (LENGTH('l) - 1) \<Longrightarrow> sint (of_int x :: 'l word) = x"
  by (simp add: signed_of_int signed_take_bit_int_eq_self)

lemma sint_LONG_MAX: "sint (LONG_MAX :: 'l::len word) = 2 ^ (LENGTH('l) - 1) - 1"
proof -
  have "(0::int) < 2 ^ (LENGTH('l) - 1)" by simp
  then have "sint (of_int (2 ^ (LENGTH('l) - 1) - 1) :: 'l word) = 2 ^ (LENGTH('l) - 1) - 1"
    by (intro sint_of_int_range) linarith+
  then show ?thesis by (simp add: LONG_MAX_def mask_eq_exp_minus_1)
qed

lemma sint_LONG_MIN: "sint (LONG_MIN :: 'l::len word) = - (2 ^ (LENGTH('l) - 1))"
proof -
  have "(0::int) < 2 ^ (LENGTH('l) - 1)" by simp
  then have "sint (of_int (- (2 ^ (LENGTH('l) - 1))) :: 'l word) = - (2 ^ (LENGTH('l) - 1))"
    by (intro sint_of_int_range) linarith+
  moreover have "- LONG_MIN = (LONG_MIN :: 'l word)" using neg_limit [where 'l = 'l] by simp
  then have "LONG_MIN = (of_int (- (2 ^ (LENGTH('l) - 1))) :: 'l word)"
    by (metis LONG_MIN_def mult_1 of_int_minus of_int_numeral of_int_power push_bit_eq_mult)
  ultimately show ?thesis by simp
qed

lemma clamp_out:
  assumes "(0::int) < m" and "if neg then x < - m else m \<le> x"
  shows "\<not> (- m \<le> x \<and> x < m)" "max (- m) (min (m - 1) x) = (if neg then - m else m - 1)"
  using assms by (auto split: if_splits)

lemma scan_numeral:
  fixes limit :: "'l::len word"
  assumes t: "numeral_text base neg b cs ds t rest s k" and len: "8 \<le> LENGTH('l)"
  shows "\<exists>anyd acc. scan_head s base = Some (neg, int b, hd cs, tl cs @ t # rest) \<and> 2 \<le> b \<and> b \<le> 36 \<and>
    scan_digits b (limit div of_nat b) (unat (limit mod of_nat b)) (hd cs) (tl cs @ t # rest) 0 0 =
      Some (anyd, acc, rest) \<and> anyd \<noteq> 0 \<and> end_offset s anyd rest = k \<and>
    (if digits_value b ds 0 \<le> unat limit then acc = of_nat (digits_value b ds 0) \<and> 0 < anyd else anyd < 0)"
proof -
  note h = scan_head_text [OF t]
  have b: "2 \<le> b" "b \<le> 36" using t by (auto simp: numeral_text_def radix_text_def)
  have "(36::nat) < 2 ^ 8" by simp
  also have "\<dots> \<le> 2 ^ LENGTH('l)" using len by (rule power_increasing) simp
  finally have ub: "unat (of_nat b :: 'l word) = b" using b by (simp add: unat_of_nat)
  obtain c cs' where c: "cs = c # cs'" using t by (cases cs) (auto simp: numeral_text_def)
  from scan_digits_value [of cs ds b t c "cs' @ t # rest" rest "unat limit" "limit div of_nat b"
      "unat (limit mod of_nat b)" 0 0] t b c unat_lt_pow [of limit]
  obtain anyd acc where "scan_digits b (limit div of_nat b) (unat (limit mod of_nat b)) c (cs' @ t # rest) 0 0 =
      Some (anyd, acc, rest)"
    "if digits_value b ds 0 \<le> unat limit
     then acc = of_nat (digits_value b ds 0) \<and> anyd = (if ds = [] then 0 else 1) else anyd < 0"
    by (auto simp: numeral_text_def unat_div unat_mod ub)
  moreover have "ds \<noteq> []" using t by (auto simp: numeral_text_def)
  moreover have "length s - length rest - 1 = k" using conjunct2 [OF h] by linarith
  ultimately show ?thesis using h b c by (auto simp: end_offset_def split: if_splits)
qed

lemma strtoul_fits:
  assumes "numeral_text base neg b cs ds t rest s k" and "8 \<le> LENGTH('l::len)"
    and "digits_value b ds 0 < 2 ^ LENGTH('l)"
  shows "(strtoul s base :: ('l word \<times> status_t option \<times> nat) option) =
    Some (if neg then - of_nat (digits_value b ds 0) else of_nat (digits_value b ds 0), None, k)"
proof -
  let ?v = "digits_value b ds 0"
  have "?v \<le> unat (ULONG_MAX :: 'l word)" using assms(3) unfolding unat_ULONG_MAX by linarith
  with scan_numeral [OF assms(1,2), of ULONG_MAX] obtain anyd where
    "scan_head s base = Some (neg, int b, hd cs, tl cs @ t # rest)" "2 \<le> b" "b \<le> 36"
    "scan_digits b ((ULONG_MAX :: 'l word) div of_nat b) (unat ((ULONG_MAX :: 'l word) mod of_nat b))
        (hd cs) (tl cs @ t # rest) 0 0 = Some (anyd, of_nat ?v, rest)" "0 < anyd" "end_offset s anyd rest = k"
    by auto
  then show ?thesis by (simp add: strtoul_def Let_def)
qed

section \<open>Properties\<close>

text \<open>
  C13: On every well-formed numeral (white space, sign, radix prefix, digits) \<open>strtol\<close> returns the
  value clamped to the range of \<^verbatim>\<open>long\<close>, reports \<open>ERANGE\<close> exactly when it had to clamp, and leaves
  \<^verbatim>\<open>endptr\<close> behind the last digit, for every width of \<^verbatim>\<open>long\<close>.
\<close>

theorem strtol_value:
  assumes "numeral_text base neg b cs ds t rest s k" and "8 \<le> LENGTH('l::len)"
  defines "x \<equiv> (if neg then - int (digits_value b ds 0) else int (digits_value b ds 0))"
  shows "\<exists>w :: 'l word. strtol s base =
      Some (w, if - (2 ^ (LENGTH('l) - 1)) \<le> x \<and> x < 2 ^ (LENGTH('l) - 1) then None else Some ERANGE, k) \<and>
    sint w = max (- (2 ^ (LENGTH('l) - 1))) (min (2 ^ (LENGTH('l) - 1) - 1) x)"
proof -
  let ?v = "digits_value b ds 0" and ?h = "2 ^ (LENGTH('l) - 1) :: nat"
  define limit :: "'l word" where "limit = (if neg then - (LONG_MIN + LONG_MAX) + LONG_MAX else LONG_MAX)"
  have lim: "unat limit = (if neg then ?h else ?h - 1)"
    by (cases neg) (simp_all only: limit_def if_True if_False neg_limit unat_LONG_MIN unat_LONG_MAX)
  from scan_numeral [OF assms(1,2), of limit] obtain anyd acc where
    h: "scan_head s base = Some (neg, int b, hd cs, tl cs @ t # rest)" "2 \<le> b" "b \<le> 36"
    and d: "scan_digits b (limit div of_nat b) (unat (limit mod of_nat b)) (hd cs) (tl cs @ t # rest) 0 0 =
      Some (anyd, acc, rest)" "anyd \<noteq> 0" "end_offset s anyd rest = k"
    and v: "if ?v \<le> unat limit then acc = of_nat ?v \<and> 0 < anyd else anyd < 0" by blast
  have r: "strtol s base = Some (if anyd < 0 then if neg then LONG_MIN else LONG_MAX else if neg then - acc else acc,
      if anyd < 0 then Some ERANGE else None, k)"
    using h d by (simp add: strtol_def limit_def [symmetric] Let_def)
  have ih: "int ?h = 2 ^ (LENGTH('l) - 1)" by simp
  have in_range: "?v \<le> unat limit \<longleftrightarrow> int ?v \<le> (if neg then int ?h else int ?h - 1)"
  proof -
    have "0 < ?h" by simp
    then show ?thesis unfolding lim by (cases neg) (simp_all only: if_True if_False, linarith+)
  qed
  have x_bound: "x = (if neg then - int ?v else int ?v)" "int ?h = 2 ^ (LENGTH('l) - 1)" "0 < int ?h" "0 \<le> int ?v"
    by (simp_all add: x_def)
  show ?thesis
  proof (cases "?v \<le> unat limit")
    case True
    then have "int ?v \<le> (if neg then int ?h else int ?h - 1)" using in_range by blast
    then have x: "- (2 ^ (LENGTH('l) - 1)) \<le> x" "x < 2 ^ (LENGTH('l) - 1)"
      using x_bound by (cases neg; simp only: if_True if_False; linarith)+
    have "(if neg then - acc else acc) = (of_int x :: 'l word)" using True v by (simp add: x_def)
    with r True v x show ?thesis by (simp add: sint_of_int_range)
  next
    case False
    then have "(if neg then int ?h else int ?h - 1) < int ?v" using in_range by linarith
    then have x: "if neg then x < - (2 ^ (LENGTH('l) - 1)) else 2 ^ (LENGTH('l) - 1) \<le> x"
      using x_bound by (cases neg; simp only: if_True if_False; linarith)
    have "(0::int) < 2 ^ (LENGTH('l) - 1)" by simp
    note out = clamp_out [OF this x]
    show ?thesis
      unfolding out(2) if_not_P [OF out(1)]
      using r False v sint_LONG_MAX [where 'l = 'l] sint_LONG_MIN [where 'l = 'l] by auto
  qed
qed


text \<open>The text \<open> -0x2A;\<close> in base 0 and a decimal numeral beyond 64 bits.\<close>

lemma sample_numeral:
  "numeral_text 0 True 16 ''2A'' [2, 10] (CHR '';'') [NUL] ('' -0x2A;'' @ [NUL]) 6"
  unfolding numeral_text_def
  by (intro conjI exI [of _ "'' ''"] exI [of _ "''-''"] exI [of _ "''0x''"])
    (auto simp: isspace_def sign_text_def radix_text_def digit_of_def stops_def)

lemma sample_numeral_big:
  "numeral_text 10 False 10 ''99999999999999999999'' [9,9,9,9,9,9,9,9,9,9,9,9,9,9,9,9,9,9,9,9] NUL [] (''99999999999999999999'' @ [NUL]) 20"
  unfolding numeral_text_def
  by (intro conjI exI [of _ "[]"]) (auto simp: sign_text_def radix_text_def prefixed_def digit_of_def stops_def NUL_def)

theorem strtol_value_witness:
  "(\<exists>w :: uint64. strtol ('' -0x2A;'' @ [NUL]) 0 = Some (w, None, 6) \<and> sint w = - 42) \<and>
   (\<exists>w :: 32 word. strtol (''99999999999999999999'' @ [NUL]) 10 = Some (w, Some ERANGE, 20) \<and>
      sint w = 2147483647)"
  using strtol_value [OF sample_numeral, where 'l = 64] strtol_value [OF sample_numeral_big, where 'l = 32]
  by (simp add: digits_value_def)

text \<open>
  C17: \<open>strtoul\<close> returns the value modulo the word size with its sign applied when the magnitude
  fits, and \<open>ULONG_MAX\<close> with \<open>ERANGE\<close> exactly when it does not; \<^verbatim>\<open>endptr\<close> is behind the last digit.
\<close>

theorem strtoul_value:
  assumes "numeral_text base neg b cs ds t rest s k" and "8 \<le> LENGTH('l::len)"
  shows "(strtoul s base :: ('l word \<times> status_t option \<times> nat) option) =
    (if digits_value b ds 0 < 2 ^ LENGTH('l)
     then Some (if neg then - of_nat (digits_value b ds 0) else of_nat (digits_value b ds 0), None, k)
     else Some (ULONG_MAX, Some ERANGE, k))"
proof -
  let ?v = "digits_value b ds 0"
  from scan_numeral [OF assms, of ULONG_MAX] obtain anyd and acc :: "'l word" where
    h: "scan_head s base = Some (neg, int b, hd cs, tl cs @ t # rest)" "2 \<le> b" "b \<le> 36"
    and d: "scan_digits b ((ULONG_MAX :: 'l word) div of_nat b) (unat ((ULONG_MAX :: 'l word) mod of_nat b))
        (hd cs) (tl cs @ t # rest) 0 0 = Some (anyd, acc, rest)" "anyd \<noteq> 0" "end_offset s anyd rest = k"
    and v: "if ?v \<le> unat (ULONG_MAX :: 'l word) then acc = of_nat ?v \<and> 0 < anyd else anyd < 0" by blast
  have "(0::nat) < 2 ^ LENGTH('l)" by simp
  then have "?v \<le> unat (ULONG_MAX :: 'l word) \<longleftrightarrow> ?v < 2 ^ LENGTH('l)"
    unfolding unat_ULONG_MAX by linarith
  with h d v show ?thesis by (auto simp: strtoul_def Let_def split: if_splits)
qed

theorem strtoul_value_witness:
  "(strtoul ('' -0x2A;'' @ [NUL]) 0 :: (uint64 \<times> status_t option \<times> nat) option) = Some (- 42, None, 6) \<and>
   (strtoul (''99999999999999999999'' @ [NUL]) 10 :: (uint64 \<times> status_t option \<times> nat) option) =
     Some (ULONG_MAX, Some ERANGE, 20)"
  using strtoul_value [OF sample_numeral, where 'l = 64] strtoul_value [OF sample_numeral_big, where 'l = 64]
  by (simp add: digits_value_def)

section \<open>Arbitrary input\<close>

lemma skip_space_suffix:
  "NUL \<in> set s \<Longrightarrow> \<exists>c s'. skip_space s = Some (c, s') \<and> (\<exists>p. s = p @ c # s') \<and> NUL \<in> set (c # s') \<and>
     \<not> isspace c"
proof (induction s)
  case Nil
  then show ?case by simp
next
  case (Cons a s)
  show ?case
  proof (cases "isspace a")
    case True
    then have "a \<noteq> NUL" by (auto simp: isspace_def NUL_def)
    with Cons True obtain c s' p where "skip_space s = Some (c, s')" "s = p @ c # s'" "NUL \<in> set (c # s')" "\<not> isspace c"
      by auto
    with True show ?thesis by (auto intro: exI [of _ "a # p"])
  next
    case False
    with Cons.prems show ?thesis by (auto intro: exI [of _ "[]"])
  qed
qed

definition suffix_at :: "string \<Rightarrow> char \<Rightarrow> string \<Rightarrow> bool" where
  "suffix_at str c s \<longleftrightarrow> (\<exists>p. str = p @ c # s) \<and> NUL \<in> set (c # s)"

lemma suffix_at_next: "suffix_at str c s \<Longrightarrow> c \<noteq> NUL \<Longrightarrow> \<exists>d s'. s = d # s' \<and> suffix_at str d s'"
  by (cases s) (auto simp: suffix_at_def intro: exI [of _ "_ @ [c]"])

lemma scan_sign_total:
  "suffix_at str c s \<Longrightarrow> \<exists>neg c' s'. scan_sign c s = Some (neg, c', s') \<and> suffix_at str c' s'"
  using suffix_at_next [of str c s]
  by (cases "c = CHR ''-'' \<or> c = CHR ''+''") (auto simp: scan_sign_def NUL_def ex_bool_eq)

lemma scan_prefix_total:
  assumes "suffix_at str c s" and "NUL \<notin> letters"
  shows "\<exists>base' c' s'. scan_prefix radix letters dig base c s = Some (base', c', s') \<and> suffix_at str c' s'"
proof (cases "(base = 0 \<or> base = radix) \<and> c = CHR ''0''")
  case True
  then have "c \<noteq> NUL" by (auto simp: NUL_def)
  with suffix_at_next assms(1) obtain x s1 where s: "s = x # s1" "suffix_at str x s1" by blast
  show ?thesis
  proof (cases "x \<in> letters")
    case True
    then have "x \<noteq> NUL" using assms(2) by auto
    with suffix_at_next s(2) obtain d s2 where "s1 = d # s2" "suffix_at str d s2" by blast
    with s assms(1) show ?thesis by (auto simp: scan_prefix_def)
  qed (use s assms(1) in \<open>auto simp: scan_prefix_def\<close>)
qed (use assms(1) in \<open>auto simp: scan_prefix_def\<close>)

lemma scan_head_total:
  assumes "NUL \<in> set str"
  shows "\<exists>neg base' c s. scan_head str base = Some (neg, base', c, s) \<and> suffix_at str c s"
proof -
  from skip_space_suffix [OF assms] obtain c0 s0 where 0: "skip_space str = Some (c0, s0)" "suffix_at str c0 s0"
    by (auto simp: suffix_at_def)
  from scan_sign_total [OF 0(2)] obtain neg c1 s1 where 1: "scan_sign c0 s0 = Some (neg, c1, s1)" "suffix_at str c1 s1"
    by blast
  from scan_prefix_total [OF 1(2), of "{CHR ''x'', CHR ''X''}" 16 is_hexdigit base]
  obtain b2 c2 s2 where 2: "scan_hex base c1 s1 = Some (b2, c2, s2)" "suffix_at str c2 s2"
    by (auto simp: NUL_def scan_hex_def)
  from scan_prefix_total [OF 2(2), of "{CHR ''b'', CHR ''B''}" 2 "\<lambda>d. d = CHR ''0'' \<or> d = CHR ''1''" b2]
  obtain b3 c3 s3 where 3: "scan_bin b2 c2 s2 = Some (b3, c3, s3)" "suffix_at str c3 s3"
    by (auto simp: NUL_def scan_bin_def)
  show ?thesis by (simp add: scan_head_def 0 1 2 3)
qed

lemma scan_digits_total:
  "suffix_at str c s \<Longrightarrow> \<exists>anyd' acc' s' c'. scan_digits base cutoff cutlim c s anyd acc = Some (anyd', acc', s') \<and>
     suffix_at str c' s' \<and> (anyd' = 0 \<longrightarrow> anyd = 0 \<and> acc' = acc)"
proof (induction s arbitrary: c anyd acc)
  case Nil
  then have "digit_of c = None" by (cases "digit_of c") (auto simp: suffix_at_def dest: digit_of_nospace)
  with Nil show ?case by (auto simp: scan_digits.simps)
next
  case (Cons c' s')
  show ?case
  proof (cases "\<exists>d. digit_of c = Some d \<and> d < base")
    case True
    then obtain d where d: "digit_of c = Some d" "d < base" by blast
    then have "c \<noteq> NUL" by (auto dest: digit_of_nospace)
    then have suf: "suffix_at str c' s'" using suffix_at_next [OF Cons.prems] by auto
    let ?o = "anyd < 0 \<or> acc > cutoff \<or> (acc = cutoff \<and> d > cutlim)"
    from d have "scan_digits base cutoff cutlim c (c' # s') anyd acc =
      scan_digits base cutoff cutlim c' s' (if ?o then - 1 else 1) (if ?o then acc else acc * of_nat base + of_nat d)"
      by (simp add: scan_digits_step)
    with Cons.IH [OF suf, of "if ?o then - 1 else 1" "if ?o then acc else acc * of_nat base + of_nat d"]
    show ?thesis by fastforce
  next
    case False
    with Cons.prems show ?thesis
      by (auto simp: scan_digits.simps split: option.splits)
  qed
qed

text \<open>
  C18: \<open>strtol\<close> on any terminated string and any base, however malformed: it returns without reading
  past the terminator, \<^verbatim>\<open>endptr\<close> stays inside the string, and \<open>EINVAL\<close> means that no digit was
  converted: the value is 0 and \<^verbatim>\<open>endptr\<close> is \<^verbatim>\<open>nptr\<close>.
\<close>

theorem strtol_total:
  assumes "NUL \<in> set str"
  shows "\<exists>(w :: 'l::len word) e k. strtol str base = Some (w, e, k) \<and> k < length str \<and>
    (e = Some EINVAL \<longrightarrow> w = 0 \<and> k = 0) \<and> e \<in> {None, Some EINVAL, Some ERANGE}"
proof -
  from scan_head_total [OF assms, of base] obtain neg b c s where
    h: "scan_head str base = Some (neg, b, c, s)" "suffix_at str c s" by blast
  have len: "0 < length str" using assms by auto
  show ?thesis
  proof (cases "b < 2 \<or> b > 36")
    case True
    with h len show ?thesis by (auto simp: strtol_def end_offset_def)
  next
    case False
    define limit :: "'l word" where "limit = (if neg then - (LONG_MIN + LONG_MAX) + LONG_MAX else LONG_MAX)"
    from scan_digits_total [OF h(2), of "nat b" "limit div of_int b" "unat (limit mod of_int b)" 0 0]
    obtain anyd acc s' c' where d: "scan_digits (nat b) (limit div of_int b) (unat (limit mod of_int b)) c s 0 0 =
        Some (anyd, acc, s')" "suffix_at str c' s'" "anyd = 0 \<longrightarrow> acc = 0" by auto
    have k: "end_offset str anyd s' < length str" using d(2) len by (auto simp: end_offset_def suffix_at_def)
    have "strtol str base = Some
        (if anyd < 0 then if neg then LONG_MIN else LONG_MAX else if anyd = 0 then 0 else if neg then - acc else acc,
         if anyd < 0 then Some ERANGE else if anyd = 0 then Some EINVAL else None, end_offset str anyd s')"
      using h d(1,3) False by (simp add: strtol_def limit_def [symmetric] Let_def)
    with k show ?thesis by (auto simp: end_offset_def)
  qed
qed

theorem strtol_total_witness:
  "\<exists>(w :: uint64) e k. strtol (''  +0x'' @ [NUL]) 16 = Some (w, e, k) \<and> k < 7"
  using strtol_total [of "''  +0x'' @ [NUL]" 16, where 'l = 64] by auto

end
