(* ===== verification/Uuid.thy ===== *)
theory Uuid
  imports StrToInt "HOL-Library.Signed_Division"
begin

text \<open>
  \<^verbatim>\<open>src/libs/uuid\<close>: packing and unpacking (\<^verbatim>\<open>pack.c\<close>, \<^verbatim>\<open>unpack.c\<close>), text (\<^verbatim>\<open>parse.c\<close>, \<^verbatim>\<open>unparse.c\<close>),
  the fields (\<^verbatim>\<open>uuid_time.c\<close>), comparison, null test, copy and clear, and generation
  (\<^verbatim>\<open>gen_uuid.c\<close>). A \<^verbatim>\<open>uuid_t\<close> is the list of its sixteen bytes.

  The readings of \<^verbatim>\<open>gettimeofday\<close>, the results of \<^verbatim>\<open>read\<close> on the random device, the values of
  \<^verbatim>\<open>rand\<close>, the content of the state file and the hardware address are arguments.
\<close>

section \<open>Packing\<close>

record uuid =
  time_low :: uint32
  time_mid :: uint16
  time_hi_and_version :: uint16
  uu_clock_seq :: uint16
  uu_node :: "uint8 list"

type_synonym uuid_t = "uint8 list"

definition uuid_pack :: "uuid \<Rightarrow> uuid_t" where
  "uuid_pack uu =
     (let tmp0 = time_low uu;
          out3 = ucast tmp0; tmp1 = drop_bit 8 tmp0;
          out2 = ucast tmp1; tmp2 = drop_bit 8 tmp1;
          out1 = ucast tmp2; tmp3 = drop_bit 8 tmp2;
          out0 = ucast tmp3;
          tmp4 = ucast (time_mid uu) :: uint32;
          out5 = ucast tmp4; out4 = ucast (drop_bit 8 tmp4);
          tmp5 = ucast (time_hi_and_version uu) :: uint32;
          out7 = ucast tmp5; out6 = ucast (drop_bit 8 tmp5);
          tmp6 = ucast (uu_clock_seq uu) :: uint32;
          out9 = ucast tmp6; out8 = ucast (drop_bit 8 tmp6)
      in [out0, out1, out2, out3, out4, out5, out6, out7, out8, out9] @ take 6 (uu_node uu))"

definition push_byte :: "uint32 \<Rightarrow> uint8 \<Rightarrow> uint32" where
  "push_byte tmp b = push_bit 8 tmp OR ucast b"

definition uuid_unpack :: "uuid_t \<Rightarrow> uuid" where
  "uuid_unpack ptr =
     \<lparr>time_low = push_byte (push_byte (push_byte (ucast (ptr ! 0)) (ptr ! 1)) (ptr ! 2)) (ptr ! 3),
      time_mid = ucast (push_byte (ucast (ptr ! 4)) (ptr ! 5)),
      time_hi_and_version = ucast (push_byte (ucast (ptr ! 6)) (ptr ! 7)),
      uu_clock_seq = ucast (push_byte (ucast (ptr ! 8)) (ptr ! 9)),
      uu_node = take 6 (drop 10 ptr)\<rparr>"

definition uuid_clear :: "uuid_t \<Rightarrow> uuid_t" where
  "uuid_clear uu = replicate 16 0 @ drop 16 uu"

definition uuid_copy :: "uuid_t \<Rightarrow> uuid_t \<Rightarrow> uuid_t" where
  "uuid_copy dst src = fold (\<lambda>i d. d[i := src ! i]) [0..<16] dst"

definition uuid_is_null :: "uuid_t \<Rightarrow> bool" where
  "uuid_is_null uu = (\<not> list_ex (\<lambda>i. uu ! i \<noteq> 0) [0..<16])"

fun memcmp :: "uint8 list \<Rightarrow> uint8 list \<Rightarrow> nat \<Rightarrow> int" where
  "memcmp a b 0 = 0"
| "memcmp a b (Suc n) =
     (case (a, b) of
        (x # xs, y # ys) \<Rightarrow> if x \<noteq> y then int (unat x) - int (unat y) else memcmp xs ys n
      | _ \<Rightarrow> 0)"

definition uuid_compare :: "uuid_t \<Rightarrow> uuid_t \<Rightarrow> int" where
  "uuid_compare uu1 uu2 =
     (let u1 = uuid_unpack uu1; u2 = uuid_unpack uu2 in
      if time_low u1 \<noteq> time_low u2 then if time_low u1 < time_low u2 then - 1 else 1
      else if time_mid u1 \<noteq> time_mid u2 then if time_mid u1 < time_mid u2 then - 1 else 1
      else if time_hi_and_version u1 \<noteq> time_hi_and_version u2
        then if time_hi_and_version u1 < time_hi_and_version u2 then - 1 else 1
      else if uu_clock_seq u1 \<noteq> uu_clock_seq u2 then if uu_clock_seq u1 < uu_clock_seq u2 then - 1 else 1
      else memcmp (uu_node u1) (uu_node u2) 6)"

section \<open>The fields\<close>

definition uuid_clock :: "uuid_t \<Rightarrow> uint64" where
  "uuid_clock uu =
     (let u = uuid_unpack uu;
          high = ucast (time_mid u) OR push_bit 16 (ucast (time_hi_and_version u AND 0xFFF)) :: uint32
      in ucast (time_low u) OR push_bit 32 (ucast high))"

definition uuid_time :: "uuid_t \<Rightarrow> uint64 \<times> uint64" where
  "uuid_time uu =
     (let clock_reg = uuid_clock uu - (push_bit 32 0x01B21DD2 + 0x13814000)
      in (clock_reg div 10000000, (clock_reg mod 10000000) div 10))"

definition uuid_type :: "uuid_t \<Rightarrow> uint16" where
  "uuid_type uu = drop_bit 12 (time_hi_and_version (uuid_unpack uu)) AND 0xF"

datatype uuid_variant = UUID_VARIANT_NCS | UUID_VARIANT_DCE | UUID_VARIANT_MICROSOFT | UUID_VARIANT_OTHER

definition uuid_variant :: "uuid_t \<Rightarrow> uuid_variant" where
  "uuid_variant uu =
     (let var = uu_clock_seq (uuid_unpack uu) in
      if var AND 0x8000 = 0 then UUID_VARIANT_NCS
      else if var AND 0x4000 = 0 then UUID_VARIANT_DCE
      else if var AND 0x2000 = 0 then UUID_VARIANT_MICROSOFT
      else UUID_VARIANT_OTHER)"

section \<open>Text\<close>

text \<open>\<^verbatim>\<open>%0<w>x\<close> and \<^verbatim>\<open>%0<w>X\<close> of \<^verbatim>\<open>sprintf\<close>.\<close>

definition hex_digit :: "bool \<Rightarrow> nat \<Rightarrow> char" where
  "hex_digit upper d = char_of (if d < 10 then 48 + d else if upper then 55 + d else 87 + d)"

fun hex_string :: "bool \<Rightarrow> nat \<Rightarrow> string" where
  "hex_string upper n =
     (if n < 16 then [hex_digit upper n] else hex_string upper (n div 16) @ [hex_digit upper (n mod 16)])"

declare hex_string.simps [simp del]

definition format_hex :: "bool \<Rightarrow> nat \<Rightarrow> nat \<Rightarrow> string" where
  "format_hex upper w n =
     replicate (w - length (hex_string upper n)) (CHR ''0'') @ hex_string upper n"

definition uuid_unparse_x :: "uuid_t \<Rightarrow> bool \<Rightarrow> string" where
  "uuid_unparse_x uu upper =
     (let u = uuid_unpack uu in
      format_hex upper 8 (unat (time_low u)) @ ''-'' @
      format_hex upper 4 (unat (time_mid u)) @ ''-'' @
      format_hex upper 4 (unat (time_hi_and_version u)) @ ''-'' @
      format_hex upper 2 (unat (drop_bit 8 (uu_clock_seq u))) @
      format_hex upper 2 (unat (uu_clock_seq u AND 0xFF)) @ ''-'' @
      concat (map (\<lambda>i. format_hex upper 2 (unat (uu_node u ! i))) [0..<6]))"

definition uuid_unparse_lower :: "uuid_t \<Rightarrow> string" where
  "uuid_unparse_lower uu = uuid_unparse_x uu False"

definition uuid_unparse_upper :: "uuid_t \<Rightarrow> string" where
  "uuid_unparse_upper uu = uuid_unparse_x uu True"

definition uuid_unparse :: "uuid_t \<Rightarrow> string" where
  "uuid_unparse uu = uuid_unparse_x uu False"

text \<open>\<^verbatim>\<open>uuid_parse\<close> returns -1 (here \<open>Some None\<close>) or the packed bytes; \<open>None\<close> is a read past the buffer.\<close>

fun strlen :: "string \<Rightarrow> nat option" where
  "strlen [] = None"
| "strlen (c # s) = (if c = NUL then Some 0 else map_option Suc (strlen s))"

fun parse_check :: "nat \<Rightarrow> string \<Rightarrow> bool option" where
  "parse_check i [] = (if i \<le> 36 then None else Some True)"
| "parse_check i (c # cp) =
     (if \<not> i \<le> 36 then Some True
      else if i = 8 \<or> i = 13 \<or> i = 18 \<or> i = 23 then
        (if c = CHR ''-'' then parse_check (i + 1) cp else Some False)
      else if i = 36 \<and> c = NUL then parse_check (i + 1) cp
      else if \<not> is_hexdigit c then Some False
      else parse_check (i + 1) cp)"

definition hex_value :: "string \<Rightarrow> uint64 option" where
  "hex_value s = map_option fst (strtoul s 16)"

fun parse_node :: "nat \<Rightarrow> string \<Rightarrow> uint8 list option" where
  "parse_node 0 cp = Some []"
| "parse_node (Suc n) cp =
     (case cp of
        b0 # b1 # cp' \<Rightarrow>
          Option.bind (hex_value [b0, b1, NUL]) (\<lambda>v. map_option (\<lambda>vs. ucast v # vs) (parse_node n cp'))
      | _ \<Rightarrow> None)"

definition uuid_parse :: "string \<Rightarrow> uuid_t option option" where
  "uuid_parse s =
     (case strlen s of
        None \<Rightarrow> None
      | Some len \<Rightarrow>
          if len \<noteq> 36 then Some None
          else
            (case parse_check 0 s of
               None \<Rightarrow> None
             | Some False \<Rightarrow> Some None
             | Some True \<Rightarrow>
                 Option.bind (hex_value s) (\<lambda>low.
                 Option.bind (hex_value (drop 9 s)) (\<lambda>mid.
                 Option.bind (hex_value (drop 14 s)) (\<lambda>hi.
                 Option.bind (hex_value (drop 19 s)) (\<lambda>seq.
                 map_option (\<lambda>node. Some (uuid_pack \<lparr>time_low = ucast low, time_mid = ucast mid,
                     time_hi_and_version = ucast hi, uu_clock_seq = ucast seq, uu_node = node\<rparr>))
                   (parse_node 6 (drop 24 s))))))))"

section \<open>Generation\<close>

text \<open>
  \<^verbatim>\<open>get_random_bytes\<close>: the list \<open>reads\<close> has the results of the successive calls of \<^verbatim>\<open>read\<close>, an empty
  result for an error or an end of file, and every call behind the list fails; after 17 failures
  in a row the loop gives up.
\<close>

fun random_reads :: "nat \<Rightarrow> nat \<Rightarrow> uint8 list list \<Rightarrow> uint8 list" where
  "random_reads n lose reads =
     (if n = 0 then []
      else case reads of
        [] \<Rightarrow> []
      | r # rs \<Rightarrow>
          if r = [] then (if lose > 16 then [] else random_reads n (lose + 1) rs)
          else take n r @ random_reads (n - length (take n r)) 0 rs)"

declare random_reads.simps [simp del]

definition get_random_bytes ::
    "bool \<Rightarrow> uint8 list list \<Rightarrow> (nat \<Rightarrow> uint32) \<Rightarrow> uint8 list \<Rightarrow> uint8 list" where
  "get_random_bytes fd_ok reads rnd buf =
     (let n = length buf;
          got = (if fd_ok then random_reads n 0 reads else []);
          buf1 = got @ drop (length got) buf
      in map (\<lambda>i. buf1 ! i XOR ucast (drop_bit 7 (rnd i) AND 0xFF)) [0..<n])"

record clock_state =
  cs_adjustment :: int
  cs_last_sec :: int
  cs_last_usec :: int
  cs_clock_seq :: uint16

text \<open>
  The loop at \<^verbatim>\<open>try_again\<close>, over the successive readings of the time of day. When the readings
  end the loop is still waiting for the clock to advance.
\<close>

fun clock_try :: "clock_state \<Rightarrow> (int \<times> int) list \<Rightarrow> (clock_state \<times> int \<times> int) option" where
  "clock_try st [] = None"
| "clock_try st ((sec, usec) # tvs) =
     (if sec < cs_last_sec st \<or> (sec = cs_last_sec st \<and> usec < cs_last_usec st) then
        Some (st\<lparr>cs_clock_seq := (cs_clock_seq st + 1) AND 0x3FFF, cs_adjustment := 0,
                 cs_last_sec := sec, cs_last_usec := usec\<rparr>, sec, usec)
      else if sec = cs_last_sec st \<and> usec = cs_last_usec st then
        (if cs_adjustment st \<ge> 10 then clock_try st tvs
         else Some (st\<lparr>cs_adjustment := cs_adjustment st + 1\<rparr>, sec, usec))
      else Some (st\<lparr>cs_adjustment := 0, cs_last_sec := sec, cs_last_usec := usec\<rparr>, sec, usec))"

definition load_clock :: "(nat \<times> int \<times> int \<times> int) option \<Rightarrow> clock_state \<Rightarrow> clock_state" where
  "load_clock stored st =
     (case stored of
        None \<Rightarrow> st
      | Some (cl, tv1, tv2, a) \<Rightarrow>
          st\<lparr>cs_clock_seq := of_nat cl AND 0x3FFF, cs_last_sec := tv1, cs_last_usec := tv2, cs_adjustment := a\<rparr>)"

definition seed_clock :: "uint16 \<Rightarrow> int \<times> int \<Rightarrow> clock_state \<Rightarrow> clock_state" where
  "seed_clock rnd now st =
     (if cs_last_sec st = 0 \<and> cs_last_usec st = 0 then
        st\<lparr>cs_clock_seq := rnd AND 0x3FFF, cs_last_sec := fst now - 1, cs_last_usec := snd now\<rparr>
      else st)"

definition reserve_clock :: "int option \<Rightarrow> clock_state \<Rightarrow> clock_state" where
  "reserve_clock num st =
     (case num of
        None \<Rightarrow> st
      | Some n \<Rightarrow>
          if n > 1 then
            (let adj = cs_adjustment st + (n - 1);
                 usec = cs_last_usec st + adj sdiv 10;
                 adj' = adj smod 10;
                 sec = cs_last_sec st + usec sdiv 1000000
             in st\<lparr>cs_adjustment := adj', cs_last_sec := sec, cs_last_usec := usec smod 1000000\<rparr>)
          else st)"

definition clock_reg :: "int \<Rightarrow> int \<Rightarrow> int \<Rightarrow> uint64" where
  "clock_reg sec usec adjustment =
     of_int (usec * 10 + adjustment) + of_int sec * 10000000 + (push_bit 32 0x01B21DD2 + 0x13814000)"

text \<open>The result is the new state, \<^verbatim>\<open>clock_high\<close>, \<^verbatim>\<open>clock_low\<close> and the clock sequence.\<close>

definition get_clock ::
    "(nat \<times> int \<times> int \<times> int) option \<Rightarrow> uint16 \<Rightarrow> int \<times> int \<Rightarrow> (int \<times> int) list \<Rightarrow> int option \<Rightarrow>
     clock_state \<Rightarrow> (clock_state \<times> uint32 \<times> uint32 \<times> uint16) option" where
  "get_clock stored rnd now tvs num st =
     map_option (\<lambda>(st1, sec, usec).
         let reg = clock_reg sec usec (cs_adjustment st1);
             st2 = reserve_clock num st1
         in (st2, ucast (drop_bit 32 reg), ucast reg, cs_clock_seq st2))
       (clock_try (seed_clock rnd now (load_clock stored st)) tvs)"

text \<open>The node is the hardware address, or random with the multicast bit set when there is none.\<close>

definition choose_node :: "uint8 list option \<Rightarrow> uint8 list \<Rightarrow> uint8 list" where
  "choose_node hw random = (case hw of Some a \<Rightarrow> a | None \<Rightarrow> random[0 := random ! 0 OR 0x01])"

definition stamp_time :: "uint8 list \<Rightarrow> uint32 \<Rightarrow> uint32 \<Rightarrow> uint16 \<Rightarrow> uuid_t" where
  "stamp_time node_id clock_mid low seq =
     uuid_pack \<lparr>time_low = low, time_mid = ucast clock_mid,
       time_hi_and_version = ucast ((drop_bit 16 clock_mid AND 0x0FFF) OR 0x1000),
       uu_clock_seq = seq OR 0x8000, uu_node = take 6 node_id\<rparr>"

definition uuid_generate_time ::
    "uint8 list option \<Rightarrow> uint8 list \<Rightarrow> (nat \<times> int \<times> int \<times> int) option \<Rightarrow> uint16 \<Rightarrow> int \<times> int \<Rightarrow>
     (int \<times> int) list \<Rightarrow> uint8 list option \<Rightarrow> clock_state \<Rightarrow>
     (uint8 list option \<times> clock_state \<times> uuid_t) option" where
  "uuid_generate_time hw random stored rnd now tvs node_id st =
     (let node = (case node_id of Some n \<Rightarrow> n | None \<Rightarrow> choose_node hw random) in
      map_option (\<lambda>(st', hi, low, seq). (Some node, st', stamp_time node hi low seq))
        (get_clock stored rnd now tvs None st))"

definition stamp_random :: "uuid_t \<Rightarrow> uuid_t" where
  "stamp_random buf =
     (let u = uuid_unpack buf in
      uuid_pack (u\<lparr>uu_clock_seq := (uu_clock_seq u AND 0x3FFF) OR 0x8000,
                   time_hi_and_version := (time_hi_and_version u AND 0x0FFF) OR 0x4000\<rparr>))"

definition uuid_generate_randoms :: "int option \<Rightarrow> (nat \<Rightarrow> uuid_t) \<Rightarrow> uuid_t list" where
  "uuid_generate_randoms num buf =
     (let n = (case num of None \<Rightarrow> 1 | Some k \<Rightarrow> if k = 0 then 1 else k)
      in map (\<lambda>i. stamp_random (buf i)) [0..<nat n])"

definition uuid_generate_random :: "uuid_t \<Rightarrow> uuid_t" where
  "uuid_generate_random buf = uuid_generate_randoms (Some 1) (\<lambda>_. buf) ! 0"

section \<open>Packing and unpacking are inverse\<close>

lemma bytes_of_push16:
  "ucast (ucast (ucast (push_byte (ucast (a :: uint8)) b) :: uint16) :: uint32) = (b :: uint8)"
  "ucast (drop_bit 8 (ucast (ucast (push_byte (ucast (a :: uint8)) b) :: uint16) :: uint32)) = a"
  by (rule bit_word_eqI; auto simp: push_byte_def bit_simps dest: bit_imp_le_length)+

lemma bytes_of_push32:
  fixes a b c d :: uint8
  defines "w \<equiv> push_byte (push_byte (push_byte (ucast a) b) c) d"
  shows "ucast w = d" "ucast (drop_bit 8 w) = c" "ucast (drop_bit 16 w) = b" "ucast (drop_bit 24 w) = a"
  unfolding w_def by (rule bit_word_eqI; auto simp: push_byte_def bit_simps dest: bit_imp_le_length)+

lemma push16_of_bytes:
  "ucast (push_byte (ucast (ucast (drop_bit 8 (ucast w :: uint32)) :: uint8)) (ucast (ucast w :: uint32))) = (w :: uint16)"
  by (rule bit_word_eqI) (auto simp: push_byte_def bit_simps)

lemma push32_of_bytes:
  "push_byte (push_byte (push_byte (ucast (ucast (drop_bit 24 w) :: uint8))
     (ucast (drop_bit 16 w))) (ucast (drop_bit 8 w))) (ucast w) = (w :: uint32)"
proof (rule bit_word_eqI)
  fix n assume n: "n < LENGTH(32)"
  consider "n < 8" | m where "n = 8 + m" "m < 8" | m where "n = 16 + m" "m < 8" | m where "n = 24 + m" "m < 8"
  proof -
    have "n < 8 \<or> 8 \<le> n \<and> n < 16 \<or> 16 \<le> n \<and> n < 24 \<or> 24 \<le> n" by linarith
    then show ?thesis using n that by (auto dest!: le_Suc_ex)
  qed
  then show "bit (push_byte (push_byte (push_byte (ucast (ucast (drop_bit 24 w) :: uint8))
     (ucast (drop_bit 16 w))) (ucast (drop_bit 8 w))) (ucast w)) n = bit w n"
    by cases (auto simp: push_byte_def bit_simps)
qed

lemma uuid_unpack_pack: "length (uu_node uu) = 6 \<Longrightarrow> uuid_unpack (uuid_pack uu) = uu"
  by (simp add: uuid_unpack_def uuid_pack_def Let_def push16_of_bytes push32_of_bytes)

lemma list16: "length bs = 16 \<Longrightarrow> \<exists>a0 a1 a2 a3 a4 a5 a6 a7 a8 a9 n. bs = [a0, a1, a2, a3, a4, a5, a6, a7, a8, a9] @ n \<and> length n = 6"
  by (rule exI [of _ "bs ! 0"]) (auto simp: numeral_eq_Suc length_Suc_conv)

lemma uuid_pack_unpack: "length bs = 16 \<Longrightarrow> uuid_pack (uuid_unpack bs) = bs"
  by (auto dest!: list16 simp: uuid_unpack_def uuid_pack_def Let_def bytes_of_push16 bytes_of_push32)

lemma length_uuid_pack: "length (uu_node uu) = 6 \<Longrightarrow> length (uuid_pack uu) = 16"
  by (simp add: uuid_pack_def Let_def)

lemma length_node_unpack: "length bs = 16 \<Longrightarrow> length (uu_node (uuid_unpack bs)) = 6"
  by (simp add: uuid_unpack_def)


section \<open>Comparison is the order of the bytes\<close>

fun be_value :: "uint8 list \<Rightarrow> nat" where
  "be_value [] = 0"
| "be_value (b # bs) = unat b * 256 ^ length bs + be_value bs"

lemma unat_byte: "unat (b :: uint8) < 256"
  using unat_lt_pow [of b] by simp

lemma be_value_lt: "be_value bs < 256 ^ length bs"
proof (induction bs)
  case (Cons b bs)
  have "unat b * 256 ^ length bs + be_value bs < unat b * 256 ^ length bs + 256 ^ length bs"
    using Cons by simp
  also have "\<dots> = (unat b + 1) * 256 ^ length bs" by simp
  also have "\<dots> \<le> 256 * 256 ^ length bs" using unat_byte [of b] by (intro mult_right_mono) auto
  finally show ?case by simp
qed simp

lemma unat_push_byte: "unat t < 2 ^ 24 \<Longrightarrow> unat (push_byte t b) = unat t * 256 + unat b"
proof -
  assume t: "unat t < 2 ^ 24"
  have "push_bit 8 t AND ucast b = 0"
    by (rule bit_word_eqI) (auto simp: bit_simps dest: bit_imp_le_length)
  then have "push_byte t b = push_bit 8 t + ucast b"
    by (simp add: push_byte_def disjunctive_add_eq_or)
  moreover have "unat (push_bit 8 t) = unat t * 256"
    using t by (simp add: push_bit_eq_mult unat_word_ariths)
  moreover have "unat (ucast b :: uint32) = unat b"
    using unat_byte [of b] by (simp add: unsigned_ucast_eq take_bit_nat_eq_self)
  ultimately show ?thesis using t unat_byte [of b] by (simp add: unat_plus_no_wrap)
qed

lemma unat_ucast_byte: "unat (ucast (b :: uint8) :: uint32) = unat b"
  using unat_byte [of b] by (simp add: unsigned_ucast_eq take_bit_nat_eq_self)

lemma be_value_fields:
  "unat (ucast (push_byte (ucast a) b) :: uint16) = be_value [a, b]"
  "unat (push_byte (push_byte (push_byte (ucast a) b) c) d) = be_value [a, b, c, d]"
proof -
  note B = unat_byte [of a] unat_byte [of b] unat_byte [of c]
  have 1: "unat (push_byte (ucast a) b) = unat a * 256 + unat b"
    using B by (subst unat_push_byte) (simp_all add: unat_ucast_byte)
  then show "unat (ucast (push_byte (ucast a) b) :: uint16) = be_value [a, b]"
    using B by (simp add: unsigned_ucast_eq take_bit_nat_eq_self)
  have 2: "unat (push_byte (push_byte (ucast a) b) c) = (unat a * 256 + unat b) * 256 + unat c"
    using B 1 by (subst unat_push_byte) simp_all
  show "unat (push_byte (push_byte (push_byte (ucast a) b) c) d) = be_value [a, b, c, d]"
    using B 2 by (subst unat_push_byte) simp_all
qed

lemma sgn_lex:
  fixes a b :: int
  assumes "0 \<le> x" "x < m" "0 \<le> y" "y < m"
  shows "sgn (a * m + x - (b * m + y)) = (if a \<noteq> b then sgn (a - b) else sgn (x - y))"
proof -
  have m: "0 < m" using assms by linarith
  have "a * m + m \<le> b * m" if "a < b" using mult_right_mono [of "a + 1" b m] that m by (simp add: distrib_right)
  moreover have "b * m + m \<le> a * m" if "b < a" using mult_right_mono [of "b + 1" a m] that m by (simp add: distrib_right)
  ultimately show ?thesis using assms by (cases a b rule: linorder_cases) (auto simp: sgn_if)
qed

lemma sgn_memcmp:
  "length xs = n \<Longrightarrow> length ys = n \<Longrightarrow> sgn (memcmp xs ys n) = sgn (int (be_value xs) - int (be_value ys))"
proof (induction xs ys n rule: memcmp.induct)
  case (2 a b n)
  then obtain x xs y ys where ab: "a = x # xs" "b = y # ys" by (cases a; cases b) auto
  have l: "length xs = n" "length ys = n" using 2 ab by auto
  have "int (be_value xs) < 256 ^ n" "int (be_value ys) < 256 ^ n"
    using be_value_lt [of xs] be_value_lt [of ys] l by (metis of_nat_less_iff of_nat_numeral of_nat_power)+
  with sgn_lex [of "int (be_value xs)" "256 ^ n" "int (be_value ys)" "int (unat x)" "int (unat y)"]
  show ?case using 2 ab l by (simp add: word_uint_eq_iff)
qed simp

lemma memcmp_append:
  "length xs = n \<Longrightarrow> length ys = n \<Longrightarrow>
   memcmp (xs @ as) (ys @ bs) (n + k) = (if memcmp xs ys n \<noteq> 0 then memcmp xs ys n else memcmp as bs k)"
proof (induction xs ys n rule: memcmp.induct)
  case (2 a b n)
  then obtain x xs y ys where "a = x # xs" "b = y # ys" by (cases a; cases b) auto
  with 2 show ?case by (auto simp: word_uint_eq_iff)
qed simp

lemma memcmp_field:
  assumes "length xs = n" "length ys = n" and "unat w = be_value xs" "unat v = be_value ys"
  shows "sgn (memcmp (xs @ as) (ys @ bs) (n + k)) =
    (if w \<noteq> v then if w < v then - 1 else 1 else sgn (memcmp as bs k))"
proof -
  have s: "sgn (memcmp xs ys n) = sgn (int (unat w) - int (unat v))"
    using sgn_memcmp [of xs n ys] assms by simp
  show ?thesis
  proof (cases w v rule: linorder_cases)
    case less
    then have "sgn (memcmp xs ys n) = - 1" using s by (simp add: word_less_def)
    moreover from this have "memcmp xs ys n \<noteq> 0" by auto
    ultimately show ?thesis using less by (simp add: memcmp_append assms)
  next
    case equal
    then have "memcmp xs ys n = 0" using s by (simp add: sgn_0_0)
    then show ?thesis using equal by (simp add: memcmp_append assms)
  next
    case greater
    then have "sgn (memcmp xs ys n) = 1" using s by (simp add: word_less_def)
    moreover from this have "memcmp xs ys n \<noteq> 0" by auto
    ultimately show ?thesis using greater by (auto simp: memcmp_append assms)
  qed
qed

lemma sgn_uuid_compare:
  assumes "length u = 16" "length v = 16"
  shows "sgn (uuid_compare u v) = sgn (memcmp u v 16)"
proof -
  from list16 [OF assms(1)] obtain a0 a1 a2 a3 a4 a5 a6 a7 a8 a9 n where
    u: "u = [a0, a1, a2, a3] @ [a4, a5] @ [a6, a7] @ [a8, a9] @ n" "length n = 6" by auto
  from list16 [OF assms(2)] obtain b0 b1 b2 b3 b4 b5 b6 b7 b8 b9 k where
    v: "v = [b0, b1, b2, b3] @ [b4, b5] @ [b6, b7] @ [b8, b9] @ k" "length k = 6" by auto
  have "memcmp u v 16 = memcmp u v (4 + (2 + (2 + (2 + 6))))" by simp
  then show ?thesis
    unfolding u(1) v(1)
    by (simp only: memcmp_field [OF _ _ be_value_fields(2) be_value_fields(2)]
        memcmp_field [OF _ _ be_value_fields(1) be_value_fields(1)] list.size)
      (simp add: uuid_compare_def Let_def uuid_unpack_def u(2) v(2) if_distrib [of sgn])
qed


lemma be_value_inj: "length xs = length ys \<Longrightarrow> be_value xs = be_value ys \<Longrightarrow> xs = ys"
proof (induction xs ys rule: list_induct2)
  case (Cons x xs y ys)
  let ?m = "256 ^ length xs"
  have lt: "be_value xs < ?m" "be_value ys < ?m"
    using be_value_lt [of xs] be_value_lt [of ys] Cons.hyps by simp_all
  have eq: "be_value xs + unat x * ?m = be_value ys + unat y * ?m" using Cons by simp
  have "(be_value xs + unat x * ?m) div ?m = unat x" "(be_value ys + unat y * ?m) div ?m = unat y"
    using lt by simp_all
  with eq have "unat x = unat y" by simp
  with eq Cons show ?case by (simp add: word_unat_eq_iff)
qed simp

lemma sgn_uuid_compare_value:
  "length u = 16 \<Longrightarrow> length v = 16 \<Longrightarrow> sgn (uuid_compare u v) = sgn (int (be_value u) - int (be_value v))"
  by (simp add: sgn_uuid_compare sgn_memcmp)

text \<open>Identifiers under \<open>uuid_compare\<close> are a linear order.\<close>

typedef uuid16 = "{u :: uuid_t. length u = 16}"
  by (rule exI [of _ "replicate 16 0"]) simp

setup_lifting type_definition_uuid16

instantiation uuid16 :: linorder
begin

lift_definition less_eq_uuid16 :: "uuid16 \<Rightarrow> uuid16 \<Rightarrow> bool" is "\<lambda>u v. uuid_compare u v \<le> 0" .
lift_definition less_uuid16 :: "uuid16 \<Rightarrow> uuid16 \<Rightarrow> bool" is "\<lambda>u v. uuid_compare u v < 0" .

instance
proof
  have le: "uuid_compare u v \<le> 0 \<longleftrightarrow> be_value u \<le> be_value v" "uuid_compare u v < 0 \<longleftrightarrow> be_value u < be_value v"
    if "length u = 16" "length v = 16" for u v
    using sgn_uuid_compare_value [OF that] by (auto simp: sgn_if split: if_splits)
  fix x y z :: uuid16
  show "(x < y) = (x \<le> y \<and> \<not> y \<le> x)" by transfer (auto simp: le)
  show "x \<le> x" by transfer (simp add: le)
  show "x \<le> y \<Longrightarrow> y \<le> z \<Longrightarrow> x \<le> z" by transfer (simp add: le)
  show "x \<le> y \<Longrightarrow> y \<le> x \<Longrightarrow> x = y" by transfer (simp add: le be_value_inj)
  show "x \<le> y \<or> y \<le> x" by transfer (auto simp: le)
qed

end

section \<open>Text round trips\<close>

lemma digit_of_hex_digit: "d < 16 \<Longrightarrow> digit_of (hex_digit upper d) = Some d"
  by (simp add: digit_of_def hex_digit_def of_char_of)

fun hex_fixed :: "bool \<Rightarrow> nat \<Rightarrow> nat \<Rightarrow> string" where
  "hex_fixed upper 0 n = []"
| "hex_fixed upper (Suc w) n = hex_fixed upper w (n div 16) @ [hex_digit upper (n mod 16)]"

lemma hex_digit_0: "hex_digit upper 0 = CHR ''0''"
  by (cases upper; simp only:; code_simp)

lemma hex_fixed_zero: "hex_fixed upper w 0 = replicate w (CHR ''0'')"
  by (induction w) (simp_all add: hex_digit_0 replicate_append_same)

lemma hex_fixed_length [simp]: "length (hex_fixed upper w n) = w"
  by (induction w arbitrary: n) auto

lemma format_hex_fixed: "n < 16 ^ w \<Longrightarrow> 0 < w \<Longrightarrow> format_hex upper w n = hex_fixed upper w n"
proof (induction w arbitrary: n)
  case (Suc w)
  show ?case
  proof (cases "n < 16")
    case True
    then show ?thesis by (simp add: format_hex_def hex_string.simps [of _ n] hex_fixed_zero)
  next
    case False
    then have "0 < w" using Suc.prems by (cases w) auto
    moreover have "n div 16 < 16 ^ w" using Suc.prems by (simp add: less_mult_imp_div_less mult.commute)
    ultimately have "format_hex upper w (n div 16) = hex_fixed upper w (n div 16)" using Suc.IH by blast
    with False show ?thesis by (simp add: format_hex_def hex_string.simps [of _ n])
  qed
qed simp

definition hexval :: "string \<Rightarrow> nat" where
  "hexval s = digits_value 16 (map (the \<circ> digit_of) s) 0"

lemma digits_value_append: "digits_value b (xs @ ys) a = digits_value b ys (digits_value b xs a)"
  by (simp add: digits_value_def)

lemma hexval_snoc: "hexval (s @ [c]) = hexval s * 16 + the (digit_of c)"
  by (simp add: hexval_def digits_value_append)

lemma hexval_fixed: "n < 16 ^ w \<Longrightarrow> hexval (hex_fixed upper w n) = n"
proof (induction w arbitrary: n)
  case 0
  then show ?case by (simp add: hexval_def)
next
  case (Suc w)
  then have "n div 16 < 16 ^ w" by (simp add: less_mult_imp_div_less mult.commute)
  with Suc.IH show ?case by (simp add: hexval_snoc digit_of_hex_digit)
qed

lemma hex_fixed_hexdigits: "c \<in> set (hex_fixed upper w n) \<Longrightarrow> is_hexdigit c"
  by (induction w arbitrary: n) (auto intro!: digit_of_hex [OF digit_of_hex_digit])

lemma hexdigit_digit_of: "is_hexdigit c \<Longrightarrow> \<exists>d<16. digit_of c = Some d"
  by (auto simp: is_hexdigit_def isdigit_def digit_of_def)

lemma hexval_lt: "\<forall>c\<in>set s. is_hexdigit c \<Longrightarrow> hexval s < 16 ^ length s"
proof (induction s rule: rev_induct)
  case Nil
  then show ?case by (simp add: hexval_def)
next
  case (snoc c s)
  then obtain d where "digit_of c = Some d" "d < 16" using hexdigit_digit_of [of c] by auto
  with snoc show ?case by (simp add: hexval_snoc)
qed

text \<open>\<open>strtoul\<close> on a group of hexadecimal digits that a character outside the digits ends.\<close>

lemma hex_value_group:
  assumes "s \<noteq> []" "\<forall>c\<in>set s. is_hexdigit c" "length s \<le> 8" and "t = NUL \<or> t = CHR ''-''" "NUL \<in> set (t # rest)"
  shows "hex_value (s @ t # rest) = Some (of_nat (hexval s))"
proof -
  let ?ds = "map (the \<circ> digit_of) s"
  have dig: "digit_of c = Some (the (digit_of c)) \<and> the (digit_of c) < 16" if "c \<in> set s" for c
    using hexdigit_digit_of [of c] assms(2) that by auto
  have "map digit_of s = map (\<lambda>c. Some (the (digit_of c))) s"
    by (rule map_cong [OF refl]) (use dig in blast)
  then have ds: "map digit_of s = map Some ?ds" "\<forall>d\<in>set ?ds. d < 16"
    using dig by auto
  have t: "stops 16 t" using assms(4) by (auto simp: stops_def digit_of_def NUL_def)
  have nohex: "\<not> is_hexdigit (CHR ''x'')" "\<not> is_hexdigit (CHR ''X'')"
    by (simp_all add: is_hexdigit_def isdigit_def)
  have nx: "x \<notin> {CHR ''x'', CHR ''X''}" if eq: "s @ t # rest = a # x # s'" for a x s'
  proof -
    have "x = t \<or> x \<in> set s" using eq assms(1) by (cases s; cases "tl s") auto
    then show ?thesis using nohex assms(2,4) by (auto simp: NUL_def)
  qed
  have "\<not> prefixed 16 (s @ t # rest)"
  proof
    assume "prefixed 16 (s @ t # rest)"
    then obtain x d s' where "s @ t # rest = CHR ''0'' # x # d # s'" "x \<in> {CHR ''x'', CHR ''X''}"
      by (auto simp: prefixed_def)
    with nx show False by blast
  qed
  then have "radix_text 16 [] 16 (s @ t # rest)" by (simp add: radix_text_def)
  then have "numeral_text 16 False 16 s ?ds t rest (s @ t # rest) (length s)"
    unfolding numeral_text_def using assms ds t
    by (intro conjI exI [of _ "[]"]) (auto simp: sign_text_def)
  moreover have "hexval s < 2 ^ 64"
    using hexval_lt [OF assms(2)] power_increasing [OF assms(3), of "16::nat"] by simp
  ultimately show ?thesis
    using strtoul_fits [of 16 False 16 s ?ds t rest _ "length s", where 'l = 64]
    by (simp add: hex_value_def hexval_def)
qed


lemma hex_fixed_append:
  "hex_fixed upper (a + b) n = hex_fixed upper a (n div 16 ^ b) @ hex_fixed upper b (n mod 16 ^ b)"
proof (induction b arbitrary: n)
  case (Suc b)
  have "n mod (16 * 16 ^ b) div 16 = n div 16 mod 16 ^ b" "n mod (16 * 16 ^ b) mod 16 = n mod 16"
    by (simp_all add: mod_mult2_eq)
  then show ?case using Suc [of "n div 16"] by (simp add: div_mult2_eq)
qed simp

lemma unat_lt_hex: "unat (w :: uint32) < 16 ^ 8" "unat (v :: uint16) < 16 ^ 4" "unat (b :: uint8) < 16 ^ 2"
  using unat_lt_pow [of w] unat_lt_pow [of v] unat_lt_pow [of b] by simp_all

lemma unparse_fixed:
  assumes "length u = 16"
  defines "U \<equiv> uuid_unpack u"
  shows "uuid_unparse_x u upper =
    hex_fixed upper 8 (unat (time_low U)) @ ''-'' @ hex_fixed upper 4 (unat (time_mid U)) @ ''-'' @
    hex_fixed upper 4 (unat (time_hi_and_version U)) @ ''-'' @ hex_fixed upper 4 (unat (uu_clock_seq U)) @ ''-'' @
    concat (map (\<lambda>b. hex_fixed upper 2 (unat b)) (uu_node U))"
proof -
  have len: "length (uu_node U) = 6" using length_node_unpack [OF assms(1)] by (simp add: U_def)
  have "map (\<lambda>i. format_hex upper 2 (unat (uu_node U ! i))) [0..<length (uu_node U)] =
      map (\<lambda>b. format_hex upper 2 (unat b)) (map ((!) (uu_node U)) [0..<length (uu_node U)])" by simp
  also have "\<dots> = map (\<lambda>b. format_hex upper 2 (unat b)) (uu_node U)" by (simp only: map_nth)
  also have "\<dots> = map (\<lambda>b. hex_fixed upper 2 (unat b)) (uu_node U)"
    by (intro map_cong refl format_hex_fixed unat_lt_hex) simp
  finally have nd: "map (\<lambda>i. format_hex upper 2 (unat (uu_node U ! i))) [0..<6] =
      map (\<lambda>b. hex_fixed upper 2 (unat b)) (uu_node U)" by (simp only: len)
  let ?q = "uu_clock_seq U"
  have "unat (drop_bit 8 ?q) = unat ?q div 16 ^ 2" by (simp add: drop_bit_eq_div unat_div)
  moreover have "?q AND 0xFF = ?q mod 256"
    using take_bit_eq_mask [of 8 ?q] by (simp add: mask_eq_exp_minus_1 take_bit_eq_mod)
  then have "unat (?q AND 0xFF) = unat ?q mod 16 ^ 2" by (simp add: unat_mod)
  moreover have "unat ?q div 16 ^ 2 < 16 ^ 2" using unat_lt_hex(2) [of ?q] by (simp add: less_mult_imp_div_less)
  ultimately have "format_hex upper 2 (unat (drop_bit 8 ?q)) @ format_hex upper 2 (unat (?q AND 0xFF)) =
      hex_fixed upper (2 + 2) (unat ?q)"
    unfolding hex_fixed_append by (simp add: format_hex_fixed)
  then show ?thesis
    using nd unat_lt_hex by (simp add: uuid_unparse_x_def U_def [symmetric] Let_def format_hex_fixed
        del: upt_rec_numeral hex_fixed.simps)
qed

text \<open>The accepted texts.\<close>

definition uuid_shape :: "string \<Rightarrow> string \<Rightarrow> string \<Rightarrow> string \<Rightarrow> string \<Rightarrow> string list \<Rightarrow> bool" where
  "uuid_shape s a b c d es \<longleftrightarrow>
     s = a @ ''-'' @ b @ ''-'' @ c @ ''-'' @ d @ ''-'' @ concat es \<and> length a = 8 \<and> length b = 4 \<and>
     length c = 4 \<and> length d = 4 \<and> length es = 6 \<and> (\<forall>e\<in>set es. length e = 2) \<and>
     (\<forall>x\<in>set (a @ b @ c @ d @ concat es). is_hexdigit x)"

lemma strlen_append: "NUL \<notin> set s \<Longrightarrow> strlen (s @ [NUL]) = Some (length s)"
  by (induction s) auto

lemma is_hexdigit_NUL: "\<not> is_hexdigit NUL" "\<not> is_hexdigit (CHR ''-'')"
  by (simp_all add: is_hexdigit_def isdigit_def NUL_def)

lemma length_concat_2: "\<forall>e\<in>set es. length e = 2 \<Longrightarrow> length (concat es) = 2 * length es"
  by (induction es) auto

lemma uuid_shape_length: "uuid_shape s a b c d es \<Longrightarrow> length s = 36"
  using length_concat_2 [of es] by (simp add: uuid_shape_def)

lemma parse_check_group:
  "\<forall>c\<in>set g. is_hexdigit c \<Longrightarrow> \<forall>j. i \<le> j \<and> j < i + length g \<longrightarrow> j \<notin> {8, 13, 18, 23} \<and> j < 36 \<Longrightarrow>
   parse_check i (g @ r) = parse_check (i + length g) r"
proof (induction g arbitrary: i)
  case (Cons c g)
  have "i \<notin> {8, 13, 18, 23} \<and> i < 36" using Cons.prems(2) by simp
  moreover have "parse_check (i + 1) (g @ r) = parse_check (i + 1 + length g) r"
    using Cons by (intro Cons.IH) auto
  ultimately show ?case using Cons.prems(1) is_hexdigit_NUL by auto
qed simp

lemma parse_check_shape:
  assumes "uuid_shape s a b c d es"
  shows "parse_check 0 (s @ [NUL]) = Some True"
proof -
  note sh = assms [unfolded uuid_shape_def]
  have le: "length (concat es) = 12" using sh length_concat_2 [of es] by simp
  have s: "s @ [NUL] = a @ CHR ''-'' # b @ CHR ''-'' # c @ CHR ''-'' # d @ CHR ''-'' # concat es @ [NUL]"
    using sh by simp
  have 1: "parse_check 0 (a @ CHR ''-'' # r) = parse_check 9 r" for r
    using sh by (subst parse_check_group) auto
  have 2: "parse_check 9 (b @ CHR ''-'' # r) = parse_check 14 r" for r
    using sh by (subst parse_check_group) auto
  have 3: "parse_check 14 (c @ CHR ''-'' # r) = parse_check 19 r" for r
    using sh by (subst parse_check_group) auto
  have 4: "parse_check 19 (d @ CHR ''-'' # r) = parse_check 24 r" for r
    using sh by (subst parse_check_group) auto
  have 5: "parse_check 24 (concat es @ [NUL]) = Some True"
    using sh le by (subst parse_check_group) auto
  show ?thesis unfolding s 1 2 3 4 5 ..
qed

lemma parse_node_groups:
  "\<forall>e\<in>set es. length e = 2 \<and> (\<forall>c\<in>set e. is_hexdigit c) \<Longrightarrow>
   parse_node (length es) (concat es @ r) = Some (map (\<lambda>e. of_nat (hexval e)) es)"
proof (induction es)
  case (Cons e es)
  then obtain x y where e: "e = [x, y]" by (auto simp: numeral_2_eq_2 length_Suc_conv)
  have "hex_value ([x, y] @ NUL # []) = Some (of_nat (hexval e))"
    unfolding e using Cons.prems e by (intro hex_value_group) auto
  then have "hex_value [x, y, NUL] = Some (of_nat (hexval e))" by simp
  moreover have "parse_node (length es) (concat es @ r) = Some (map (\<lambda>e. of_nat (hexval e)) es)"
    using Cons by auto
  moreover have "ucast (of_nat (hexval e) :: uint64) = (of_nat (hexval e) :: uint8)"
    by (simp add: unsigned_of_nat word_of_nat_eq_iff)
  ultimately show ?case by (simp add: e)
qed simp

definition shape_uuid :: "string \<Rightarrow> string \<Rightarrow> string \<Rightarrow> string \<Rightarrow> string list \<Rightarrow> uuid" where
  "shape_uuid a b c d es = \<lparr>time_low = of_nat (hexval a), time_mid = of_nat (hexval b),
     time_hi_and_version = of_nat (hexval c), uu_clock_seq = of_nat (hexval d),
     uu_node = map (\<lambda>e. of_nat (hexval e)) es\<rparr>"

lemma uuid_parse_shape:
  assumes "uuid_shape s a b c d es"
  shows "uuid_parse (s @ [NUL]) = Some (Some (uuid_pack (shape_uuid a b c d es)))"
proof -
  note sh = assms [unfolded uuid_shape_def]
  have le: "length (concat es) = 12" using sh length_concat_2 [of es] by simp
  have "\<forall>x\<in>set s. is_hexdigit x \<or> x = CHR ''-''" using sh by auto
  then have "NUL \<notin> set s" using is_hexdigit_NUL by (auto simp: NUL_def)
  moreover have "length s = 36" using sh le by simp
  ultimately have len: "strlen (s @ [NUL]) = Some 36" using strlen_append [of s] by metis
  let ?r4 = "concat es @ [NUL]"
  let ?r3 = "d @ CHR ''-'' # ?r4"
  let ?r2 = "c @ CHR ''-'' # ?r3"
  let ?r1 = "b @ CHR ''-'' # ?r2"
  have s: "s @ [NUL] = a @ CHR ''-'' # ?r1" using sh by simp
  have drops: "drop 9 (s @ [NUL]) = ?r1" "drop 14 (s @ [NUL]) = ?r2" "drop 19 (s @ [NUL]) = ?r3"
    "drop 24 (s @ [NUL]) = ?r4" unfolding s using sh by simp_all
  have v: "hex_value (s @ [NUL]) = Some (of_nat (hexval a))" "hex_value ?r1 = Some (of_nat (hexval b))"
    "hex_value ?r2 = Some (of_nat (hexval c))" "hex_value ?r3 = Some (of_nat (hexval d))"
    unfolding s using sh by (intro hex_value_group; force)+
  have n: "parse_node 6 ?r4 = Some (map (\<lambda>e. of_nat (hexval e)) es)"
    using parse_node_groups [of es "[NUL]"] sh by auto
  have cast: "ucast (of_nat m :: uint64) = (of_nat m :: uint32)" "ucast (of_nat m :: uint64) = (of_nat m :: uint16)" for m
    by (simp_all add: unsigned_of_nat word_of_nat_eq_iff)
  show ?thesis
    unfolding uuid_parse_def len parse_check_shape [OF assms] drops v n
    by (simp add: cast shape_uuid_def)
qed


lemma parse_check_total: "36 < i + length s \<Longrightarrow> parse_check i s \<noteq> None"
  by (induction i s rule: parse_check.induct) auto

lemma parse_check_chars:
  "parse_check i s = Some True \<Longrightarrow> j < length s \<Longrightarrow> i + j < 36 \<Longrightarrow>
   (if i + j \<in> {8, 13, 18, 23} then s ! j = CHR ''-'' else is_hexdigit (s ! j))"
proof (induction i s arbitrary: j rule: parse_check.induct)
  case (2 i c cp)
  show ?case
  proof (cases j)
    case 0
    with 2 show ?thesis by (auto split: if_splits)
  next
    case (Suc k)
    have "parse_check (i + 1) cp = Some True" using 2 by (auto split: if_splits)
    with 2 Suc show ?thesis by (cases "i \<in> {8, 13, 18, 23}") (auto split: if_splits)
  qed
qed simp

fun pairs :: "nat \<Rightarrow> 'a list \<Rightarrow> 'a list list" where
  "pairs 0 xs = []"
| "pairs (Suc n) xs = take 2 xs # pairs n (drop 2 xs)"

lemma pairs_props: "length xs = 2 * n \<Longrightarrow> concat (pairs n xs) = xs \<and> length (pairs n xs) = n \<and>
    (\<forall>e\<in>set (pairs n xs). length e = 2)"
proof (induction n arbitrary: xs)
  case (Suc n)
  from Suc.IH [of "drop 2 xs"] Suc.prems show ?case by auto
qed simp

lemma split_at: "i < length s \<Longrightarrow> s = take i s @ s ! i # drop (Suc i) s"
  by (simp add: id_take_nth_drop)

lemma checked_shape:
  assumes "length s = 36" "parse_check 0 (s @ [NUL]) = Some True"
  shows "\<exists>a b c d es. uuid_shape s a b c d es"
proof -
  have ch: "if j \<in> {8, 13, 18, 23} then s ! j = CHR ''-'' else is_hexdigit (s ! j)" if "j < 36" for j
  proof -
    have "(s @ [NUL]) ! j = s ! j" using that assms(1) by (simp add: nth_append)
    with parse_check_chars [OF assms(2), of j] that assms(1) show ?thesis by auto
  qed
  define a b c d e where "a = take 8 s" and "b = take 4 (drop 9 s)" and "c = take 4 (drop 14 s)"
    and "d = take 4 (drop 19 s)" and "e = drop 24 s"
  note parts = a_def b_def c_def d_def e_def
  have "drop 8 s = s ! 8 # drop 9 s" "drop 13 s = s ! 13 # drop 14 s" "drop 18 s = s ! 18 # drop 19 s"
    "drop 23 s = s ! 23 # drop 24 s" using assms(1) Cons_nth_drop_Suc by (simp_all add: Cons_nth_drop_Suc [symmetric])
  moreover have "s = take 8 s @ drop 8 s" "drop 9 s = take 4 (drop 9 s) @ drop 13 s"
    "drop 14 s = take 4 (drop 14 s) @ drop 18 s" "drop 19 s = take 4 (drop 19 s) @ drop 23 s"
    using append_take_drop_id [of 4 "drop 9 s"] append_take_drop_id [of 4 "drop 14 s"]
      append_take_drop_id [of 4 "drop 19 s"] by simp_all
  ultimately have s: "s = a @ ''-'' @ b @ ''-'' @ c @ ''-'' @ d @ ''-'' @ e"
    using ch [of 8] ch [of 13] ch [of 18] ch [of 23] unfolding parts by simp
  have len: "length a = 8" "length b = 4" "length c = 4" "length d = 4" "length e = 12"
    using assms(1) by (simp_all add: parts)
  have seg: "\<forall>x\<in>set (take n (drop i s)). is_hexdigit x"
    if "\<forall>j. i \<le> j \<and> j < i + n \<longrightarrow> j \<notin> {8, 13, 18, 23}" "i + n \<le> 36" for i n
  proof
    fix x assume "x \<in> set (take n (drop i s))"
    then obtain k where "k < n" "x = s ! (i + k)" using assms(1) by (auto simp: in_set_conv_nth)
    with ch [of "i + k"] that show "is_hexdigit x" by auto
  qed
  have "\<forall>x\<in>set (a @ b @ c @ d @ e). is_hexdigit x"
    using seg [of 0 8] seg [of 9 4] seg [of 14 4] seg [of 19 4] seg [of 24 12] assms(1)
    by (auto simp: parts)
  then have "uuid_shape s a b c d (pairs 6 e)"
    using s len pairs_props [of e 6] by (simp add: uuid_shape_def)
  then show ?thesis by blast
qed

definition to_lower :: "char \<Rightarrow> char" where
  "to_lower c = (if ord (CHR ''A'') \<le> ord c \<and> ord c \<le> ord (CHR ''Z'') then char_of (ord c + 32) else c)"

lemma hex_digit_lower: "is_hexdigit c \<Longrightarrow> hex_digit False (the (digit_of c)) = to_lower c"
  by (auto simp: is_hexdigit_def isdigit_def digit_of_def hex_digit_def to_lower_def)

lemma hex_fixed_hexval:
  "\<forall>c\<in>set s. is_hexdigit c \<Longrightarrow> hex_fixed False (length s) (hexval s) = map to_lower s"
proof (induction s rule: rev_induct)
  case (snoc c s)
  then obtain d where "digit_of c = Some d" "d < 16" using hexdigit_digit_of [of c] by auto
  with snoc hex_digit_lower [of c] show ?case by (simp add: hexval_snoc)
qed simp

lemma unat_hexval:
  assumes "\<forall>c\<in>set s. is_hexdigit c" and "16 ^ length s \<le> (2::nat) ^ LENGTH('l)"
  shows "unat (of_nat (hexval s) :: 'l::len word) = hexval s"
  using hexval_lt [OF assms(1)] assms(2) by (simp add: unat_of_nat)

lemma hex_fixed_word:
  assumes "\<forall>c\<in>set s. is_hexdigit c" and "length s = w" and "16 ^ w \<le> (2::nat) ^ LENGTH('l)"
  shows "hex_fixed False w (unat (of_nat (hexval s) :: 'l::len word)) = map to_lower s"
  using unat_hexval [of s, where 'l = 'l] hex_fixed_hexval [of s] assms by simp

lemma unparse_shape:
  assumes "uuid_shape s a b c d es"
  shows "uuid_unparse_x (uuid_pack (shape_uuid a b c d es)) False = map to_lower s"
proof -
  note sh = assms [unfolded uuid_shape_def]
  let ?U = "shape_uuid a b c d es"
  have n6: "length (uu_node ?U) = 6" using sh by (simp add: shape_uuid_def)
  have dash: "to_lower (CHR ''-'') = CHR ''-''" by (simp add: to_lower_def)
  have "hex_fixed False 2 (unat (of_nat (hexval e) :: uint8)) = map to_lower e" if "e \<in> set es" for e
    using sh that by (intro hex_fixed_word) auto
  then have node: "map (\<lambda>b. hex_fixed False 2 (unat b)) (map (\<lambda>e. of_nat (hexval e) :: uint8) es) =
      map (map to_lower) es" by simp
  have "hex_fixed False 8 (unat (of_nat (hexval a) :: uint32)) = map to_lower a"
    "hex_fixed False 4 (unat (of_nat (hexval b) :: uint16)) = map to_lower b"
    "hex_fixed False 4 (unat (of_nat (hexval c) :: uint16)) = map to_lower c"
    "hex_fixed False 4 (unat (of_nat (hexval d) :: uint16)) = map to_lower d"
    using sh by (intro hex_fixed_word; simp)+
  note fields = this
  have "map to_lower s = map to_lower a @ ''-'' @ map to_lower b @ ''-'' @ map to_lower c @ ''-'' @
      map to_lower d @ ''-'' @ concat (map (map to_lower) es)"
    using sh dash by (simp add: map_concat)
  then show ?thesis
    unfolding unparse_fixed [OF length_uuid_pack [OF n6]] uuid_unpack_pack [OF n6]
    unfolding shape_uuid_def uuid.select_convs fields node by simp
qed


lemma unparse_shape_fixed:
  assumes "length u = 16"
  defines "U \<equiv> uuid_unpack u"
  shows "uuid_shape (uuid_unparse_x u upper) (hex_fixed upper 8 (unat (time_low U)))
     (hex_fixed upper 4 (unat (time_mid U))) (hex_fixed upper 4 (unat (time_hi_and_version U)))
     (hex_fixed upper 4 (unat (uu_clock_seq U))) (map (\<lambda>b. hex_fixed upper 2 (unat b)) (uu_node U))"
  using length_node_unpack [OF assms(1)] hex_fixed_hexdigits
  unfolding uuid_shape_def U_def
  by (intro conjI unparse_fixed [OF assms(1)]) (auto simp del: hex_fixed.simps)

lemma uuid_parse_unparse:
  assumes "length u = 16"
  shows "uuid_parse (uuid_unparse_x u upper @ [NUL]) = Some (Some u)"
proof -
  let ?U = "uuid_unpack u"
  have "map (\<lambda>e. of_nat (hexval e) :: uint8) (map (\<lambda>b. hex_fixed upper 2 (unat b)) (uu_node ?U)) = uu_node ?U"
    by (simp add: o_def hexval_fixed [OF unat_lt_hex(3)] del: hex_fixed.simps)
  then have "shape_uuid (hex_fixed upper 8 (unat (time_low ?U)))
     (hex_fixed upper 4 (unat (time_mid ?U))) (hex_fixed upper 4 (unat (time_hi_and_version ?U)))
     (hex_fixed upper 4 (unat (uu_clock_seq ?U))) (map (\<lambda>b. hex_fixed upper 2 (unat b)) (uu_node ?U)) = ?U"
    by (simp add: shape_uuid_def hexval_fixed [OF unat_lt_hex(1)] hexval_fixed [OF unat_lt_hex(2)]
        del: hex_fixed.simps)
  then show ?thesis
    using uuid_parse_shape [OF unparse_shape_fixed [OF assms]] uuid_pack_unpack [OF assms] by simp
qed

section \<open>Time stamps\<close>

lemma bit_masks:
  "bit (4095 :: int) m \<longleftrightarrow> m < 12" "bit (4096 :: int) m \<longleftrightarrow> m = 12" "bit (15 :: int) m \<longleftrightarrow> m < 4"
  "bit (16383 :: int) m \<longleftrightarrow> m < 14" "bit (32768 :: int) m \<longleftrightarrow> m = 15" "bit (16384 :: int) m \<longleftrightarrow> m = 14"
proof -
  have "(4095 :: int) = mask 12" "(4096 :: int) = 2 ^ 12" "(15 :: int) = mask 4" "(16383 :: int) = mask 14"
    "(32768 :: int) = 2 ^ 15" "(16384 :: int) = 2 ^ 14"
    by (simp_all add: mask_eq_exp_minus_1)
  then show "bit (4095 :: int) m \<longleftrightarrow> m < 12" "bit (4096 :: int) m \<longleftrightarrow> m = 12" "bit (15 :: int) m \<longleftrightarrow> m < 4"
    "bit (16383 :: int) m \<longleftrightarrow> m < 14" "bit (32768 :: int) m \<longleftrightarrow> m = 15" "bit (16384 :: int) m \<longleftrightarrow> m = 14"
    by (simp_all only: bit_mask_iff bit_exp_iff possible_bit_def) auto
qed

lemma uuid_clock_stamp:
  assumes "length node = 6" and "unat reg < 2 ^ 60"
  shows "uuid_clock (stamp_time node (ucast (drop_bit 32 reg)) (ucast reg) seq) = reg"
proof -
  have "take_bit 60 (unat reg) = unat reg" using assms(2) by (simp add: take_bit_nat_eq_self)
  then have "\<not> bit (unat reg) n" if "60 \<le> n" for n using that by (metis bit_take_bit_iff not_le)
  then have top: "\<not> bit reg n" if "60 \<le> n" for n using that by (auto simp: bit_simps)
  show ?thesis
  proof (rule bit_word_eqI)
    fix n assume n: "n < LENGTH(64)"
    consider "n < 32" | m where "n = 32 + m" "m < 16" | m where "n = 48 + m" "m < 12" | "60 \<le> n"
    proof -
      have "n < 32 \<or> 32 \<le> n \<and> n < 48 \<or> 48 \<le> n \<and> n < 60 \<or> 60 \<le> n" by linarith
      then show ?thesis using that by (auto dest!: le_Suc_ex)
    qed
    then show "bit (uuid_clock (stamp_time node (ucast (drop_bit 32 reg)) (ucast reg) seq)) n = bit reg n"
      using assms(1) top
      by cases (auto simp: uuid_clock_def stamp_time_def uuid_unpack_pack Let_def bit_simps bit_masks)
  qed
qed


lemma dce_bits:
  fixes s :: uint16
  assumes "\<not> bit s 14"
  shows "(s OR 0x8000) AND 0x8000 \<noteq> 0" "(s OR 0x8000) AND 0x4000 = 0"
proof -
  have "bit ((s OR 0x8000) AND 0x8000) 15" by (simp add: bit_simps bit_masks)
  then show "(s OR 0x8000) AND 0x8000 \<noteq> 0" by auto
  show "(s OR 0x8000) AND 0x4000 = 0"
    using assms by (intro bit_word_eqI) (auto simp: bit_simps bit_masks)
qed

lemma stamp_type: "length node = 6 \<Longrightarrow> uuid_type (stamp_time node hi low seq) = 1"
  by (intro bit_word_eqI) (auto simp: uuid_type_def stamp_time_def uuid_unpack_pack bit_simps bit_masks)

lemma stamp_variant:
  "length node = 6 \<Longrightarrow> \<not> bit seq 14 \<Longrightarrow> uuid_variant (stamp_time node hi low seq) = UUID_VARIANT_DCE"
  using dce_bits [of seq] by (simp add: uuid_variant_def stamp_time_def uuid_unpack_pack Let_def)

text \<open>Ticks of 100 ns since the epoch, the number that a time stamp holds.\<close>

definition ticks :: "int \<Rightarrow> int \<Rightarrow> int \<Rightarrow> int" where
  "ticks sec usec adjustment = sec * 10000000 + usec * 10 + adjustment"

abbreviation epoch_offset :: int where "epoch_offset \<equiv> 0x01B21DD213814000"

lemma clock_reg_ticks: "clock_reg sec usec adj = of_int (ticks sec usec adj + epoch_offset)"
  by (simp add: clock_reg_def ticks_def push_bit_eq_mult algebra_simps)

lemma uint_of_int_range: "0 \<le> k \<Longrightarrow> k < 2 ^ 64 \<Longrightarrow> uint (of_int k :: uint64) = k"
  by (simp add: unsigned_of_int take_bit_int_eq_self)

lemma uint_clock_reg:
  assumes "0 \<le> ticks sec usec adj" "ticks sec usec adj + epoch_offset < 2 ^ 60"
  shows "uint (clock_reg sec usec adj) = ticks sec usec adj + epoch_offset"
  unfolding clock_reg_ticks using assms by (intro uint_of_int_range) simp_all

lemma uuid_time_clock:
  assumes "uuid_clock u = clock_reg sec usec adj" "0 \<le> sec" "0 \<le> usec" "usec < 1000000" "0 \<le> adj" "adj < 10"
    "ticks sec usec adj < 2 ^ 60"
  shows "uuid_time u = (of_int sec, of_int usec)"
proof -
  let ?t = "ticks sec usec adj"
  have t: "0 \<le> ?t" using assms by (simp add: ticks_def)
  have sec: "?t div 10000000 = sec" "?t mod 10000000 = usec * 10 + adj" "(usec * 10 + adj) div 10 = usec"
  proof -
    have e: "?t = (usec * 10 + adj) + sec * 10000000" by (simp add: ticks_def)
    have "0 \<le> usec * 10 + adj" "usec * 10 + adj < 10000000" using assms by linarith+
    then show "?t div 10000000 = sec" "?t mod 10000000 = usec * 10 + adj"
      unfolding e by (simp_all add: div_pos_pos_trivial mod_pos_pos_trivial)
    show "(usec * 10 + adj) div 10 = usec" using assms by simp
  qed
  have u: "uint (of_int ?t :: uint64) = ?t" using t assms(7) by (intro uint_of_int_range) simp_all
  have k: "uint (of_int (usec * 10 + adj) :: uint64) = usec * 10 + adj"
    using assms by (intro uint_of_int_range) simp_all
  have "(of_int ?t :: uint64) div 10000000 = of_int sec"
    unfolding word_div_def u by (simp add: sec)
  moreover have "(of_int ?t :: uint64) mod 10000000 = of_int (usec * 10 + adj)"
    unfolding word_mod_def u by (simp add: sec)
  moreover have "(of_int (usec * 10 + adj) :: uint64) div 10 = of_int usec"
    unfolding word_div_def k by (simp add: sec)
  moreover have "uuid_clock u - (push_bit 32 0x01B21DD2 + 0x13814000) = of_int ?t"
    by (simp add: assms(1) clock_reg_ticks push_bit_eq_mult)
  ultimately show ?thesis by (simp add: uuid_time_def Let_def del: of_int_add of_int_mult)
qed


text \<open>Whatever branch the loop leaves by, the last time is the reading it left with.\<close>

lemma clock_try_cases:
  assumes "clock_try st tvs = Some (st', sec, usec)"
  shows "(sec, usec) \<in> set tvs \<and> cs_last_sec st' = sec \<and> cs_last_usec st' = usec \<and>
    (cs_clock_seq st' = (cs_clock_seq st + 1) AND 0x3FFF \<and> cs_adjustment st' = 0 \<or>
     cs_clock_seq st' = cs_clock_seq st \<and>
       (sec = cs_last_sec st \<and> usec = cs_last_usec st \<and> cs_adjustment st < 10 \<and>
          cs_adjustment st' = cs_adjustment st + 1 \<or>
        (cs_last_sec st < sec \<or> cs_last_sec st = sec \<and> cs_last_usec st < usec) \<and> cs_adjustment st' = 0))"
  using assms
proof (induction st tvs rule: clock_try.induct)
  case (2 st s u tvs)
  show ?case
  proof (cases "s = cs_last_sec st \<and> u = cs_last_usec st \<and> 10 \<le> cs_adjustment st")
    case True
    then have "clock_try st tvs = Some (st', sec, usec)" using 2 by simp
    with 2(1) True show ?thesis by auto
  next
    case False
    then consider (behind) "s < cs_last_sec st \<or> s = cs_last_sec st \<and> u < cs_last_usec st"
      | (equal) "s = cs_last_sec st" "u = cs_last_usec st" "cs_adjustment st < 10"
      | (ahead) "cs_last_sec st < s \<or> cs_last_sec st = s \<and> cs_last_usec st < u" by linarith
    then show ?thesis
    proof cases
      case behind
      with 2(2) show ?thesis by auto
    next
      case equal
      with 2(2) show ?thesis by auto
    next
      case ahead
      then have "\<not> (s < cs_last_sec st \<or> s = cs_last_sec st \<and> u < cs_last_usec st)"
        "\<not> (s = cs_last_sec st \<and> u = cs_last_usec st)" by auto
      with 2(2) ahead show ?thesis by (simp only: clock_try.simps if_False) auto
    qed
  qed
qed simp

lemma ticks_less:
  assumes "sec < sec' \<or> sec = sec' \<and> usec < usec'" "0 \<le> usec'" "usec < 1000000" "adj \<le> 10"
  shows "ticks sec usec adj < ticks sec' usec' 0 \<or> adj = 10 \<and> ticks sec usec adj = ticks sec' usec' 0"
  using assms unfolding ticks_def by linarith

section \<open>The state of the clock\<close>

text \<open>
  What every call keeps, and what the initial state has: the adjustment is between 0 and 10, the
  microseconds are below a million and the clock sequence has fourteen bits.
\<close>

definition clock_ok :: "clock_state \<Rightarrow> bool" where
  "clock_ok st \<longleftrightarrow> 0 \<le> cs_adjustment st \<and> cs_adjustment st \<le> 10 \<and> 0 \<le> cs_last_sec st \<and>
     0 \<le> cs_last_usec st \<and> cs_last_usec st < 1000000 \<and> cs_clock_seq st AND 0x3FFF = cs_clock_seq st"

definition initial_clock :: clock_state where
  "initial_clock = \<lparr>cs_adjustment = 0, cs_last_sec = 0, cs_last_usec = 0, cs_clock_seq = 0\<rparr>"

text \<open>A reading of the time of day, from 1970 up to the year 5236, and a state file as the library writes it.\<close>

definition time_ok :: "int \<times> int \<Rightarrow> bool" where
  "time_ok tv \<longleftrightarrow> 0 < fst tv \<and> fst tv < 103072857660 \<and> 0 \<le> snd tv \<and> snd tv < 1000000"

fun stored_ok :: "(nat \<times> int \<times> int \<times> int) option \<Rightarrow> bool" where
  "stored_ok None \<longleftrightarrow> True"
| "stored_ok (Some (cl, tv1, tv2, a)) \<longleftrightarrow> 0 \<le> tv1 \<and> 0 \<le> tv2 \<and> tv2 < 1000000 \<and> 0 \<le> a \<and> a \<le> 10"

definition last_ticks :: "clock_state \<Rightarrow> int" where
  "last_ticks st = ticks (cs_last_sec st) (cs_last_usec st) (cs_adjustment st)"

text \<open>How many stamps a call takes.\<close>

definition batch :: "int option \<Rightarrow> int" where
  "batch num = (case num of None \<Rightarrow> 1 | Some n \<Rightarrow> max 1 n)"

lemma masked_twice: "(w AND 0x3FFF) AND 0x3FFF = (w AND 0x3FFF :: uint16)"
  by (simp add: and.assoc)

lemma bit_masked: "w AND 0x3FFF = (w :: uint16) \<Longrightarrow> \<not> bit w 14"
  by (drule arg_cong [of _ _ "\<lambda>w. bit w 14"]) (simp add: bit_simps bit_masks)

lemma clock_start:
  assumes "clock_ok st" "stored_ok stored" "time_ok now"
  shows "clock_ok (seed_clock rnd now (load_clock stored st))"
proof -
  have "clock_ok (load_clock stored st)"
    using assms(1,2) by (cases stored rule: stored_ok.cases) (simp_all add: load_clock_def clock_ok_def masked_twice)
  with assms(3) show ?thesis by (simp add: seed_clock_def clock_ok_def time_ok_def masked_twice)
qed

lemma clock_try_ok:
  assumes "clock_try st tvs = Some (st', sec, usec)" "clock_ok st" "\<forall>tv \<in> set tvs. time_ok tv"
  shows "clock_ok st' \<and> time_ok (sec, usec)"
proof -
  note c = clock_try_cases [OF assms(1)]
  then have t: "time_ok (sec, usec)" using assms(3) by blast
  with c assms(2) show ?thesis by (auto simp: clock_ok_def time_ok_def masked_twice)
qed

lemma ticks_carry:
  "u1 = q * 1000000 + r \<Longrightarrow> a = k * 10 + d \<Longrightarrow> u1 = u + k \<Longrightarrow> ticks (s + q) r d = ticks s u a"
  by (simp add: ticks_def)

text \<open>Reserving moves the last time on by the stamps that are taken beyond the first.\<close>

lemma reserve_clock_ok:
  assumes "clock_ok st"
  shows "clock_ok (reserve_clock num st) \<and> last_ticks (reserve_clock num st) = last_ticks st + (batch num - 1) \<and>
    cs_last_sec st \<le> cs_last_sec (reserve_clock num st) \<and>
    (batch num \<noteq> 1 \<longrightarrow> cs_adjustment (reserve_clock num st) < 10) \<and>
    (batch num = 1 \<longrightarrow> reserve_clock num st = st) \<and> cs_clock_seq (reserve_clock num st) = cs_clock_seq st"
proof (cases "\<exists>n. num = Some n \<and> 1 < n")
  case False
  then have "reserve_clock num st = st" "batch num = 1"
    by (auto simp: reserve_clock_def batch_def split: option.splits)
  with assms show ?thesis by simp
next
  case True
  then obtain n where n: "num = Some n" "1 < n" by blast
  let ?adj = "cs_adjustment st + (n - 1)"
  let ?usec = "cs_last_usec st + ?adj div 10"
  have p1: "0 \<le> ?adj" "0 \<le> cs_last_usec st" using assms n by (simp_all add: clock_ok_def)
  then have "0 \<le> ?adj div 10" by (simp only: pos_imp_zdiv_nonneg_iff)
  with p1 have p: "0 \<le> ?adj" "0 \<le> ?usec" by simp_all
  have r: "reserve_clock num st = st\<lparr>cs_adjustment := ?adj mod 10, cs_last_sec := cs_last_sec st + ?usec div 1000000,
      cs_last_usec := ?usec mod 1000000\<rparr>"
    using n p by (simp add: reserve_clock_def Let_def signed_divide_int_def signed_modulo_int_def sgn_if)
  have "ticks (cs_last_sec st + ?usec div 1000000) (?usec mod 1000000) (?adj mod 10) = ticks (cs_last_sec st) (cs_last_usec st) ?adj"
    by (rule ticks_carry [OF div_mult_mod_eq [symmetric] div_mult_mod_eq [symmetric]]) simp
  then have t: "last_ticks (reserve_clock num st) = last_ticks st + (n - 1)"
    unfolding r by (simp add: last_ticks_def) (simp add: ticks_def)
  have "0 \<le> ?usec div 1000000" using p(2) by (simp add: pos_imp_zdiv_nonneg_iff)
  moreover have "0 \<le> ?adj mod 10" "?adj mod 10 < 10" "0 \<le> ?usec mod 1000000" "?usec mod 1000000 < 1000000" by simp_all
  ultimately have "clock_ok (reserve_clock num st)" "cs_last_sec st \<le> cs_last_sec (reserve_clock num st)"
    "cs_adjustment (reserve_clock num st) < 10"
    using assms unfolding r by (auto simp: clock_ok_def)
  moreover have "cs_clock_seq (reserve_clock num st) = cs_clock_seq st" unfolding r by simp
  moreover have "batch num = n" using n by (simp add: batch_def)
  ultimately show ?thesis using t n(2) by simp
qed

text \<open>The stamp of a call as one number.\<close>

definition stamp_value :: "uint32 \<Rightarrow> uint32 \<Rightarrow> int" where
  "stamp_value hi low = uint hi * 2 ^ 32 + uint low"

lemma stamp_value_reg: "stamp_value (ucast (drop_bit 32 (reg :: uint64))) (ucast reg) = uint reg"
proof -
  have "uint reg < 2 ^ 64" using uint_lt2p [of reg] by simp
  then have "uint reg div 2 ^ 32 < 2 ^ 32" by simp
  moreover have "0 \<le> uint reg div 2 ^ 32" by (intro pos_imp_zdiv_nonneg_iff [THEN iffD2]) simp_all
  moreover have "uint (ucast (drop_bit 32 reg) :: uint32) = take_bit 32 (uint reg div 2 ^ 32)"
    using \<open>uint reg < 2 ^ 64\<close> by (simp add: unsigned_ucast_eq unsigned_drop_bit_eq drop_bit_eq_div [where 'a = int]
      take_bit_int_eq_self)
  ultimately have "uint (ucast (drop_bit 32 reg) :: uint32) = uint reg div 2 ^ 32"
    by (simp only: take_bit_int_eq_self)
  moreover have "uint (ucast reg :: uint32) = uint reg mod 2 ^ 32"
    by (simp add: unsigned_ucast_eq take_bit_eq_mod)
  ultimately show ?thesis by (simp only: stamp_value_def div_mult_mod_eq)
qed

lemma get_clock_ok:
  assumes "get_clock stored rnd now tvs num st = Some (st', hi, low, seq)"
    "clock_ok st" "stored_ok stored" "time_ok now" "\<forall>tv \<in> set tvs. time_ok tv"
  defines "st0 \<equiv> seed_clock rnd now (load_clock stored st)"
  shows "\<exists>sec usec adj. (sec, usec) \<in> set tvs \<and> 0 \<le> adj \<and> adj \<le> 10 \<and>
    hi = ucast (drop_bit 32 (clock_reg sec usec adj)) \<and> low = ucast (clock_reg sec usec adj) \<and>
    stamp_value hi low = ticks sec usec adj + epoch_offset \<and>
    last_ticks st' = ticks sec usec adj + (batch num - 1) \<and> (cs_adjustment st' = 10 \<longrightarrow> batch num = 1) \<and>
    (batch num = 1 \<longrightarrow> cs_adjustment st' = adj) \<and>
    seq = cs_clock_seq st' \<and> clock_ok st' \<and> 0 < cs_last_sec st' \<and>
    (seq = (cs_clock_seq st0 + 1) AND 0x3FFF \<or>
     seq = cs_clock_seq st0 \<and>
       (last_ticks st0 < ticks sec usec adj \<or> cs_adjustment st0 = 10 \<and> last_ticks st0 = ticks sec usec adj))"
proof -
  have st0: "clock_ok st0" unfolding st0_def using assms(2-4) by (rule clock_start)
  from assms(1) obtain st1 sec usec where c: "clock_try st0 tvs = Some (st1, sec, usec)"
    and out: "hi = ucast (drop_bit 32 (clock_reg sec usec (cs_adjustment st1)))"
      "low = ucast (clock_reg sec usec (cs_adjustment st1))" "st' = reserve_clock num st1" "seq = cs_clock_seq st'"
    by (auto simp: get_clock_def Let_def st0_def)
  note cases = clock_try_cases [OF c]
  let ?adj = "cs_adjustment st1"
  have st1: "clock_ok st1" "time_ok (sec, usec)" using clock_try_ok [OF c st0 assms(5)] by auto
  note r = reserve_clock_ok [OF st1(1), of num, folded out(3)]
  have l: "last_ticks st1 = ticks sec usec ?adj" using cases by (simp add: last_ticks_def)
  have adj: "0 \<le> ?adj" "?adj \<le> 10" using st1(1) by (simp_all add: clock_ok_def)
  have u: "uint (clock_reg sec usec ?adj) = ticks sec usec ?adj + epoch_offset"
    using st1(2) adj by (intro uint_clock_reg) (auto simp: ticks_def time_ok_def)
  have progress: "cs_clock_seq st1 = (cs_clock_seq st0 + 1) AND 0x3FFF \<or> cs_clock_seq st1 = cs_clock_seq st0 \<and>
      (last_ticks st0 < ticks sec usec ?adj \<or> cs_adjustment st0 = 10 \<and> last_ticks st0 = ticks sec usec ?adj)"
    using cases ticks_less [of "cs_last_sec st0" sec "cs_last_usec st0" usec "cs_adjustment st0"] st0 st1(2)
    by (auto simp: ticks_def last_ticks_def clock_ok_def time_ok_def)
  have v: "stamp_value hi low = ticks sec usec ?adj + epoch_offset"
    unfolding out(1,2) stamp_value_reg by (rule u)
  have last: "0 < cs_last_sec st'" using r cases st1(2) by (simp add: time_ok_def)
  have "(sec, usec) \<in> set tvs" using cases by blast
  moreover have "cs_adjustment st' = 10 \<longrightarrow> batch num = 1" "batch num = 1 \<longrightarrow> cs_adjustment st' = ?adj"
    using r by auto
  moreover have "last_ticks st' = ticks sec usec ?adj + (batch num - 1)" "clock_ok st'" using r l by simp_all
  moreover have "seq = (cs_clock_seq st0 + 1) AND 0x3FFF \<or> seq = cs_clock_seq st0 \<and>
      (last_ticks st0 < ticks sec usec ?adj \<or> cs_adjustment st0 = 10 \<and> last_ticks st0 = ticks sec usec ?adj)"
    using progress r out(4) by simp
  ultimately show ?thesis
    by (intro exI [of _ sec] exI [of _ usec] exI [of _ ?adj] conjI adj out(1,2,4) v last)
qed

section \<open>Properties\<close>

text \<open>
  C11: The text of an identifier parses back to it, in lower and in upper case.
\<close>

theorem uuid_text_roundtrip:
  assumes "length u = 16"
  shows "uuid_parse (uuid_unparse_lower u @ [NUL]) = Some (Some u) \<and>
    uuid_parse (uuid_unparse_upper u @ [NUL]) = Some (Some u)"
  using uuid_parse_unparse [OF assms] by (simp add: uuid_unparse_lower_def uuid_unparse_upper_def)

theorem uuid_text_roundtrip_witness:
  "uuid_parse (uuid_unparse_lower (map of_nat [0..<16]) @ [NUL]) = Some (Some (map of_nat [0..<16]))"
  using uuid_text_roundtrip [of "map of_nat [0..<16]"] by simp

text \<open>
  C12: \<open>uuid_parse\<close> accepts exactly the texts of the form 8-4-4-4-12 hexadecimal digits; the identifier
  it returns prints as the given text in lower case. It reads no byte behind the terminator.
\<close>

theorem uuid_parse_exact:
  assumes "NUL \<notin> set s"
  shows "(\<exists>u. uuid_parse (s @ [NUL]) = Some (Some u) \<and> length u = 16 \<and>
      uuid_unparse_lower u = map to_lower s \<and> (\<exists>a b c d es. uuid_shape s a b c d es)) \<or>
    (uuid_parse (s @ [NUL]) = Some None \<and> \<not> (\<exists>a b c d es. uuid_shape s a b c d es))"
proof (cases "\<exists>a b c d es. uuid_shape s a b c d es")
  case True
  then obtain a b c d es where sh: "uuid_shape s a b c d es" by blast
  let ?u = "uuid_pack (shape_uuid a b c d es)"
  have "length ?u = 16"
    using sh by (intro length_uuid_pack) (simp add: uuid_shape_def shape_uuid_def)
  with uuid_parse_shape [OF sh] unparse_shape [OF sh] True show ?thesis
    by (auto simp: uuid_unparse_lower_def)
next
  case False
  have "uuid_parse (s @ [NUL]) = Some None"
  proof (cases "length s = 36")
    case True
    then have "parse_check 0 (s @ [NUL]) = Some False"
      using False checked_shape [OF True] parse_check_total [of 0 "s @ [NUL]"]
      by (cases "parse_check 0 (s @ [NUL])") auto
    then show ?thesis using strlen_append [OF assms] True by (simp add: uuid_parse_def)
  qed (simp add: uuid_parse_def strlen_append [OF assms])
  with False show ?thesis by blast
qed

theorem uuid_parse_exact_witness:
  "uuid_parse (''not an identifier'' @ [NUL]) = Some None"
  using uuid_parse_exact [of "''not an identifier''"] by (auto simp: NUL_def dest: uuid_shape_length)

text \<open>
  C19: \<open>uuid_compare\<close>, which compares the unpacked fields, orders identifiers like \<^verbatim>\<open>memcmp\<close> orders
  their sixteen bytes; it is antisymmetric and 0 only on equal identifiers.
\<close>

theorem uuid_compare_bytes:
  assumes "length u = 16" "length v = 16"
  shows "sgn (uuid_compare u v) = sgn (memcmp u v 16) \<and> (uuid_compare u v = 0 \<longleftrightarrow> u = v) \<and>
    sgn (uuid_compare v u) = - sgn (uuid_compare u v)"
proof -
  note c = sgn_uuid_compare_value [OF assms] sgn_uuid_compare_value [OF assms(2,1)]
  have "uuid_compare u v = 0 \<longleftrightarrow> be_value u = be_value v" using c(1) by (metis sgn_0_0 diff_eq_eq add_0 of_nat_eq_iff)
  moreover have "be_value u = be_value v \<longleftrightarrow> u = v" using be_value_inj assms by auto
  moreover have "sgn (int (be_value v) - int (be_value u)) = - sgn (int (be_value u) - int (be_value v))"
    by (metis minus_diff_eq sgn_minus)
  ultimately show ?thesis using sgn_uuid_compare [OF assms] c by simp
qed

theorem uuid_compare_bytes_witness:
  "sgn (uuid_compare (replicate 16 0) (replicate 16 255)) = sgn (memcmp (replicate 16 0) (replicate 16 255) 16)"
  using uuid_compare_bytes [of "replicate 16 0" "replicate 16 255"] by simp

text \<open>
  C20: The time-based generator, from any state of the clock that satisfies \<open>clock_ok\<close> (the initial
  state does, and every call keeps it), with a state file whose fields are in the ranges the library
  writes and clock readings between 1970 and the year 5236: the identifier has type 1 and the DCE
  variant and holds the node, and \<open>uuid_time\<close> gives back the second and the microsecond of one of the
  readings, with one exception: when the call leaves the adjustment at its maximum 10, \<open>uuid_time\<close>
  gives the microsecond after the reading.
\<close>

theorem uuid_time_roundtrip:
  assumes "uuid_generate_time hw random stored rnd now tvs node_id st = Some (node, st', u)"
    and "clock_ok st" "stored_ok stored" "time_ok now" "\<forall>tv \<in> set tvs. time_ok tv"
    and "\<forall>n. node_id = Some n \<or> hw = Some n \<longrightarrow> length n = 6" "length random = 6"
  shows "clock_ok st' \<and> uuid_type u = 1 \<and> uuid_variant u = UUID_VARIANT_DCE \<and> node = Some (uu_node (uuid_unpack u)) \<and>
    (\<exists>(sec, usec) \<in> set tvs. \<exists>total. total = sec * 1000000 + usec + (if cs_adjustment st' = 10 then 1 else 0) \<and>
      uuid_time u = (of_int (total div 1000000), of_int (total mod 1000000)))"
proof -
  obtain nd hi low seq where n: "node = Some nd" "u = stamp_time nd hi low seq" "length nd = 6"
    and g: "get_clock stored rnd now tvs None st = Some (st', hi, low, seq)"
    using assms(1,6,7) by (auto simp: uuid_generate_time_def Let_def choose_node_def split: option.splits)
  from get_clock_ok [OF g assms(2-5)] obtain sec usec where
    c: "(sec, usec) \<in> set tvs" "0 \<le> cs_adjustment st'" "cs_adjustment st' \<le> 10"
      "hi = ucast (drop_bit 32 (clock_reg sec usec (cs_adjustment st')))"
      "low = ucast (clock_reg sec usec (cs_adjustment st'))" "seq = cs_clock_seq st'" "clock_ok st'"
    by (auto simp: batch_def)
  let ?reg = "clock_reg sec usec (cs_adjustment st')"
  have b: "0 < sec" "sec < 103072857660" "0 \<le> usec" "usec < 1000000"
    using c(1) assms(5) by (auto simp: time_ok_def)
  then have t: "0 \<le> ticks sec usec (cs_adjustment st')"
    "ticks sec usec (cs_adjustment st') + epoch_offset < 1152921504606846976"
    using c(2,3) unfolding ticks_def by linarith+
  then have "uint ?reg < 2 ^ 60" using uint_clock_reg by simp
  then have "int (unat ?reg) < int (2 ^ 60)" by simp
  then have "unat ?reg < 2 ^ 60" by (simp only: of_nat_less_iff)
  with n(3) have reg: "uuid_clock u = ?reg" unfolding n(2) c(4,5) by (intro uuid_clock_stamp)
  let ?total = "sec * 1000000 + usec + (if cs_adjustment st' = 10 then 1 else 0)"
  let ?s = "?total div 1000000" and ?u = "?total mod 1000000"
  let ?a = "if cs_adjustment st' = 10 then 0 else cs_adjustment st'"
  have d: "?s * 1000000 + ?u = ?total" by (rule div_mult_mod_eq)
  have m: "0 \<le> ?u" "?u < 1000000" by simp_all
  have "ticks ?s ?u ?a = (?s * 1000000 + ?u) * 10 + ?a" by (simp only: ticks_def) algebra
  also have "\<dots> = ticks sec usec (cs_adjustment st')" unfolding d by (simp add: ticks_def)
  finally have k: "ticks ?s ?u ?a = ticks sec usec (cs_adjustment st')" .
  have "0 \<le> ?s" using b by (intro pos_imp_zdiv_nonneg_iff [THEN iffD2]) simp_all
  then have "uuid_time u = (of_int ?s, of_int ?u)"
    using m c(2,3) t k reg by (intro uuid_time_clock [where adj = ?a]) (auto simp: clock_reg_ticks simp del: of_int_add of_int_mult)
  moreover have "\<not> bit seq 14" using c(6,7) by (metis bit_masked clock_ok_def)
  ultimately show ?thesis
    using c n stamp_type [OF n(3)] stamp_variant [OF n(3)] by (auto simp: stamp_time_def uuid_unpack_pack)
qed

theorem uuid_time_roundtrip_witness:
  "uuid_time (snd (snd (the (uuid_generate_time None (replicate 6 1) None 0 (1000, 5) [(1000, 6)] None initial_clock)))) = (1000, 6)"
proof -
  have g: "uuid_generate_time None (replicate 6 1) None 0 (1000, 5) [(1000, 6)] None initial_clock =
      Some (Some (choose_node None (replicate 6 1)),
        \<lparr>cs_adjustment = 0, cs_last_sec = 1000, cs_last_usec = 6, cs_clock_seq = 0\<rparr>,
        stamp_time (choose_node None (replicate 6 1)) (ucast (drop_bit 32 (clock_reg 1000 6 0))) (ucast (clock_reg 1000 6 0)) 0)"
    by (simp add: uuid_generate_time_def get_clock_def Let_def reserve_clock_def seed_clock_def load_clock_def initial_clock_def)
  from uuid_time_roundtrip [OF g] show ?thesis
    unfolding g by (auto simp: clock_ok_def initial_clock_def time_ok_def)
qed









definition sample_clock :: clock_state where
  "sample_clock = \<lparr>cs_adjustment = 9, cs_last_sec = 1000, cs_last_usec = 5, cs_clock_seq = 7\<rparr>"


text \<open>The exception happens: after a stamp with adjustment 10 the next microsecond gives the same stamp.\<close>

lemma get_clock_duplicate:
  "\<exists>st1 st2 hi low seq.
     get_clock None 0 (0, 0) [(1000, 5)] None sample_clock = Some (st1, hi, low, seq) \<and>
     get_clock None 0 (0, 0) [(1000, 6)] None st1 = Some (st2, hi, low, seq)"
  by (simp add: get_clock_def Let_def reserve_clock_def seed_clock_def load_clock_def sample_clock_def
      clock_reg_def)

end
