(* ===== verification/Inet.thy ===== *)
theory Inet
  imports StrToInt
begin

text \<open>
  \<^verbatim>\<open>src/system/kernel/util/inet_addr.c\<close> and \<^verbatim>\<open>inet_ntop.c\<close>: reading and printing of internet addresses.
  An address is the list of its bytes in memory, that is in network order. A string under the
  reader is the current character and the list of those behind it up to the terminator; \<open>None\<close>
  is a read past the terminator or an access outside of an array.
\<close>

section \<open>Reading\<close>


definition islower :: "char \<Rightarrow> bool" where
  "islower c \<longleftrightarrow> ord (CHR ''a'') \<le> ord c \<and> ord c \<le> ord (CHR ''z'')"

text \<open>The loop over the digits of one part; the inner \<open>None\<close> is the \<^verbatim>\<open>return (0)\<close> on an octal 8 or 9.\<close>

fun aton_digits ::
    "nat \<Rightarrow> uint64 \<Rightarrow> bool \<Rightarrow> char \<Rightarrow> string \<Rightarrow> (uint64 \<times> bool \<times> char \<times> string) option option" where
  "aton_digits base val digit c s =
     (if isdigit c then
        (if base = 8 \<and> (c = CHR ''8'' \<or> c = CHR ''9'') then Some None
         else case s of [] \<Rightarrow> None
              | c' # s' \<Rightarrow> aton_digits base (val * of_nat base + of_nat (ord c - ord (CHR ''0''))) True c' s')
      else if base = 16 \<and> is_hexdigit c then
        (case s of [] \<Rightarrow> None
         | c' # s' \<Rightarrow>
             aton_digits base
               (push_bit 4 val OR of_nat (ord c + 10 - ord (if islower c then CHR ''a'' else CHR ''A'')))
               True c' s')
      else Some (Some (val, digit, c, s)))"

declare aton_digits.simps [simp del]

text \<open>The radix of a part, with the digit flag that a leading zero sets.\<close>

definition aton_base :: "char \<Rightarrow> string \<Rightarrow> (nat \<times> bool \<times> char \<times> string) option" where
  "aton_base c s =
     (if c = CHR ''0'' then
        Option.bind (fetch s) (\<lambda>(c1, s1).
          if c1 = CHR ''x'' \<or> c1 = CHR ''X''
          then map_option (\<lambda>(c2, s2). (16, False, c2, s2)) (fetch s1)
          else Some (8, True, c1, s1))
      else Some (10, False, c, s))"

text \<open>Characters are only consumed, which ends the loop over the parts.\<close>

lemma aton_digits_shorter:
  "aton_digits base val digit c s = Some (Some (v, d, c', s')) \<Longrightarrow> length s' \<le> length s"
proof (induction s arbitrary: base val digit c)
  case (Cons x xs)
  from Cons.prems show ?case
    by (subst (asm) aton_digits.simps) (auto split: if_splits dest!: Cons.IH)
qed (subst (asm) aton_digits.simps, auto split: if_splits)

lemma aton_base_shorter: "aton_base c s = Some (b, d, c', s') \<Longrightarrow> length s' \<le> length s"
  by (cases s rule: fetch.cases; cases "tl s" rule: fetch.cases) (auto simp: aton_base_def split: if_splits)

lemma fetch_shorter: "fetch s = Some (c, s') \<Longrightarrow> length s' < length s"
  by (cases s) auto

text \<open>
  The outer loop, with the array \<^verbatim>\<open>parts\<close>, whose elements are unset at first, and the index of \<^verbatim>\<open>pp\<close> in
  it. The inner \<open>None\<close> is a \<^verbatim>\<open>return (0)\<close>; a write behind the array is \<open>None\<close>.
\<close>

function aton_parts ::
    "nat \<Rightarrow> uint8 option list \<Rightarrow> char \<Rightarrow> string \<Rightarrow>
     (nat \<times> uint8 option list \<times> uint64 \<times> bool \<times> char) option option" where
  "aton_parts pp parts c s =
     (if \<not> isdigit c then Some None
      else
        case aton_base c s of
          None \<Rightarrow> None
        | Some (base, digit, c1, s1) \<Rightarrow>
        (case aton_digits base 0 digit c1 s1 of
           None \<Rightarrow> None
         | Some None \<Rightarrow> Some None
         | Some (Some (val, digit', c2, s2)) \<Rightarrow>
             if c2 = CHR ''.'' then
               (if pp \<ge> 3 \<or> val > 0xFF then Some None
                else if pp \<ge> length parts then None
                else
                  (case fetch s2 of
                     None \<Rightarrow> None
                   | Some (c3, s3) \<Rightarrow> aton_parts (pp + 1) (parts[pp := Some (ucast val)]) c3 s3))
             else Some (Some (pp, parts, val, digit', c2))))"
  by pat_completeness auto
termination
  by (relation "measure (\<lambda>(pp, parts, c, s). length s)")
    (auto dest!: aton_base_shorter aton_digits_shorter fetch_shorter)

declare aton_parts.simps [simp del]

text \<open>Reading a part that is not in the array, or was never written, is \<open>None\<close>.\<close>

definition part_at :: "uint8 option list \<Rightarrow> nat \<Rightarrow> nat \<Rightarrow> uint64 option" where
  "part_at parts i sh =
     (if i < length parts then map_option (\<lambda>b. push_bit sh (ucast b)) (parts ! i) else None)"

definition aton_concoct :: "nat \<Rightarrow> uint8 option list \<Rightarrow> uint64 \<Rightarrow> uint64 option option" where
  "aton_concoct pp parts val =
     (if pp + 1 = 2 then
        (if val > 0xFFFFFF then Some None
         else map_option (\<lambda>p0. Some (val OR p0)) (part_at parts 0 24))
      else if pp + 1 = 3 then
        (if val > 0xFFFF then Some None
         else
           Option.bind (part_at parts 0 24) (\<lambda>p0.
           map_option (\<lambda>p1. Some (val OR (p0 OR p1))) (part_at parts 1 16)))
      else if pp + 1 = 4 then
        (if val > 0xFF then Some None
         else
           Option.bind (part_at parts 0 24) (\<lambda>p0.
           Option.bind (part_at parts 1 16) (\<lambda>p1.
           map_option (\<lambda>p2. Some (val OR (p0 OR p1 OR p2))) (part_at parts 2 8))))
      else Some (Some val))"

text \<open>The bytes that \<^verbatim>\<open>htonl\<close> of the low 32 bits leaves in memory.\<close>

definition htonl_bytes :: "uint64 \<Rightarrow> uint8 list" where
  "htonl_bytes val = [ucast (drop_bit 24 val), ucast (drop_bit 16 val), ucast (drop_bit 8 val), ucast val]"

definition inet_aton :: "string \<Rightarrow> uint8 list option option" where
  "inet_aton cp =
     Option.bind (fetch cp) (\<lambda>(c, s).
     Option.bind (aton_parts 0 (replicate 4 None) c s) (\<lambda>r.
       case r of
         None \<Rightarrow> Some None
       | Some (pp, parts, val, digit, c') \<Rightarrow>
           if c' \<noteq> NUL \<and> (128 \<le> ord c' \<or> \<not> isspace c') then Some None
           else if \<not> digit then Some None
           else map_option (map_option htonl_bytes) (aton_concoct pp parts val)))"

definition inet_addr :: "string \<Rightarrow> uint8 list option" where
  "inet_addr cp =
     map_option (\<lambda>r. case r of Some val \<Rightarrow> val | None \<Rightarrow> [0xFF, 0xFF, 0xFF, 0xFF]) (inet_aton cp)"

section \<open>Printing\<close>

text \<open>\<^verbatim>\<open>%u\<close> and \<^verbatim>\<open>%x\<close>: the digits of a number in a base up to 16.\<close>

definition print_digit :: "nat \<Rightarrow> char" where
  "print_digit d = char_of (if d < 10 then 48 + d else 87 + d)"

fun print_nat :: "nat \<Rightarrow> nat \<Rightarrow> string" where
  "print_nat b n =
     (if n < b \<or> b < 2 then [print_digit n] else print_nat b (n div b) @ [print_digit (n mod b)])"

declare print_nat.simps [simp del]

definition dotted :: "uint8 list \<Rightarrow> string" where
  "dotted src = print_nat 10 (unat (src ! 0)) @ ''.'' @ print_nat 10 (unat (src ! 1)) @ ''.'' @
     print_nat 10 (unat (src ! 2)) @ ''.'' @ print_nat 10 (unat (src ! 3))"

definition inet_ntop4 :: "uint8 list \<Rightarrow> nat \<Rightarrow> status_t + string" where
  "inet_ntop4 src sz =
     (let tmp = dotted src in if length tmp \<ge> sz then Inl ENOSPC else Inr tmp)"

definition ntop6_words :: "uint8 list \<Rightarrow> uint32 list" where
  "ntop6_words src =
     fold (\<lambda>i w. w[i div 2 := (w ! (i div 2)) OR push_bit ((1 - i mod 2) * 8) (ucast (src ! i))])
       [0..<16] (replicate 8 0)"

text \<open>The search for the longest run of zeros. A run is its base (-1 for none) and its length.\<close>

type_synonym run = "int \<times> int"

definition take_longer :: "run \<Rightarrow> run \<Rightarrow> run" where
  "take_longer cur best =
     (if fst cur \<noteq> - 1 then if fst best = - 1 \<or> snd cur > snd best then cur else best else best)"

fun scan_zero_runs :: "int \<Rightarrow> uint32 list \<Rightarrow> run \<Rightarrow> run \<Rightarrow> run \<times> run" where
  "scan_zero_runs i [] best cur = (best, cur)"
| "scan_zero_runs i (w # ws) best cur =
     (if w = 0 then
        scan_zero_runs (i + 1) ws best (if fst cur = - 1 then (i, 1) else (fst cur, snd cur + 1))
      else if fst cur \<noteq> - 1 then scan_zero_runs (i + 1) ws (take_longer cur best) (- 1, snd cur)
      else scan_zero_runs (i + 1) ws best cur)"

definition best_zero_run :: "uint32 list \<Rightarrow> run" where
  "best_zero_run ws =
     (let (best, cur) = scan_zero_runs 0 ws (- 1, 0) (- 1, 0);
          best' = take_longer cur best
      in if fst best' \<noteq> - 1 \<and> snd best' < 2 then (- 1, snd best') else best')"

text \<open>
  The formatting loop, from word \<open>i\<close> on, with \<open>k\<close> words left; \<open>tp\<close> is the text so far in the
  46-byte buffer. A failure of the embedded \<open>inet_ntop4\<close> is \<open>None\<close>.
\<close>

definition embeds_ipv4 :: "uint32 list \<Rightarrow> run \<Rightarrow> bool" where
  "embeds_ipv4 ws best \<longleftrightarrow> fst best = 0 \<and> (snd best = 6 \<or> (snd best = 7 \<and> ws ! 7 \<noteq> 1) \<or>
     (snd best = 5 \<and> ws ! 5 = 0xFFFF))"

fun ntop6_loop :: "uint8 list \<Rightarrow> uint32 list \<Rightarrow> run \<Rightarrow> nat \<Rightarrow> nat \<Rightarrow> string \<Rightarrow> (status_t + string)" where
  "ntop6_loop src ws best i 0 tp = Inr tp"
| "ntop6_loop src ws best i (Suc k) tp =
     (if fst best \<noteq> - 1 \<and> int i \<ge> fst best \<and> int i < fst best + snd best then
        ntop6_loop src ws best (i + 1) k (if int i = fst best then tp @ '':'' else tp)
      else
        (let tp1 = (if i \<noteq> 0 then tp @ '':'' else tp) in
         if i = 6 \<and> embeds_ipv4 ws best then
           (case inet_ntop4 (drop 12 src) (46 - length tp1) of
              Inl e \<Rightarrow> Inl e
            | Inr t \<Rightarrow> Inr (tp1 @ t))
         else ntop6_loop src ws best (i + 1) k (tp1 @ print_nat 16 (unat (ws ! i)))))"

definition inet_ntop6 :: "uint8 list \<Rightarrow> nat \<Rightarrow> status_t + string" where
  "inet_ntop6 src sz =
     (let ws = ntop6_words src; best = best_zero_run ws in
      case ntop6_loop src ws best 0 8 [] of
        Inl e \<Rightarrow> Inl e
      | Inr tp \<Rightarrow>
          (let tp1 = (if fst best \<noteq> - 1 \<and> fst best + snd best = 8 then tp @ '':'' else tp) in
           if length tp1 + 1 > sz then Inl ENOSPC else Inr tp1))"

datatype address_family = AF_INET | AF_INET6 | AF_OTHER int

definition inet_ntop :: "address_family \<Rightarrow> uint8 list \<Rightarrow> nat \<Rightarrow> status_t + string" where
  "inet_ntop af src sz =
     (case af of AF_INET \<Rightarrow> inet_ntop4 src sz | AF_INET6 \<Rightarrow> inet_ntop6 src sz
      | AF_OTHER _ \<Rightarrow> Inl EAFNOSUPPORT)"

section \<open>Decimal numbers\<close>

lemma print_digit_isdigit: "d < 10 \<Longrightarrow> isdigit (print_digit d) \<and> ord (print_digit d) - 48 = d"
  by (auto simp: print_digit_def isdigit_def of_char_of)

lemma print_nat_digits: "c \<in> set (print_nat 10 n) \<Longrightarrow> isdigit c"
  by (induction "10::nat" n rule: print_nat.induct)
    (subst (asm) (2) print_nat.simps, auto simp: print_digit_isdigit split: if_splits)

lemma aton_digits_step:
  "isdigit c \<Longrightarrow> aton_digits 10 v dg c (c' # s') =
     aton_digits 10 (v * 10 + of_nat (ord c - 48)) True c' s'"
  by (subst aton_digits.simps) simp

lemma aton_digits_append:
  assumes "\<forall>c\<in>set cs. isdigit c"
  shows "\<not> isdigit t \<Longrightarrow> c # s = cs @ t # rest \<Longrightarrow>
    aton_digits 10 v dg c s =
      Some (Some (foldl (\<lambda>v c. v * 10 + of_nat (ord c - 48)) v cs, dg \<or> cs \<noteq> [], t, rest))"
  using assms
proof (induction cs arbitrary: v dg c s)
  case Nil
  then show ?case by (simp add: aton_digits.simps)
next
  case (Cons x xs)
  then obtain c' s' where s: "s = c' # s'" "c' # s' = xs @ t # rest" by (cases xs) auto
  have c: "c = x" "isdigit x" "\<forall>c\<in>set xs. isdigit c" using Cons.prems by auto
  have "aton_digits 10 v dg c s = aton_digits 10 (v * 10 + of_nat (ord x - 48)) True c' s'"
    unfolding s(1) c(1) using c(2) by (rule aton_digits_step)
  with Cons.IH [OF Cons.prems(1) s(2) c(3)] show ?case by simp
qed

lemma print_nat_value:
  "foldl (\<lambda>v c. v * 10 + of_nat (ord c - 48)) 0 (print_nat 10 n) = (of_nat n :: uint64)"
proof (induction "10::nat" n rule: print_nat.induct)
  case (1 n)
  show ?case
  proof (cases "n < 10")
    case True
    then show ?thesis by (simp add: print_nat.simps [of 10 n] print_digit_isdigit)
  next
    case False
    have "of_nat (n div 10) * 10 + of_nat (n mod 10) = (of_nat (n div 10 * 10 + n mod 10) :: uint64)"
      by (simp only: of_nat_add of_nat_mult of_nat_numeral)
    with False 1 show ?thesis
      by (subst print_nat.simps) (simp add: print_digit_isdigit)
  qed
qed


lemma print_digit_0: "print_digit 0 = CHR ''0''"
  by code_simp

lemma print_nat_leading: "0 < n \<Longrightarrow> \<exists>d xs. print_nat 10 n = print_digit d # xs \<and> 0 < d \<and> d < 10"
proof (induction "10::nat" n rule: print_nat.induct)
  case (1 n)
  show ?case
  proof (cases "n < 10")
    case True
    then show ?thesis using 1 by (auto simp: print_nat.simps [of 10 n])
  next
    case False
    then have "\<exists>d xs. print_nat 10 (n div 10) = print_digit d # xs \<and> 0 < d \<and> d < 10"
      using 1 by auto
    with False show ?thesis by (subst print_nat.simps) auto
  qed
qed

lemma print_digit_nonzero: "0 < d \<Longrightarrow> d < 10 \<Longrightarrow> print_digit d \<noteq> CHR ''0''"
proof
  assume d: "0 < d" "d < 10" and "print_digit d = CHR ''0''"
  then have "ord (print_digit d) = 48" by simp
  with d show False by (simp add: print_digit_def of_char_of)
qed

text \<open>One part of a dotted address.\<close>

lemma aton_part:
  assumes "\<not> isdigit t" "t \<noteq> CHR ''x''" "t \<noteq> CHR ''X''" and cs: "c # s = print_nat 10 n @ t # rest"
  shows "isdigit c \<and> Option.bind (aton_base c s) (\<lambda>(base, digit, c1, s1). aton_digits base 0 digit c1 s1) =
    Some (Some (of_nat n, True, t, rest))"
proof (cases "n = 0")
  case True
  then have "c = CHR ''0''" "s = t # rest"
    using cs by (auto simp: print_nat.simps [of 10 0] print_digit_0)
  with assms(1-3) show ?thesis
    by (auto simp: aton_base_def isdigit_def True aton_digits.simps [of 8])
next
  case False
  then obtain d xs where d: "print_nat 10 n = print_digit d # xs" "0 < d" "d < 10"
    using print_nat_leading [of n] by blast
  then have c: "c = print_digit d" using cs by simp
  have "\<forall>c\<in>set (print_nat 10 n). isdigit c" using print_nat_digits by blast
  from aton_digits_append [OF this assms(1) cs, of 0 False] print_nat_value [of n] d(1)
  have "aton_digits 10 0 False c s = Some (Some (of_nat n, True, t, rest))" by simp
  with c d print_digit_nonzero [OF d(2,3)] print_digit_isdigit [OF d(3)] show ?thesis
    by (simp add: aton_base_def)
qed

lemma aton_parts_more:
  assumes "n < 256" "c # s = print_nat 10 n @ CHR ''.'' # c3 # s3" "pp < 3" "pp < length parts"
  shows "aton_parts pp parts c s = aton_parts (pp + 1) (parts[pp := Some (of_nat n)]) c3 s3"
proof -
  have v: "unat (of_nat n :: uint64) = n" using assms(1) by (simp add: unat_of_nat)
  then have "\<not> (of_nat n :: uint64) > 0xFF" using assms(1) by (simp add: word_less_unat)
  moreover have "(ucast (of_nat n :: uint64) :: uint8) = of_nat n"
    by (simp add: unsigned_of_nat word_of_nat_eq_iff)
  moreover have "isdigit c \<and> Option.bind (aton_base c s) (\<lambda>(base, digit, c1, s1). aton_digits base 0 digit c1 s1) =
      Some (Some (of_nat n, True, CHR ''.'', c3 # s3))"
    using assms(2) by (intro aton_part) (simp_all add: isdigit_def)
  ultimately show ?thesis
    using assms(3,4) by (subst aton_parts.simps) (auto simp: bind_eq_Some_conv)
qed

lemma aton_parts_last:
  assumes "c # s = print_nat 10 n @ [NUL]"
  shows "aton_parts pp parts c s = Some (Some (pp, parts, of_nat n, True, NUL))"
proof -
  have "isdigit c \<and> Option.bind (aton_base c s) (\<lambda>(base, digit, c1, s1). aton_digits base 0 digit c1 s1) =
      Some (Some (of_nat n, True, NUL, []))"
    using assms by (intro aton_part) (simp_all add: isdigit_def NUL_def)
  then show ?thesis
    by (subst aton_parts.simps) (auto simp: bind_eq_Some_conv NUL_def)
qed

lemma concoct_bytes:
  "map_option (map_option htonl_bytes) (aton_concoct 3 [Some a, Some b, Some c, x] (ucast d)) =
     Some (Some [a, b, c, d :: uint8])"
proof -
  have "unat d < 256" using unat_lt_pow [of d] by simp
  then have "unat (ucast d :: uint64) < 256" by (simp add: unsigned_ucast_eq take_bit_nat_eq_self)
  then have "\<not> (ucast d :: uint64) > 0xFF" by (simp add: word_less_unat)
  then have "aton_concoct 3 [Some a, Some b, Some c, x] (ucast d) =
      Some (Some (ucast d OR (push_bit 24 (ucast a) OR push_bit 16 (ucast b) OR push_bit 8 (ucast c))))"
    by (simp add: aton_concoct_def part_at_def)
  moreover have "htonl_bytes (ucast d OR (push_bit 24 (ucast a) OR push_bit 16 (ucast b) OR push_bit 8 (ucast c))) = [a, b, c, d]"
    unfolding htonl_bytes_def list.inject
    by (intro conjI refl bit_word_eqI; auto simp: bit_simps dest: bit_imp_le_length)
  ultimately show ?thesis by simp
qed

lemma print_byte_length: "n < 256 \<Longrightarrow> length (print_nat 10 n) \<le> 3 \<and> 0 < length (print_nat 10 n)"
  by (simp add: print_nat.simps [of 10 n] print_nat.simps [of 10 "n div 10"] print_nat.simps [of 10 "n div 10 div 10"])

lemma list4: "length a = 4 \<Longrightarrow> a = [a ! 0, a ! 1, a ! 2, a ! 3]"
  by (auto simp: numeral_eq_Suc length_Suc_conv)

lemma length_dotted: "length (dotted a) \<le> 15"
proof -
  have "unat (a ! i) < 256" for i using unat_lt_pow [of "a ! i"] by simp
  with print_byte_length [of "unat (a ! 0)"] print_byte_length [of "unat (a ! 1)"]
    print_byte_length [of "unat (a ! 2)"] print_byte_length [of "unat (a ! 3)"]
  show ?thesis by (simp add: dotted_def)
qed

lemma aton_dotted:
  assumes "length a = 4"
  shows "inet_aton (dotted a @ [NUL]) = Some (Some a)"
proof -
  let ?p = "\<lambda>i. print_nat 10 (unat (a ! i))"
  have b: "unat (a ! i) < 256" for i using unat_lt_pow [of "a ! i"] by simp
  have ne: "?p i \<noteq> []" for i using print_byte_length [OF b [of i]] by auto
  have cons: "\<exists>c s. c # s = ?p i @ y" for i y using ne [of i] by (cases "?p i") auto
  from cons [of 3] obtain c3 s3 where s3: "c3 # s3 = ?p 3 @ [NUL]" by blast
  from cons [of 2] obtain c2 s2 where s2: "c2 # s2 = ?p 2 @ CHR ''.'' # c3 # s3" by blast
  from cons [of 1] obtain c1 s1 where s1: "c1 # s1 = ?p 1 @ CHR ''.'' # c2 # s2" by blast
  from cons [of 0] obtain c0 s0 where s0: "c0 # s0 = ?p 0 @ CHR ''.'' # c1 # s1" by blast
  have s: "dotted a @ [NUL] = c0 # s0"
    unfolding s0 s1 s2 s3 by (simp add: dotted_def)
  have u: "(of_nat (unat (x :: uint8)) :: uint64) = ucast x" for x by simp
  have "aton_parts 0 (replicate 4 None) c0 s0 =
      Some (Some (3, [Some (a ! 0), Some (a ! 1), Some (a ! 2), None], of_nat (unat (a ! 3)), True, NUL))"
    using aton_parts_more [OF b s0, of 0 "replicate 4 None"] aton_parts_more [OF b s1, of 1 "[Some (a ! 0), None, None, None]"]
      aton_parts_more [OF b s2, of 2 "[Some (a ! 0), Some (a ! 1), None, None]"]
      aton_parts_last [OF s3, of 3 "[Some (a ! 0), Some (a ! 1), Some (a ! 2), None]"]
    by (simp add: numeral_eq_Suc)
  then have "inet_aton (dotted a @ [NUL]) = map_option (map_option htonl_bytes)
      (aton_concoct 3 [Some (a ! 0), Some (a ! 1), Some (a ! 2), None] (of_nat (unat (a ! 3))))"
    unfolding s by (simp add: inet_aton_def)
  then show ?thesis unfolding u concoct_bytes using list4 [OF assms] by simp
qed

section \<open>Malformed input\<close>

lemma aton_digits_total:
  "suffix_at str c s \<Longrightarrow> \<exists>r. aton_digits base v dg c s = Some r \<and>
     (case r of None \<Rightarrow> True | Some (v', dg', c', s') \<Rightarrow> suffix_at str c' s')"
proof (induction s arbitrary: c v dg)
  case Nil
  then have "c = NUL" by (auto simp: suffix_at_def)
  with Nil show ?case
    by (subst aton_digits.simps) (simp add: NUL_def isdigit_def is_hexdigit_def)
next
  case (Cons c' s')
  show ?case
  proof (cases "isdigit c \<or> base = 16 \<and> is_hexdigit c")
    case True
    then have "c \<noteq> NUL" by (auto simp: NUL_def isdigit_def is_hexdigit_def)
    then have "suffix_at str c' s'" using suffix_at_next [OF Cons.prems] by auto
    note IH = Cons.IH [OF this]
    show ?thesis using True IH by (subst aton_digits.simps) auto
  next
    case False
    with Cons.prems show ?thesis by (subst aton_digits.simps) auto
  qed
qed

lemma aton_base_total:
  assumes "suffix_at str c s"
  shows "\<exists>b dg c' s'. aton_base c s = Some (b, dg, c', s') \<and> suffix_at str c' s'"
proof (cases "c = CHR ''0''")
  case True
  then have "c \<noteq> NUL" by (simp add: NUL_def)
  then obtain c1 s1 where 1: "s = c1 # s1" "suffix_at str c1 s1" using suffix_at_next [OF assms] by blast
  show ?thesis
  proof (cases "c1 = CHR ''x'' \<or> c1 = CHR ''X''")
    case True
    then have "c1 \<noteq> NUL" by (auto simp: NUL_def)
    then obtain c2 s2 where "s1 = c2 # s2" "suffix_at str c2 s2" using suffix_at_next [OF 1(2)] by blast
    with 1 True \<open>c = CHR ''0''\<close> show ?thesis by (simp add: aton_base_def ex_bool_eq)
  qed (use 1 True in \<open>simp add: aton_base_def ex_bool_eq\<close>)
qed (use assms in \<open>simp add: aton_base_def ex_bool_eq\<close>)

text \<open>The parts before \<^verbatim>\<open>pp\<close> are set.\<close>

definition parts_ok :: "nat \<Rightarrow> uint8 option list \<Rightarrow> bool" where
  "parts_ok pp parts \<longleftrightarrow> length parts = 4 \<and> pp < 4 \<and> (\<forall>i<pp. parts ! i \<noteq> None)"

lemma parts_ok_next: "parts_ok pp parts \<Longrightarrow> pp < 3 \<Longrightarrow> parts_ok (pp + 1) (parts[pp := Some b])"
  by (auto simp: parts_ok_def nth_list_update less_Suc_eq)

lemma aton_parts_total:
  "suffix_at str c s \<Longrightarrow> parts_ok pp parts \<Longrightarrow> \<exists>r. aton_parts pp parts c s = Some r \<and>
     (case r of None \<Rightarrow> True | Some (pp', parts', v, dg, c') \<Rightarrow> parts_ok pp' parts')"
proof (induction pp parts c s rule: aton_parts.induct)
  case (1 pp parts c s)
  from aton_base_total [OF 1(2)] obtain b dg c1 s1 where b: "aton_base c s = Some (b, dg, c1, s1)" "suffix_at str c1 s1"
    by blast
  from aton_digits_total [OF b(2), of b 0 dg] obtain r where r: "aton_digits b 0 dg c1 s1 = Some r"
    "case r of None \<Rightarrow> True | Some (v', dg', c', s') \<Rightarrow> suffix_at str c' s'" by blast
  show ?case
  proof (cases r)
    case None
    with b r show ?thesis by (subst aton_parts.simps) simp
  next
    case (Some q)
    obtain v d c2 s2 where q: "q = (v, d, c2, s2)" by (cases q) auto
    with r Some have r: "aton_digits b 0 dg c1 s1 = Some (Some (v, d, c2, s2))" "suffix_at str c2 s2" by auto
    show ?thesis
    proof (cases "isdigit c \<and> c2 = CHR ''.'' \<and> \<not> (pp \<ge> 3 \<or> v > 0xFF)")
      case True
      then have "c2 \<noteq> NUL" by (auto simp: NUL_def)
      then obtain c3 s3 where 3: "s2 = c3 # s3" "suffix_at str c3 s3" using suffix_at_next [OF r(2)] by blast
      have n: "\<not> length parts \<le> pp" using 1(3) by (simp add: parts_ok_def)
      have "parts_ok (pp + 1) (parts[pp := Some (ucast v)])" using True by (intro parts_ok_next [OF 1(3)]) simp
      with True n 3 b r(1) have
        "\<exists>r. aton_parts (pp + 1) (parts[pp := Some (ucast v)]) c3 s3 = Some r \<and>
          (case r of None \<Rightarrow> True | Some (pp', parts', v, dg, c') \<Rightarrow> parts_ok pp' parts')"
        by (intro 1(1) [OF _ b(1) refl refl refl r(1) refl refl refl refl]) auto
      moreover have "aton_parts pp parts c s = aton_parts (pp + 1) (parts[pp := Some (ucast v)]) c3 s3"
        using b r 3 True n by (subst aton_parts.simps) simp
      ultimately show ?thesis by simp
    next
      case False
      with b r 1(3) show ?thesis by (subst aton_parts.simps) auto
    qed
  qed
qed

lemma aton_concoct_total:
  assumes "parts_ok pp parts"
  shows "\<exists>r. aton_concoct pp parts v = Some r"
proof -
  have "\<exists>p. part_at parts i sh = Some p" if "i < pp" for i sh
    using assms that by (auto simp: parts_ok_def part_at_def)
  note set = this
  consider "pp = 0" | "pp = 1" | "pp = 2" | "pp = 3" using assms unfolding parts_ok_def by linarith
  then show ?thesis
  proof cases
    case 2
    with set [of 0 24] show ?thesis by (auto simp: aton_concoct_def)
  next
    case 3
    with set [of 0 24] set [of 1 16] show ?thesis by (auto simp: aton_concoct_def)
  next
    case 4
    with set [of 0 24] set [of 1 16] set [of 2 8] show ?thesis by (auto simp: aton_concoct_def)
  qed (simp add: aton_concoct_def)
qed

section \<open>The longest run of zeros\<close>

definition zrun :: "uint32 list \<Rightarrow> int \<Rightarrow> int \<Rightarrow> bool" where
  "zrun ws i j \<longleftrightarrow> 0 \<le> i \<and> i < j \<and> j \<le> int (length ws) \<and> (\<forall>k. i \<le> k \<and> k < j \<longrightarrow> ws ! nat k = 0)"

definition cur_ok :: "uint32 list \<Rightarrow> run \<Rightarrow> bool" where
  "cur_ok p cur \<longleftrightarrow>
     (if fst cur = - 1 then \<forall>i. \<not> zrun p i (int (length p))
      else zrun p (fst cur) (int (length p)) \<and> fst cur + snd cur = int (length p) \<and>
        (\<forall>i. zrun p i (int (length p)) \<longrightarrow> fst cur \<le> i))"

definition best_ok :: "uint32 list \<Rightarrow> run \<Rightarrow> run \<Rightarrow> bool" where
  "best_ok p best cur \<longleftrightarrow>
     (fst best \<noteq> - 1 \<longrightarrow> zrun p (fst best) (fst best + snd best)) \<and>
     (\<forall>i j. zrun p i j \<longrightarrow> (fst best \<noteq> - 1 \<and> j - i \<le> snd best) \<or> (fst cur \<noteq> - 1 \<and> fst cur \<le> i))"

lemma zrun_snoc:
  "zrun (p @ [w]) i j \<longleftrightarrow> zrun p i j \<or>
     (j = int (length p) + 1 \<and> w = 0 \<and> (i = int (length p) \<or> zrun p i (int (length p))))"
proof
  assume r: "zrun (p @ [w]) i j"
  show "zrun p i j \<or> (j = int (length p) + 1 \<and> w = 0 \<and> (i = int (length p) \<or> zrun p i (int (length p))))"
  proof (cases "j \<le> int (length p)")
    case True
    have "p ! nat k = 0" if "i \<le> k" "k < j" for k
    proof -
      have "(p @ [w]) ! nat k = 0" using r that by (simp add: zrun_def)
      moreover have "0 \<le> i" using r by (simp add: zrun_def)
      then have "nat k < length p" using True that by linarith
      ultimately show ?thesis by (simp add: nth_append)
    qed
    with r True show ?thesis by (simp add: zrun_def)
  next
    case False
    then have j: "j = int (length p) + 1" using r by (simp add: zrun_def)
    have "\<forall>k. i \<le> k \<and> k < j \<longrightarrow> (p @ [w]) ! nat k = 0" "i < j" using r by (simp_all add: zrun_def)
    then have "(p @ [w]) ! nat (int (length p)) = 0" using j by force
    then have w: "w = 0" by simp
    have "p ! nat k = 0" if "i \<le> k" "k < int (length p)" for k
    proof -
      have "(p @ [w]) ! nat k = 0" using r that j by (simp add: zrun_def)
      moreover have "0 \<le> i" using r by (simp add: zrun_def)
      then have "nat k < length p" using that by linarith
      ultimately show ?thesis by (simp add: nth_append)
    qed
    with r j w show ?thesis by (auto simp: zrun_def)
  qed
next
  assume "zrun p i j \<or> (j = int (length p) + 1 \<and> w = 0 \<and> (i = int (length p) \<or> zrun p i (int (length p))))"
  then show "zrun (p @ [w]) i j"
    by (auto simp: zrun_def nth_append)
qed

lemma zrun_le: "zrun p i j \<Longrightarrow> j \<le> int (length p)"
  by (simp add: zrun_def)

lemma zrun_shorten: "zrun p i j \<Longrightarrow> i < i' \<Longrightarrow> i' < j \<Longrightarrow> zrun p i' j"
  by (auto simp: zrun_def)

lemma best_ok_take_longer:
  assumes "cur_ok p cur" "best_ok p best cur"
  shows "best_ok p (take_longer cur best) (- 1, n)"
proof (cases "fst cur = - 1")
  case True
  with assms show ?thesis by (simp add: best_ok_def take_longer_def)
next
  case False
  with assms(1) have c: "zrun p (fst cur) (int (length p))" "fst cur + snd cur = int (length p)"
    by (simp_all add: cur_ok_def)
  have "j - i \<le> snd cur" if "zrun p i j" "fst cur \<le> i" for i j
    using c(2) zrun_le [OF that(1)] that(2) by linarith
  with False assms(2) c show ?thesis
    unfolding best_ok_def take_longer_def by (auto; fastforce)
qed

lemma scan_zero_runs_ok:
  "cur_ok p cur \<Longrightarrow> best_ok p best cur \<Longrightarrow>
   case scan_zero_runs (int (length p)) ws best cur of (b, c) \<Rightarrow> cur_ok (p @ ws) c \<and> best_ok (p @ ws) b c"
proof (induction ws arbitrary: p best cur)
  case Nil
  then show ?case by simp
next
  case (Cons w ws)
  let ?n = "int (length p)"
  have len: "int (length (p @ [w])) = ?n + 1" by simp
  consider (start) "w = 0" "fst cur = - 1" | (more) "w = 0" "fst cur \<noteq> - 1" | (close) "w \<noteq> 0" by blast
  then show ?case
  proof cases
    case start
    then have nz: "\<not> zrun p i ?n" for i using Cons.prems(1) by (simp add: cur_ok_def)
    have r: "zrun (p @ [w]) i j \<longleftrightarrow> zrun p i j \<or> j = ?n + 1 \<and> i = ?n" for i j
      using start nz by (auto simp: zrun_snoc)
    have no: "\<not> zrun p i (1 + ?n)" for i using zrun_le [of p i "1 + ?n"] by linarith
    have "cur_ok (p @ [w]) (?n, 1)" using no by (auto simp: cur_ok_def r add.commute)
    moreover have "best_ok (p @ [w]) best (?n, 1)"
      using Cons.prems(2) start(2) by (auto simp: best_ok_def r)
    ultimately show ?thesis using Cons.IH [of "p @ [w]" "(?n, 1)" best] start len by (simp add: add.commute)
  next
    case more
    then have c: "zrun p (fst cur) ?n" "fst cur + snd cur = ?n" "\<And>i. zrun p i ?n \<Longrightarrow> fst cur \<le> i"
      using Cons.prems(1) by (simp_all add: cur_ok_def)
    have r: "zrun (p @ [w]) i j \<longleftrightarrow> zrun p i j \<or> j = ?n + 1 \<and> (i = ?n \<or> zrun p i ?n)" for i j
      using more by (auto simp: zrun_snoc)
    have ge: "fst cur \<le> i" if "zrun (p @ [w]) i (?n + 1)" for i
    proof -
      have "i = ?n \<or> zrun p i ?n" using that zrun_le [of p i "?n + 1"] by (auto simp: r)
      moreover have "fst cur \<le> ?n" using c(1) by (simp add: zrun_def)
      ultimately show ?thesis using c(3) by auto
    qed
    have "cur_ok (p @ [w]) (fst cur, snd cur + 1)"
      using c ge more(2) by (auto simp: cur_ok_def r add.commute)
    moreover have "best_ok (p @ [w]) best (fst cur, snd cur + 1)"
      unfolding best_ok_def
    proof (intro conjI allI impI)
      assume "fst best \<noteq> - 1"
      then show "zrun (p @ [w]) (fst best) (fst best + snd best)" using Cons.prems(2) by (simp add: best_ok_def r)
    next
      fix i j assume ij: "zrun (p @ [w]) i j"
      show "(fst best \<noteq> - 1 \<and> j - i \<le> snd best) \<or>
          (fst (fst cur, snd cur + 1) \<noteq> - 1 \<and> fst (fst cur, snd cur + 1) \<le> i)"
      proof (cases "j = ?n + 1")
        case True
        then show ?thesis using ge ij more(2) by simp
      next
        case False
        then have "zrun p i j" using ij r by simp
        then show ?thesis using Cons.prems(2) by (simp add: best_ok_def)
      qed
    qed
    ultimately show ?thesis
      using Cons.IH [of "p @ [w]" "(fst cur, snd cur + 1)" best] more len by (simp add: add.commute)
  next
    case close
    have r: "zrun (p @ [w]) i j \<longleftrightarrow> zrun p i j" for i j using close by (simp add: zrun_snoc)
    have no: "\<not> zrun p i (1 + ?n)" for i using zrun_le [of p i "1 + ?n"] by linarith
    have "cur_ok (p @ [w]) (- 1, n)" for n using no by (auto simp: cur_ok_def r add.commute)
    moreover have "best_ok (p @ [w]) (take_longer cur best) (- 1, snd cur)"
      using best_ok_take_longer [OF Cons.prems] by (simp add: best_ok_def r)
    moreover have "take_longer cur best = best" "best_ok (p @ [w]) best cur" "cur_ok (p @ [w]) cur" if "fst cur = - 1"
      using that Cons.prems calculation(1) by (simp_all add: take_longer_def best_ok_def cur_ok_def r)
    ultimately show ?thesis
      using Cons.IH [of "p @ [w]" "(- 1, snd cur)" "take_longer cur best"] Cons.IH [of "p @ [w]" cur best] close len
      by (cases "fst cur = - 1") (simp_all add: add.commute)
  qed
qed

lemma best_zero_run_ok:
  assumes "best_zero_run ws = (b, l)"
  shows "(b = - 1 \<longrightarrow> (\<forall>i j. zrun ws i j \<longrightarrow> j - i \<le> 1)) \<and>
    (b \<noteq> - 1 \<longrightarrow> zrun ws b (b + l) \<and> 2 \<le> l \<and> (\<forall>i j. zrun ws i j \<longrightarrow> j - i \<le> l))"
proof -
  obtain best cur where s: "scan_zero_runs 0 ws (- 1, 0) (- 1, 0) = (best, cur)"
    using surj_pair [of "scan_zero_runs 0 ws (- 1, 0) (- 1, 0)"] by blast
  have "\<not> zrun [] i j" for i j by (simp add: zrun_def)
  then have "cur_ok [] (- 1, 0)" "best_ok [] (- 1, 0) (- 1, 0)" by (simp_all add: cur_ok_def best_ok_def)
  from scan_zero_runs_ok [OF this, of ws] s have "cur_ok ws cur" "best_ok ws best cur" by simp_all
  from best_ok_take_longer [OF this, of 0] have "best_ok ws (take_longer cur best) (- 1, 0)" .
  then show ?thesis using assms
    by (auto simp: best_zero_run_def s best_ok_def Let_def split: if_splits; fastforce)
qed


section \<open>The buffer of inet_ntop6\<close>

lemma print_hex_length: "n < 65536 \<Longrightarrow> length (print_nat 16 n) \<le> 4"
  by (simp add: print_nat.simps [of 16 n] print_nat.simps [of 16 "n div 16"]
      print_nat.simps [of 16 "n div 16 div 16"] print_nat.simps [of 16 "n div 16 div 16 div 16"])

lemma zeros8: "replicate 8 (0::'a::zero) = [0,0,0,0,0,0,0,0]" by (simp add: numeral_eq_Suc)

lemma list_update_num: "xs[numeral n := (v::'a)] = (case xs of [] \<Rightarrow> [] | x # ys \<Rightarrow> x # ys[pred_numeral n := v])"
  by (cases xs) (auto simp: numeral_eq_Suc)

lemma list_update_Suc: "xs[Suc n := v] = (case xs of [] \<Rightarrow> [] | x # ys \<Rightarrow> x # ys[n := v])"
  by (cases xs) auto

lemma upt16: "[0..<16] = [0,1,2,3,4,5,6,7,8,9,10,11,12,13,14,15::nat]" "[0..<8] = [0,1,2,3,4,5,6,7::nat]" by code_simp+

lemma ntop6_words_eq:
  "ntop6_words src = map (\<lambda>k. push_bit 8 (ucast (src ! (2 * k))) OR ucast (src ! (2 * k + 1))) [0..<8]"
  by (simp add: ntop6_words_def zeros8 list_update_num list_update_Suc upt16)

lemma ntop6_words_range: "w \<in> set (ntop6_words src) \<Longrightarrow> unat w < 65536"
proof -
  assume "w \<in> set (ntop6_words src)"
  then obtain a b :: uint8 where w: "w = push_bit 8 (ucast a) OR ucast b"
    by (auto simp: ntop6_words_eq)
  have "take_bit 16 w = w"
    unfolding w by (rule bit_word_eqI) (auto simp: bit_simps dest: bit_imp_le_length)
  then have "unat w = take_bit 16 (unat w)" by (metis unsigned_take_bit_eq)
  moreover have "take_bit 16 (unat w) < 2 ^ 16" by (rule take_bit_nat_less_exp)
  ultimately show ?thesis by simp
qed

lemma ntop6_words_length: "length (ntop6_words src) = 8"
  by (simp add: ntop6_words_eq)

text \<open>
  While word \<open>i\<close> is formatted at most five characters per word have been written, and behind an
  initial run of zeros, which takes one character, only the words after it count.
\<close>

lemma ntop6_loop_length:
  assumes "\<forall>w\<in>set ws. unat w < 65536" "length ws = 8"
  shows "i + k = 8 \<Longrightarrow> length tp \<le> 5 * i \<Longrightarrow>
    (fst best = 0 \<longrightarrow> 5 \<le> snd best \<longrightarrow> length tp \<le> 1 + 5 * (i - nat (snd best))) \<Longrightarrow>
    \<exists>t. ntop6_loop src ws best i k tp = Inr t \<and> length t \<le> 40"
proof (induction k arbitrary: i tp)
  case 0
  then show ?case by simp
next
  case (Suc k)
  have i: "i < 8" using Suc.prems(1) by simp
  let ?tp1 = "if i \<noteq> 0 then tp @ '':'' else tp"
  show ?case
  proof (cases "fst best \<noteq> - 1 \<and> int i \<ge> fst best \<and> int i < fst best + snd best")
    case True
    have "length (if int i = fst best then tp @ '':'' else tp) \<le> 5 * (i + 1)"
      using Suc.prems(2) by simp
    moreover have "fst best = 0 \<longrightarrow> 5 \<le> snd best \<longrightarrow>
        length (if int i = fst best then tp @ '':'' else tp) \<le> 1 + 5 * (i + 1 - nat (snd best))"
      using Suc.prems True by auto
    ultimately show ?thesis using Suc.IH [of "i + 1"] Suc.prems(1) True by simp
  next
    case False
    have hex: "length (print_nat 16 (unat (ws ! i))) \<le> 4"
      using assms i by (intro print_hex_length) auto
    show ?thesis
    proof (cases "i = 6 \<and> embeds_ipv4 ws best")
      case True
      then have "5 \<le> snd best" "fst best = 0" by (auto simp: embeds_ipv4_def)
      then have "length tp \<le> 1 + 5 * (6 - nat (snd best))" using Suc.prems(3) True by simp
      moreover have "6 - nat (snd best) \<le> 1" using \<open>5 \<le> snd best\<close> by linarith
      ultimately have "length ?tp1 \<le> 7" using True by simp
      moreover from this have "length (dotted (drop 12 src)) < 46 - length ?tp1"
        using length_dotted [of "drop 12 src"] by linarith
      ultimately show ?thesis
        using True False length_dotted [of "drop 12 src"] by (auto simp: inet_ntop4_def Let_def)
    next
      case no_embed: False
      let ?t = "?tp1 @ print_nat 16 (unat (ws ! i))"
      have len: "length ?t \<le> length tp + 5" "i = 0 \<Longrightarrow> length ?t \<le> 5"
        using hex Suc.prems(2) by auto
      have "fst best = 0 \<longrightarrow> 5 \<le> snd best \<longrightarrow> length ?t \<le> 1 + 5 * (i + 1 - nat (snd best))"
      proof (intro impI)
        assume b: "fst best = 0" "5 \<le> snd best"
        with False have "nat (snd best) \<le> i" by linarith
        then have "i + 1 - nat (snd best) = Suc (i - nat (snd best))" by simp
        then have "length tp + 5 \<le> 1 + 5 * (i + 1 - nat (snd best))" using Suc.prems(3) b by simp
        then show "length ?t \<le> 1 + 5 * (i + 1 - nat (snd best))" by (rule le_trans [OF len(1)])
      qed
      moreover have "length tp + 5 \<le> 5 * (i + 1)" using Suc.prems(2) by simp
      then have "length ?t \<le> 5 * (i + 1)" by (rule le_trans [OF len(1)])
      ultimately have "\<exists>t. ntop6_loop src ws best (i + 1) k ?t = Inr t \<and> length t \<le> 40"
        using Suc.IH [of "i + 1" ?t] Suc.prems(1) by simp
      moreover have "ntop6_loop src ws best i (Suc k) tp = ntop6_loop src ws best (i + 1) k ?t"
        unfolding ntop6_loop.simps if_not_P [OF False] Let_def if_not_P [OF no_embed] ..
      ultimately show ?thesis by simp
    qed
  qed
qed

section \<open>Properties\<close>

text \<open>
  C22: Every IPv4 address is printed into a buffer of 16 bytes, and the text reads back as it.
\<close>

theorem inet4_roundtrip:
  assumes "length a = 4" and "16 \<le> sz"
  shows "\<exists>s. inet_ntop AF_INET a sz = Inr s \<and> inet_aton (s @ [NUL]) = Some (Some a) \<and>
    inet_addr (s @ [NUL]) = Some a"
proof -
  have "length (dotted a) < sz" using length_dotted [of a] assms(2) by linarith
  then have "inet_ntop AF_INET a sz = Inr (dotted a)"
    by (simp add: inet_ntop_def inet_ntop4_def Let_def)
  with aton_dotted [OF assms(1)] show ?thesis by (simp add: inet_addr_def)
qed

theorem inet4_roundtrip_witness:
  "\<exists>s. inet_ntop AF_INET [192, 0, 2, 255] 16 = Inr s \<and> inet_aton (s @ [NUL]) = Some (Some [192, 0, 2, 255])"
  using inet4_roundtrip [of "[192, 0, 2, 255]" 16] by auto

text \<open>
  C23: On any terminated string \<open>inet_aton\<close> returns, without reading past the terminator, writing
  behind its array of four parts or using a part it did not write; a success stores four bytes.
\<close>

theorem inet_aton_total:
  assumes "NUL \<in> set cp"
  shows "inet_aton cp = Some None \<or> (\<exists>a. inet_aton cp = Some (Some a) \<and> length a = 4)"
proof -
  obtain c s where cp: "cp = c # s" using assms by (cases cp) auto
  then have "suffix_at cp c s" using assms by (auto simp: suffix_at_def)
  moreover have "parts_ok 0 (replicate 4 None)" by (simp add: parts_ok_def)
  ultimately obtain r where r: "aton_parts 0 (replicate 4 None) c s = Some r"
    "case r of None \<Rightarrow> True | Some (pp', parts', v, dg, c') \<Rightarrow> parts_ok pp' parts'"
    using aton_parts_total by blast
  show ?thesis
  proof (cases r)
    case None
    with cp r show ?thesis by (simp add: inet_aton_def)
  next
    case (Some q)
    obtain pp ps v dg c' where q: "q = (pp, ps, v, dg, c')" by (cases q) auto
    from r(2) Some q have "parts_ok pp ps" by simp
    from aton_concoct_total [OF this, of v] obtain t where "aton_concoct pp ps v = Some t" by blast
    with cp r(1) Some q show ?thesis by (cases t) (simp_all add: inet_aton_def htonl_bytes_def)
  qed
qed

theorem inet_aton_total_witness:
  "inet_aton (''1.2.3.4.5'' @ [NUL]) = Some None \<or> (\<exists>a. inet_aton (''1.2.3.4.5'' @ [NUL]) = Some (Some a) \<and> length a = 4)"
  using inet_aton_total [of "''1.2.3.4.5'' @ [NUL]"] by auto

text \<open>
  C24: \<open>inet_ntop6\<close> replaces the longest run of zero words by the double colon: when it abbreviates a
  run, the run consists of zeros, has at least two words and no run of zeros is longer; when it
  abbreviates none, no two adjacent words are zero.
\<close>

theorem inet_ntop6_longest_run:
  "case best_zero_run (ntop6_words src) of (b, l) \<Rightarrow>
     if b = - 1 then \<forall>i j. zrun (ntop6_words src) i j \<longrightarrow> j - i < 2
     else zrun (ntop6_words src) b (b + l) \<and> 2 \<le> l \<and> (\<forall>i j. zrun (ntop6_words src) i j \<longrightarrow> j - i \<le> l)"
proof -
  obtain b l where "best_zero_run (ntop6_words src) = (b, l)" by (cases "best_zero_run (ntop6_words src)") auto
  with best_zero_run_ok [OF this] show ?thesis by fastforce
qed

theorem inet_ntop6_longest_run_witness:
  "2 \<le> snd (best_zero_run (ntop6_words ([0x20, 1] @ replicate 13 0 @ [1])))"
proof -
  let ?src = "[0x20, 1] @ replicate 13 0 @ [1 :: uint8]"
  have "fst (best_zero_run (ntop6_words ?src)) \<noteq> - 1" by code_simp
  with inet_ntop6_longest_run [of ?src] show ?thesis by (auto split: prod.splits)
qed

text \<open>
  C25: \<open>inet_ntop6\<close> never overruns its 46-byte buffer: the text and its terminator take at most 42
  bytes; it is returned exactly when it fits into the caller's buffer, and \<open>ENOSPC\<close> otherwise.
\<close>

theorem inet_ntop6_bounds:
  "\<exists>s. length s \<le> 41 \<and> (\<forall>sz. inet_ntop6 src sz = (if length s + 1 \<le> sz then Inr s else Inl ENOSPC))"
proof -
  let ?ws = "ntop6_words src"
  have "\<exists>t. ntop6_loop src ?ws (best_zero_run ?ws) 0 8 [] = Inr t \<and> length t \<le> 40"
    using ntop6_words_range by (intro ntop6_loop_length) (auto simp: ntop6_words_length)
  then obtain t where t: "ntop6_loop src ?ws (best_zero_run ?ws) 0 8 [] = Inr t" "length t \<le> 40" by blast
  let ?s = "if fst (best_zero_run ?ws) \<noteq> - 1 \<and> fst (best_zero_run ?ws) + snd (best_zero_run ?ws) = 8
    then t @ '':'' else t"
  have "inet_ntop6 src sz = (if length ?s + 1 \<le> sz then Inr ?s else Inl ENOSPC)" for sz
    by (simp add: inet_ntop6_def Let_def t(1))
  moreover have "length ?s \<le> 41" using t(2) by simp
  ultimately show ?thesis by blast
qed

text \<open>Behaviours of \<open>inet_aton\<close> outside the documented syntax.\<close>

lemma inet_aton_empty_hex_part: "inet_aton (''0x.1'' @ [NUL]) = Some (Some [0, 0, 0, 1])"
  by code_simp

lemma inet_aton_too_large: "inet_aton (''4294967297'' @ [NUL]) = Some (Some [0, 0, 0, 1])"
  by code_simp

end
