(* ===== verification/Fifo.thy ===== *)
theory Fifo
  imports Prelude
begin

text \<open>
  Bounded first-in first-out buffers: the circular window of an array, and the contract of a
  buffer that accepts and delivers blocks of elements.
\<close>

section \<open>Circular windows\<close>

definition ring :: "(nat \<Rightarrow> 'a) \<Rightarrow> nat \<Rightarrow> nat \<Rightarrow> nat \<Rightarrow> 'a list" where
  "ring f sz h n = map (\<lambda>i. f ((h + i) mod sz)) [0..<n]"

lemma length_ring [simp]: "length (ring f sz h n) = n"
  by (simp add: ring_def)

lemma ring_0 [simp]: "ring f sz h 0 = []"
  by (simp add: ring_def)

lemma nth_ring: "i < n \<Longrightarrow> ring f sz h n ! i = f ((h + i) mod sz)"
  by (simp add: ring_def)

lemma ring_snoc: "ring f sz h (Suc n) = ring f sz h n @ [f ((h + n) mod sz)]"
  by (simp add: ring_def)

lemma ring_Cons: "ring f sz h (Suc n) = f (h mod sz) # ring f sz ((h + 1) mod sz) n"
proof (rule nth_equalityI)
  fix i assume "i < length (ring f sz h (Suc n))"
  then show "ring f sz h (Suc n) ! i = (f (h mod sz) # ring f sz ((h + 1) mod sz) n) ! i"
    by (cases i) (simp_all add: nth_ring mod_simps)
qed simp

lemma window_neq:
  assumes "i < n" "n < sz"
  shows "((h :: nat) + i) mod sz \<noteq> (h + n) mod sz"
proof
  assume "(h + i) mod sz = (h + n) mod sz"
  then have "sz dvd (h + n) - (h + i)" using assms mod_eq_dvd_iff_nat [of "h + i" "h + n" sz] by simp
  with assms show False by (simp add: nat_dvd_not_less)
qed

lemma ring_upd: "n < sz \<Longrightarrow> ring (f((h + n) mod sz := v)) sz h n = ring f sz h n"
  using window_neq [of _ n sz h] by (auto simp: ring_def)

text \<open>A push at the end of the window and a pop at its head.\<close>

lemma ring_push: "n < sz \<Longrightarrow> ring (f((h + n) mod sz := v)) sz h (Suc n) = ring f sz h n @ [v]"
  using ring_upd [of n sz f h v] by (simp add: ring_snoc)

section \<open>The contract of a buffer\<close>

datatype 'a fifo_op = Write "'a list" | Read nat

locale bounded_fifo =
  fixes inv :: "'s \<Rightarrow> bool"
    and contents :: "'s \<Rightarrow> 'a list"
    and capacity :: "'s \<Rightarrow> nat"
    and put :: "'a list \<Rightarrow> 's \<Rightarrow> nat \<times> 's"
    and get :: "nat \<Rightarrow> 's \<Rightarrow> 'a list \<times> 's"
  assumes put_law: "inv s \<Longrightarrow> put xs s = (n, s') \<Longrightarrow>
      n = min (length xs) (capacity s - length (contents s)) \<and> inv s' \<and> capacity s' = capacity s \<and>
      contents s' = contents s @ take n xs"
    and get_law: "inv s \<Longrightarrow> get k s = (ys, s') \<Longrightarrow>
      ys = take k (contents s) \<and> inv s' \<and> capacity s' = capacity s \<and> contents s' = drop k (contents s)"
    and contents_le: "inv s \<Longrightarrow> length (contents s) \<le> capacity s"
begin

text \<open>A run of operations with the data that were accepted and delivered.\<close>

fun run :: "'a fifo_op list \<Rightarrow> 's \<Rightarrow> 'a list \<times> 'a list \<times> 's" where
  "run [] s = ([], [], s)"
| "run (Write xs # ops) s =
     (let (n, s1) = put xs s; (i, out, s2) = run ops s1 in (take n xs @ i, out, s2))"
| "run (Read k # ops) s =
     (let (ys, s1) = get k s; (i, out, s2) = run ops s1 in (i, ys @ out, s2))"

text \<open>Nothing is lost, duplicated or reordered.\<close>

lemma run_order:
  "inv s \<Longrightarrow> run ops s = (i, out, s') \<Longrightarrow>
   contents s @ i = out @ contents s' \<and> inv s' \<and> length (contents s') \<le> capacity s \<and> capacity s' = capacity s"
proof (induction ops arbitrary: s i out)
  case Nil
  then show ?case using contents_le by simp
next
  case (Cons op ops)
  show ?case
  proof (cases op)
    case (Write xs)
    obtain n s1 where w: "put xs s = (n, s1)" by fastforce
    obtain i' out' s2 where r: "run ops s1 = (i', out', s2)" by (cases "run ops s1") auto
    from put_law [OF Cons.prems(1) w] Cons.IH [of s1 i' out'] r Cons.prems(2) w Write show ?thesis
      by auto
  next
    case (Read k)
    obtain ys s1 where w: "get k s = (ys, s1)" by fastforce
    obtain i' out' s2 where r: "run ops s1 = (i', out', s2)" by (cases "run ops s1") auto
    from get_law [OF Cons.prems(1) w] Cons.IH [of s1 i' out'] r Cons.prems(2) w Read show ?thesis
      by auto (metis append_assoc append_take_drop_id)
  qed
qed

end

end
