(* ===== verification/RingBuffer.thy ===== *)
theory RingBuffer
  imports Fifo
begin

text \<open>
  \<^verbatim>\<open>src/add-ons/kernel/file_systems/websearchfs/ringbuff.c\<close>: a byte ring buffer. The \<^verbatim>\<open>data\<close>
  array is a function on its indices; \<open>None\<close> is the division by the size 0 or the panic of the
  assertion. A null buffer is the argument \<open>None\<close>. Sizes are far below the range of \<^verbatim>\<open>size_t\<close>.
\<close>

record ring_buffer =
  rb_size :: nat
  rb_current :: nat
  rb_avail :: nat
  rb_data :: "nat \<Rightarrow> uint8"

definition rb_init :: "ring_buffer \<Rightarrow> nat \<Rightarrow> ring_buffer" where
  "rb_init rb sz = rb\<lparr>rb_size := sz, rb_current := 0, rb_avail := 0\<rparr>"

definition rb_clear :: "ring_buffer \<Rightarrow> ring_buffer" where
  "rb_clear rb = rb\<lparr>rb_avail := 0, rb_current := 0\<rparr>"

definition rb_can_write :: "ring_buffer option \<Rightarrow> nat" where
  "rb_can_write rb = (case rb of None \<Rightarrow> 0 | Some rb \<Rightarrow> rb_size rb - rb_avail rb)"

definition rb_can_read :: "ring_buffer option \<Rightarrow> nat" where
  "rb_can_read rb = (case rb of None \<Rightarrow> 0 | Some rb \<Rightarrow> rb_avail rb)"

text \<open>\<^verbatim>\<open>memcpy\<close> of the bytes \<open>bs\<close> to offset \<open>index\<close>, and of \<open>len\<close> bytes from it.\<close>

definition copy_in :: "(nat \<Rightarrow> uint8) \<Rightarrow> nat \<Rightarrow> uint8 list \<Rightarrow> (nat \<Rightarrow> uint8)" where
  "copy_in data index bs = (\<lambda>j. if index \<le> j \<and> j < index + length bs then bs ! (j - index) else data j)"

definition copy_out :: "(nat \<Rightarrow> uint8) \<Rightarrow> nat \<Rightarrow> nat \<Rightarrow> uint8 list" where
  "copy_out data index len = map (\<lambda>i. data (index + i)) [0..<len]"

definition rb_write :: "ring_buffer option \<Rightarrow> uint8 list \<Rightarrow> (nat \<times> ring_buffer option) option" where
  "rb_write p data =
     (case p of
        None \<Rightarrow> Some (0, None)
      | Some rb \<Rightarrow>
          if rb_size rb = 0 then None
          else
            (let index = (rb_current rb + rb_avail rb) mod rb_size rb;
                 towrite = min (length data) (rb_can_write (Some rb))
             in if towrite < 1 then Some (0, Some rb)
                else
                  (let len = min (rb_size rb - index) towrite;
                       rb1 = rb\<lparr>rb_data := copy_in (rb_data rb) index (take len data), rb_avail := rb_avail rb + len\<rparr>;
                       written = len
                   in let (written, rb2) =
                        (if len < towrite then
                           (let towrite = towrite - len;
                                len = min towrite (rb_can_write (Some rb1))
                            in (written + len,
                                rb1\<lparr>rb_data := copy_in (rb_data rb1) 0 (take len (drop written data)),
                                    rb_avail := rb_avail rb1 + len\<rparr>))
                         else (written, rb1))
                   in if rb_avail rb2 \<le> rb_size rb2 then Some (written, Some rb2) else None)))"

definition rb_read :: "ring_buffer option \<Rightarrow> nat \<Rightarrow> (uint8 list \<times> ring_buffer option) option" where
  "rb_read p len =
     (case p of
        None \<Rightarrow> Some ([], None)
      | Some rb \<Rightarrow>
          (let index = rb_current rb;
               toread = min len (rb_can_read (Some rb))
           in if toread < 1 then Some ([], Some rb)
              else
                (let len = min (rb_size rb - index) toread;
                     data = copy_out (rb_data rb) index len;
                     rb1 = rb\<lparr>rb_avail := rb_avail rb - len, rb_current := rb_current rb + len\<rparr>
                 in let (data, rb2) =
                      (if len < toread then
                         (let toread = toread - len;
                              len2 = min toread (rb_can_read (Some rb1))
                          in (data @ copy_out (rb_data rb1) 0 len2,
                              rb1\<lparr>rb_current := len2, rb_avail := rb_avail rb1 - len2\<rparr>))
                       else (data, rb1))
                 in if rb_avail rb2 \<le> rb_size rb2 then Some (data, Some rb2) else None)))"

section \<open>The contents\<close>

text \<open>
  The read index may equal the size: after a read up to the end of the array it is not reduced
  before the next one.
\<close>

definition rb_ok :: "ring_buffer \<Rightarrow> bool" where
  "rb_ok rb \<longleftrightarrow> 0 < rb_size rb \<and> rb_current rb \<le> rb_size rb \<and> rb_avail rb \<le> rb_size rb"

definition rb_contents :: "ring_buffer \<Rightarrow> uint8 list" where
  "rb_contents rb = ring (rb_data rb) (rb_size rb) (rb_current rb) (rb_avail rb)"

lemma mod_window: "(x :: nat) < 2 * sz \<Longrightarrow> x mod sz = (if x < sz then x else x - sz)"
  by (simp add: mod_if)

lemma rb_write_ok:
  assumes "rb_ok rb"
  shows "\<exists>n rb'. rb_write (Some rb) xs = Some (n, Some rb') \<and> n = min (length xs) (rb_size rb - rb_avail rb) \<and>
    rb_ok rb' \<and> rb_size rb' = rb_size rb \<and> rb_contents rb' = rb_contents rb @ take n xs"
proof -
  define sz c a where "sz = rb_size rb" and "c = rb_current rb" and "a = rb_avail rb"
  note fields = sz_def c_def a_def
  have ok: "0 < sz" "c \<le> sz" "a \<le> sz" using assms by (simp_all add: rb_ok_def fields)
  define n where "n = min (length xs) (sz - a)"
  define i where "i = (c + a) mod sz"
  define l where "l = min (sz - i) n"
  have n: "n \<le> sz - a" "n \<le> length xs" by (simp_all add: n_def)
  have l: "l \<le> n" "l \<le> sz - i" "l = n \<or> l = sz - i" by (auto simp: l_def)
  have i: "i < sz" using ok by (simp add: i_def)
  show ?thesis
  proof (cases "n = 0")
    case True
    with ok assms show ?thesis
      by (intro exI [of _ 0] exI [of _ rb]) (simp add: rb_write_def rb_can_write_def fields n_def)
  next
    case False
    then have idx: "i = (if c + a < sz then c + a else c + a - sz)"
      using ok n by (simp add: i_def mod_window)
    define d where "d = (if l < n then copy_in (copy_in (rb_data rb) i (take l xs)) 0 (take (n - l) (drop l xs))
       else copy_in (rb_data rb) i (take l xs))"
    let ?rb = "rb\<lparr>rb_data := d, rb_avail := a + n\<rparr>"
    have w: "rb_write (Some rb) xs = Some (n, Some ?rb)"
    proof (cases "l < n")
      case True
      have "min (n - l) (sz - (a + l)) = n - l" using n l by simp
      with True False ok n show ?thesis
        by (simp add: rb_write_def rb_can_write_def fields [symmetric] n_def [symmetric] i_def [symmetric]
            l_def [symmetric] Let_def d_def)
    next
      case lt: False
      then have "l = n" using l(1) by linarith
      with lt False ok n show ?thesis
        by (simp add: rb_write_def rb_can_write_def fields [symmetric] n_def [symmetric] i_def [symmetric]
            l_def [symmetric] Let_def d_def)
    qed
    have d: "d p = (if i \<le> p \<and> p < i + l then xs ! (p - i)
        else if p < n - l then xs ! (l + p) else rb_data rb p)" if "p < sz" for p
    proof -
      have "n - l \<le> i" if "l < n" using l that n ok idx False by (auto split: if_splits)
      then show ?thesis using l n by (auto simp: d_def copy_in_def)
    qed
    have "rb_contents ?rb = rb_contents rb @ take n xs"
    proof (rule nth_equalityI)
      show "length (rb_contents ?rb) = length (rb_contents rb @ take n xs)"
        using n by (simp add: rb_contents_def a_def)
      fix k assume "k < length (rb_contents ?rb)"
      then have k: "k < a + n" by (simp add: rb_contents_def)
      define p where "p = (c + k) mod sz"
      have "p = (if c + k < sz then c + k else c + k - sz)"
        using k ok n by (simp add: p_def mod_window)
      moreover have "p < sz" using ok by (simp add: p_def)
      ultimately have p: "p = (if c + k < sz then c + k else c + k - sz)" "p < sz" by simp_all
      have new: "rb_contents ?rb ! k = d p" using k by (simp add: rb_contents_def nth_ring p_def fields)
      show "rb_contents ?rb ! k = (rb_contents rb @ take n xs) ! k"
      proof (cases "k < a")
        case True
        then have "\<not> (i \<le> p \<and> p < i + l)" "\<not> p < n - l"
          using p idx l n ok by (auto split: if_splits)
        then have "d p = rb_data rb p" unfolding d [OF p(2)] by auto
        with True new show ?thesis by (simp add: rb_contents_def nth_append nth_ring a_def p_def c_def sz_def)
      next
        case ge: False
        have "d p = xs ! (k - a)"
        proof (cases "k - a < l")
          case True
          then have "i \<le> p" "p < i + l" "p - i = k - a" using p idx l n ok ge by (auto split: if_splits)
          then show ?thesis using d [OF p(2)] by simp
        next
          case False
          then have "l < n" "l = sz - i" using l(3) k ge by linarith+
          moreover have "c + a < sz"
          proof (rule ccontr)
            assume "\<not> c + a < sz"
            then have "i = c + a - sz" using idx by simp
            with \<open>l = sz - i\<close> \<open>l < n\<close> n(1) ok show False by linarith
          qed
          moreover from this have "i = c + a" using idx by simp
          ultimately have "\<not> c + k < sz" using False ge by linarith
          then have "p = c + k - sz" using p(1) by simp
          then have "\<not> i \<le> p" "p < n - l" "l + p = k - a"
            using \<open>l = sz - i\<close> \<open>i = c + a\<close> \<open>c + a < sz\<close> \<open>\<not> c + k < sz\<close> k ge n ok by linarith+
          then show ?thesis using d [OF p(2)] by simp
        qed
        with ge k n new show ?thesis by (simp add: rb_contents_def nth_append a_def)
      qed
    qed
    moreover have "rb_ok ?rb" using ok n by (simp add: rb_ok_def fields)
    ultimately show ?thesis using w
      by (intro exI [of _ n] exI [of _ ?rb]) (simp add: n_def fields)
  qed
qed


lemma rb_read_ok:
  assumes "rb_ok rb"
  shows "\<exists>ys rb'. rb_read (Some rb) len = Some (ys, Some rb') \<and> ys = take len (rb_contents rb) \<and>
    rb_ok rb' \<and> rb_size rb' = rb_size rb \<and> rb_contents rb' = drop len (rb_contents rb)"
proof -
  define sz c a where "sz = rb_size rb" and "c = rb_current rb" and "a = rb_avail rb"
  note fields = sz_def c_def a_def
  have ok: "0 < sz" "c \<le> sz" "a \<le> sz" using assms by (simp_all add: rb_ok_def fields)
  define t where "t = min len a"
  define l where "l = min (sz - c) t"
  have t: "t \<le> a" "t \<le> len" "t = len \<or> t = a" by (auto simp: t_def)
  have l: "l \<le> t" "l \<le> sz - c" "l = t \<or> l = sz - c" by (auto simp: l_def)
  have cont: "rb_contents rb = ring (rb_data rb) sz c a" by (simp add: rb_contents_def fields)
  have takes: "take len (rb_contents rb) = take t (rb_contents rb)" "drop len (rb_contents rb) = drop t (rb_contents rb)"
    using t by (auto simp: cont)
  show ?thesis
  proof (cases "t = 0")
    case True
    with assms takes show ?thesis
      by (intro exI [of _ "[]"] exI [of _ rb]) (simp add: rb_read_def rb_can_read_def fields t_def)
  next
    case False
    define cur' where "cur' = (if l < t then t - l else c + l)"
    let ?rb = "rb\<lparr>rb_avail := a - t, rb_current := cur'\<rparr>"
    let ?ys = "copy_out (rb_data rb) c l @ copy_out (rb_data rb) 0 (t - l)"
    have "min (t - l) (a - l) = t - l" "a - t \<le> sz" "a - l - (t - l) = a - t" using t(1) l(1) ok by simp_all
    then have r: "rb_read (Some rb) len = Some (?ys, Some ?rb)"
      using False ok l t
      by (simp add: rb_read_def rb_can_read_def fields [symmetric] t_def [symmetric] l_def [symmetric]
          Let_def cur'_def copy_out_def)
    have "?ys = take t (rb_contents rb)"
    proof (rule nth_equalityI)
      show "length ?ys = length (take t (rb_contents rb))" using l t by (simp add: copy_out_def cont)
      fix k assume "k < length ?ys"
      then have k: "k < t" using l by (simp add: copy_out_def)
      have "(c + k) mod sz = (if k < l then c + k else k - l)"
        using k t l ok by (auto simp: mod_window)
      then show "?ys ! k = take t (rb_contents rb) ! k"
        using k t l by (simp add: copy_out_def nth_append cont nth_ring)
    qed
    moreover have "rb_contents ?rb = drop t (rb_contents rb)"
    proof (rule nth_equalityI)
      show "length (rb_contents ?rb) = length (drop t (rb_contents rb))" by (simp add: cont rb_contents_def a_def)
      fix k assume "k < length (rb_contents ?rb)"
      then have k: "k < a - t" by (simp add: rb_contents_def)
      have "(cur' + k) mod sz = (c + (t + k)) mod sz"
      proof (cases "l < t")
        case True
        then have e: "c + (t + k) = cur' + k + sz" using l ok by (simp add: cur'_def)
        show ?thesis unfolding e by simp
      next
        case False
        then show ?thesis using l by (simp add: cur'_def add.assoc)
      qed
      then show "rb_contents ?rb ! k = drop t (rb_contents rb) ! k"
        using k t by (simp add: cont rb_contents_def nth_ring fields [symmetric])
    qed
    moreover have "rb_ok ?rb" using ok l t by (auto simp: rb_ok_def fields [symmetric] cur'_def)
    ultimately show ?thesis using r takes by (intro exI [of _ ?ys] exI [of _ ?rb]) simp
  qed
qed

section \<open>The buffer is a bounded queue of bytes\<close>

definition rb_put :: "uint8 list \<Rightarrow> ring_buffer \<Rightarrow> nat \<times> ring_buffer" where
  "rb_put xs rb = (case rb_write (Some rb) xs of Some (n, Some rb') \<Rightarrow> (n, rb') | _ \<Rightarrow> (0, rb))"

definition rb_get :: "nat \<Rightarrow> ring_buffer \<Rightarrow> uint8 list \<times> ring_buffer" where
  "rb_get k rb = (case rb_read (Some rb) k of Some (ys, Some rb') \<Rightarrow> (ys, rb') | _ \<Rightarrow> ([], rb))"

lemma length_rb_contents: "length (rb_contents rb) = rb_avail rb"
  by (simp add: rb_contents_def)

interpretation rb: bounded_fifo rb_ok rb_contents rb_size rb_put rb_get
proof
  fix rb xs n rb'
  assume "rb_ok rb" "rb_put xs rb = (n, rb')"
  with rb_write_ok [of rb xs]
  show "n = min (length xs) (rb_size rb - length (rb_contents rb)) \<and> rb_ok rb' \<and> rb_size rb' = rb_size rb \<and>
      rb_contents rb' = rb_contents rb @ take n xs"
    by (auto simp: rb_put_def length_rb_contents)
next
  fix rb k ys rb'
  assume "rb_ok rb" "rb_get k rb = (ys, rb')"
  with rb_read_ok [of rb k]
  show "ys = take k (rb_contents rb) \<and> rb_ok rb' \<and> rb_size rb' = rb_size rb \<and> rb_contents rb' = drop k (rb_contents rb)"
    by (auto simp: rb_get_def)
next
  fix rb
  assume "rb_ok rb"
  then show "length (rb_contents rb) \<le> rb_size rb" by (simp add: length_rb_contents rb_ok_def)
qed

section \<open>Properties\<close>

text \<open>A sequence of calls, with the bytes accepted and delivered; \<open>None\<close> is a crash in one of them.\<close>

fun rb_calls :: "uint8 fifo_op list \<Rightarrow> ring_buffer \<Rightarrow> (uint8 list \<times> uint8 list \<times> ring_buffer) option" where
  "rb_calls [] rb = Some ([], [], rb)"
| "rb_calls (Write xs # ops) rb =
     (case rb_write (Some rb) xs of
        Some (n, Some rb1) \<Rightarrow> map_option (\<lambda>(i, out, rb2). (take n xs @ i, out, rb2)) (rb_calls ops rb1)
      | _ \<Rightarrow> None)"
| "rb_calls (Read k # ops) rb =
     (case rb_read (Some rb) k of
        Some (ys, Some rb1) \<Rightarrow> map_option (\<lambda>(i, out, rb2). (i, ys @ out, rb2)) (rb_calls ops rb1)
      | _ \<Rightarrow> None)"

lemma rb_calls_run: "rb_ok rb \<Longrightarrow> rb_calls ops rb = Some (rb.run ops rb)"
proof (induction ops arbitrary: rb)
  case (Cons op ops)
  show ?case
  proof (cases op)
    case (Write xs)
    from rb_write_ok [OF Cons.prems, of xs] obtain n rb1 where
      "rb_write (Some rb) xs = Some (n, Some rb1)" "rb_ok rb1" by blast
    moreover from this have "rb_put xs rb = (n, rb1)" by (simp add: rb_put_def)
    ultimately show ?thesis using Cons.IH Write by (simp split: prod.splits)
  next
    case (Read k)
    from rb_read_ok [OF Cons.prems, of k] obtain ys rb1 where
      "rb_read (Some rb) k = Some (ys, Some rb1)" "rb_ok rb1" by blast
    moreover from this have "rb_get k rb = (ys, rb1)" by (simp add: rb_get_def)
    ultimately show ?thesis using Cons.IH Read by (simp split: prod.splits)
  qed
qed simp

text \<open>
  C15: The ring buffer is a lossless queue of bytes: from an initialised buffer of positive size, any
  sequence of writes and reads of any lengths runs without a failed assertion, and the bytes
  delivered, followed by those still in the buffer, are the bytes accepted, in order.
\<close>

theorem ring_buffer_order:
  assumes "0 < sz"
  shows "\<exists>i out rb'. rb_calls ops (rb_init rb sz) = Some (i, out, rb') \<and> i = out @ rb_contents rb' \<and>
    length (rb_contents rb') \<le> sz"
proof -
  have ok: "rb_ok (rb_init rb sz)" "rb_contents (rb_init rb sz) = []" "rb_size (rb_init rb sz) = sz"
    using assms by (simp_all add: rb_ok_def rb_init_def rb_contents_def)
  obtain i out rb' where r: "rb.run ops (rb_init rb sz) = (i, out, rb')"
    by (cases "rb.run ops (rb_init rb sz)") auto
  from rb.run_order [OF ok(1) r] rb_calls_run [OF ok(1), of ops] ok r show ?thesis by auto
qed

theorem ring_buffer_order_witness:
  "\<exists>i out rb'. rb_calls [Write [1, 2, 3], Read 2, Write [4, 5, 6], Read 3]
     (rb_init \<lparr>rb_size = 0, rb_current = 0, rb_avail = 0, rb_data = (\<lambda>_. 0)\<rparr> 4) = Some (i, out, rb') \<and>
     i = out @ rb_contents rb'"
  using ring_buffer_order [of 4 "[Write [1, 2, 3], Read 2, Write [4, 5, 6], Read 3]"
      "\<lparr>rb_size = 0, rb_current = 0, rb_avail = 0, rb_data = (\<lambda>_. 0)\<rparr>"] by auto

end
