(* ===== verification/Dpc.thy ===== *)
theory Dpc
  imports Fifo
begin

text \<open>
  \<^verbatim>\<open>src/add-ons/kernel/generic/dpc/dpc.c\<close>: queues of deferred procedure calls. A queue is filled by
  any number of callers under its spinlock and emptied by one kernel thread that waits on a
  semaphore; deleting the semaphore ends the thread, which first runs the calls still queued.

  The sections under the spinlock are functions on the queue; the interleavings of callers, the
  thread and the deletion are a step relation. \<^verbatim>\<open>int\<close> values of the C code are HOL integers.
\<close>

section \<open>The queue\<close>

type_synonym ('f, 'a) dpc_slot = "'f \<times> 'a"

record ('f, 'a) dpc_queue =
  dq_thread :: int
  dq_size :: nat
  dq_count :: int
  dq_head :: nat
  dq_tail :: nat
  dq_slots :: "nat \<Rightarrow> ('f, 'a) dpc_slot"

abbreviation DPC_QUEUE_SIZE :: nat where "DPC_QUEUE_SIZE \<equiv> 64"

text \<open>
  \<open>new_dpc_queue\<close>: \<open>garbage\<close> is the uninitialised memory of the slots, \<open>sem\<close> and \<open>thread\<close> are the
  results of \<^verbatim>\<open>create_sem\<close> and \<^verbatim>\<open>spawn_kernel_thread\<close>; a negative one is the error that is returned.
\<close>

definition new_dpc_queue ::
    "bool \<Rightarrow> bool \<Rightarrow> int \<Rightarrow> int \<Rightarrow> (nat \<Rightarrow> ('f, 'a) dpc_slot) \<Rightarrow> (status_t + int) + ('f, 'a) dpc_queue" where
  "new_dpc_queue handle_ok malloc_ok sem thread garbage =
     (if \<not> handle_ok then Inl (Inl B_BAD_VALUE)
      else if \<not> malloc_ok then Inl (Inl B_NO_MEMORY)
      else if sem < 0 then Inl (Inr sem)
      else if thread < 0 then Inl (Inr thread)
      else Inr \<lparr>dq_thread = thread, dq_size = DPC_QUEUE_SIZE, dq_count = 0, dq_head = 0, dq_tail = 0,
                dq_slots = garbage\<rparr>)"

text \<open>The section of \<open>queue_dpc\<close> under the spinlock.\<close>

definition enqueue_dpc ::
    "('f, 'a) dpc_queue \<Rightarrow> 'f \<Rightarrow> 'a \<Rightarrow> status_t \<times> ('f, 'a) dpc_queue" where
  "enqueue_dpc q func arg =
     (if dq_thread q < 0 then (B_CANCELED, q)
      else if dq_count q = int (dq_size q) then (B_NO_MEMORY, q)
      else (B_OK, q\<lparr>dq_slots := (dq_slots q)(dq_tail q := (func, arg)),
                     dq_tail := (dq_tail q + 1) mod dq_size q, dq_count := dq_count q + 1\<rparr>))"


text \<open>The section of \<open>dpc_thread\<close> under the spinlock.\<close>

definition dequeue_dpc :: "('f, 'a) dpc_queue \<Rightarrow> ('f, 'a) dpc_slot \<times> ('f, 'a) dpc_queue" where
  "dequeue_dpc q =
     (dq_slots q (dq_head q),
      q\<lparr>dq_head := (dq_head q + 1) mod dq_size q, dq_count := dq_count q - 1\<rparr>)"

text \<open>
  One round of \<^verbatim>\<open>while (queue->count--)\<close>, with the value tested before the decrement; the whole
  loop returns the calls it makes, in order.
\<close>

definition drain_test :: "('f, 'a) dpc_queue \<Rightarrow> bool \<times> ('f, 'a) dpc_queue" where
  "drain_test q = (dq_count q \<noteq> 0, q\<lparr>dq_count := dq_count q - 1\<rparr>)"

definition drain_take :: "('f, 'a) dpc_queue \<Rightarrow> ('f, 'a) dpc_slot \<times> ('f, 'a) dpc_queue" where
  "drain_take q = (dq_slots q (dq_head q), q\<lparr>dq_head := (dq_head q + 1) mod dq_size q\<rparr>)"

partial_function (option) drain_loop ::
    "('f, 'a) dpc_queue \<Rightarrow> (('f, 'a) dpc_slot list \<times> ('f, 'a) dpc_queue) option" where
  "drain_loop q =
     (if \<not> fst (drain_test q) then Some ([], snd (drain_test q))
      else
        Option.bind (drain_loop (snd (drain_take (snd (drain_test q)))))
          (\<lambda>r. Some (fst (drain_take (snd (drain_test q))) # fst r, snd r)))"

text \<open>
  The section of \<open>delete_dpc_queue\<close> under the spinlock, and the whole operation on a queue whose
  thread waits on the semaphore: its deletion ends the wait, and the calls that the thread still
  makes are part of the result.
\<close>

definition close_dpc :: "('f, 'a) dpc_queue \<Rightarrow> ('f, 'a) dpc_queue" where
  "close_dpc q = q\<lparr>dq_thread := - 1\<rparr>"

definition delete_dpc_queue ::
    "('f, 'a) dpc_queue option \<Rightarrow> (status_t \<times> ('f, 'a) dpc_slot list) option" where
  "delete_dpc_queue handle =
     (case handle of
        None \<Rightarrow> Some (B_BAD_VALUE, [])
      | Some q \<Rightarrow> map_option (\<lambda>r. (B_OK, fst r)) (drain_loop (close_dpc q)))"

section \<open>The system of callers, thread and deletion\<close>

datatype ('f, 'a) worker =
    Waiting | Acquired | Running "('f, 'a) dpc_slot" | Draining | DrainRunning "('f, 'a) dpc_slot" | Finished

text \<open>
  \<open>sys_releasing\<close> counts the callers that have filled a slot and not yet released the semaphore;
  \<open>sys_accepted\<close> and \<open>sys_called\<close> record the calls accepted and the calls made.
\<close>

record ('f, 'a) dpc_system =
  sys_queue :: "('f, 'a) dpc_queue"
  sys_sem :: nat
  sys_sem_alive :: bool
  sys_releasing :: nat
  sys_worker :: "('f, 'a) worker"
  sys_accepted :: "('f, 'a) dpc_slot list"
  sys_called :: "('f, 'a) dpc_slot list"

inductive dpc_step :: "('f, 'a) dpc_system \<Rightarrow> ('f, 'a) dpc_system \<Rightarrow> bool" where
  enqueue: "enqueue_dpc (sys_queue s) f a = (B_OK, q) \<Longrightarrow>
    dpc_step s (s\<lparr>sys_queue := q, sys_releasing := sys_releasing s + 1, sys_accepted := sys_accepted s @ [(f, a)]\<rparr>)"
| release: "sys_releasing s = Suc n \<Longrightarrow> sys_sem_alive s \<Longrightarrow>
    dpc_step s (s\<lparr>sys_releasing := n, sys_sem := sys_sem s + 1\<rparr>)"
| release_dead: "sys_releasing s = Suc n \<Longrightarrow> \<not> sys_sem_alive s \<Longrightarrow> dpc_step s (s\<lparr>sys_releasing := n\<rparr>)"
| acquire: "sys_worker s = Waiting \<Longrightarrow> sys_sem_alive s \<Longrightarrow> sys_sem s = Suc n \<Longrightarrow>
    dpc_step s (s\<lparr>sys_sem := n, sys_worker := Acquired\<rparr>)"
| dequeue: "sys_worker s = Acquired \<Longrightarrow> dequeue_dpc (sys_queue s) = (d, q) \<Longrightarrow>
    dpc_step s (s\<lparr>sys_queue := q, sys_worker := Running d\<rparr>)"
| call: "sys_worker s = Running d \<Longrightarrow>
    dpc_step s (s\<lparr>sys_worker := Waiting, sys_called := sys_called s @ [d]\<rparr>)"
| close: "dpc_step s (s\<lparr>sys_queue := close_dpc (sys_queue s)\<rparr>)"
| delete_sem: "dq_thread (sys_queue s) = - 1 \<Longrightarrow> dpc_step s (s\<lparr>sys_sem_alive := False\<rparr>)"
| acquire_fails: "sys_worker s = Waiting \<Longrightarrow> \<not> sys_sem_alive s \<Longrightarrow> dpc_step s (s\<lparr>sys_worker := Draining\<rparr>)"
| drain: "sys_worker s = Draining \<Longrightarrow> drain_test (sys_queue s) = (True, q) \<Longrightarrow> drain_take q = (d, q') \<Longrightarrow>
    dpc_step s (s\<lparr>sys_queue := q', sys_worker := DrainRunning d\<rparr>)"
| drain_call: "sys_worker s = DrainRunning d \<Longrightarrow>
    dpc_step s (s\<lparr>sys_worker := Draining, sys_called := sys_called s @ [d]\<rparr>)"
| drain_end: "sys_worker s = Draining \<Longrightarrow> drain_test (sys_queue s) = (False, q) \<Longrightarrow>
    dpc_step s (s\<lparr>sys_queue := q, sys_worker := Finished\<rparr>)"

inductive_cases dpc_stepE: "dpc_step s s'"

inductive dpc_reach :: "('f, 'a) dpc_system \<Rightarrow> bool" where
  start: "new_dpc_queue True True sem thread garbage = Inr q \<Longrightarrow>
    dpc_reach \<lparr>sys_queue = q, sys_sem = 0, sys_sem_alive = True, sys_releasing = 0, sys_worker = Waiting,
      sys_accepted = [], sys_called = []\<rparr>"
| step: "dpc_reach s \<Longrightarrow> dpc_step s s' \<Longrightarrow> dpc_reach s'"

section \<open>The contents of a queue\<close>

definition dq_contents :: "('f, 'a) dpc_queue \<Rightarrow> ('f, 'a) dpc_slot list" where
  "dq_contents q = ring (dq_slots q) (dq_size q) (dq_head q) (nat (dq_count q))"

definition dq_ok :: "('f, 'a) dpc_queue \<Rightarrow> bool" where
  "dq_ok q \<longleftrightarrow> 0 < dq_size q \<and> 0 \<le> dq_count q \<and> dq_count q \<le> int (dq_size q) \<and> dq_head q < dq_size q \<and>
     dq_tail q = (dq_head q + nat (dq_count q)) mod dq_size q"

lemma length_dq_contents: "length (dq_contents q) = nat (dq_count q)"
  by (simp add: dq_contents_def)

lemma enqueue_ok:
  assumes "dq_ok q" "enqueue_dpc q f a = (B_OK, q')"
  shows "dq_ok q' \<and> dq_contents q' = dq_contents q @ [(f, a)] \<and> dq_count q' = dq_count q + 1 \<and>
    0 \<le> dq_thread q \<and> dq_thread q' = dq_thread q"
proof -
  from assms(2) have q': "q' = q\<lparr>dq_slots := (dq_slots q)(dq_tail q := (f, a)),
      dq_tail := (dq_tail q + 1) mod dq_size q, dq_count := dq_count q + 1\<rparr>"
    and c: "dq_count q \<noteq> int (dq_size q)" "0 \<le> dq_thread q"
    by (auto simp: enqueue_dpc_def split: if_splits)
  have n: "nat (dq_count q) < dq_size q" "nat (dq_count q + 1) = Suc (nat (dq_count q))"
    using assms(1) c by (auto simp: dq_ok_def)
  have t: "dq_tail q = (dq_head q + nat (dq_count q)) mod dq_size q" using assms(1) by (simp add: dq_ok_def)
  have "dq_contents q' = dq_contents q @ [(f, a)]"
    using ring_push [OF n(1), of "dq_slots q" "dq_head q" "(f, a)"] n(2)
    by (simp add: q' dq_contents_def t)
  moreover have "dq_ok q'" using assms(1) n by (auto simp: q' dq_ok_def mod_simps)
  ultimately show ?thesis using c(2) by (simp add: q')
qed

lemma dequeue_ok:
  assumes "dq_ok q" "0 < dq_count q" "dequeue_dpc q = (d, q')"
  shows "dq_ok q' \<and> dq_contents q = d # dq_contents q' \<and> dq_count q' = dq_count q - 1 \<and> dq_thread q' = dq_thread q"
proof -
  have q': "q' = q\<lparr>dq_head := (dq_head q + 1) mod dq_size q, dq_count := dq_count q - 1\<rparr>" "d = dq_slots q (dq_head q)"
    using assms(3) by (simp_all add: dequeue_dpc_def)
  define n where "n = nat (dq_count q - 1)"
  then have n: "nat (dq_count q) = Suc n" "nat (dq_count q - 1) = n" "dq_count q = int n + 1"
    using assms(2) by auto
  have "dq_head q mod dq_size q = dq_head q" using assms(1) by (simp add: dq_ok_def)
  then have "dq_contents q = d # dq_contents q'"
    unfolding dq_contents_def by (simp add: q' n(1,2) ring_Cons)
  moreover have "dq_ok q'" using assms(1) n by (simp add: q' dq_ok_def mod_simps)
  ultimately show ?thesis by (simp add: q')
qed

lemma drain_eq: "drain_take (snd (drain_test q)) = dequeue_dpc q"
  by (simp add: drain_take_def drain_test_def dequeue_dpc_def)


section \<open>The invariant of the system\<close>

fun in_hand :: "('f, 'a) worker \<Rightarrow> ('f, 'a) dpc_slot list" where
  "in_hand (Running d) = [d]"
| "in_hand (DrainRunning d) = [d]"
| "in_hand _ = []"

text \<open>
  In the loop of the thread the semaphore, the releases under way and a successful acquisition
  account for every queued call; from the draining on, the queue is closed.
\<close>

definition dpc_inv :: "('f, 'a) dpc_system \<Rightarrow> bool" where
  "dpc_inv s \<longleftrightarrow>
     (\<not> sys_sem_alive s \<longrightarrow> dq_thread (sys_queue s) < 0) \<and>
     (if sys_worker s = Finished
      then sys_accepted s = sys_called s \<and> \<not> sys_sem_alive s
      else dq_ok (sys_queue s) \<and>
        sys_accepted s = sys_called s @ in_hand (sys_worker s) @ dq_contents (sys_queue s) \<and>
        (if sys_worker s = Draining \<or> (\<exists>d. sys_worker s = DrainRunning d) then \<not> sys_sem_alive s
         else (sys_worker s = Acquired \<longrightarrow> 0 < dq_count (sys_queue s)) \<and>
           (sys_sem_alive s \<longrightarrow> dq_count (sys_queue s) =
              int (sys_sem s + sys_releasing s + (if sys_worker s = Acquired then 1 else 0)))))"

lemma close_dpc_simps [simp]: "dq_ok (close_dpc q) = dq_ok q" "dq_contents (close_dpc q) = dq_contents q"
  "dq_count (close_dpc q) = dq_count q" "dq_thread (close_dpc q) = - 1" "dq_size (close_dpc q) = dq_size q"
  by (simp_all add: dq_ok_def dq_contents_def close_dpc_def)

lemma dpc_inv_step:
  assumes "dpc_step s s'" "dpc_inv s"
  shows "dpc_inv s'"
  using assms
proof (cases rule: dpc_step.cases)
  case (enqueue f a q)
  have "0 \<le> dq_thread (sys_queue s)" using enqueue(2) by (auto simp: enqueue_dpc_def split: if_splits)
  then have alive: "sys_sem_alive s" "sys_worker s \<noteq> Finished" "sys_worker s \<noteq> Draining"
      "\<And>d. sys_worker s \<noteq> DrainRunning d"
    using assms(2) by (auto simp: dpc_inv_def split: if_splits)
  with enqueue_ok [OF _ enqueue(2)] assms(2) show ?thesis
    unfolding enqueue(1) dpc_inv_def by auto
next
  case (dequeue d q)
  with assms(2) have "dq_ok (sys_queue s)" "0 < dq_count (sys_queue s)" by (simp_all add: dpc_inv_def)
  from dequeue_ok [OF this dequeue(3)] assms(2) dequeue show ?thesis by (auto simp: dpc_inv_def)
next
  case (drain q d q')
  then have "dq_count (sys_queue s) \<noteq> 0" "drain_take (snd (drain_test (sys_queue s))) = (d, q')"
    by (auto simp: drain_test_def)
  moreover have "dq_ok (sys_queue s)" using assms(2) drain by (simp add: dpc_inv_def)
  ultimately have "0 < dq_count (sys_queue s)" "dequeue_dpc (sys_queue s) = (d, q')"
    by (auto simp: drain_eq dq_ok_def)
  from dequeue_ok [OF \<open>dq_ok (sys_queue s)\<close> this] assms(2) drain show ?thesis by (auto simp: dpc_inv_def)
next
  case (drain_end q)
  then have "dq_count (sys_queue s) = 0" by (auto simp: drain_test_def)
  then have "dq_contents (sys_queue s) = []" by (simp add: dq_contents_def)
  with assms(2) drain_end show ?thesis by (auto simp: dpc_inv_def drain_test_def)
qed (auto simp: dpc_inv_def split: if_splits)

lemma dpc_reach_inv: "dpc_reach s \<Longrightarrow> dpc_inv s"
proof (induction rule: dpc_reach.induct)
  case (start sem thread garbage q)
  then show ?case
    by (auto simp: dpc_inv_def new_dpc_queue_def dq_ok_def dq_contents_def split: if_splits)
qed (rule dpc_inv_step)

lemma dpc_reach_size: "dpc_reach s \<Longrightarrow> dq_size (sys_queue s) = DPC_QUEUE_SIZE"
proof (induction rule: dpc_reach.induct)
  case (start sem thread garbage q)
  then show ?case by (auto simp: new_dpc_queue_def split: if_splits)
next
  case (step s s')
  then show ?case
    by (auto elim!: dpc_stepE simp: enqueue_dpc_def dequeue_dpc_def drain_test_def drain_take_def split: if_splits)
qed

lemma drain_loop_ok:
  "dq_ok q \<Longrightarrow> nat (dq_count q) = n \<Longrightarrow> \<exists>q'. drain_loop q = Some (dq_contents q, q') \<and> dq_count q' = - 1"
proof (induction n arbitrary: q)
  case 0
  then have "dq_count q = 0" by (simp add: dq_ok_def)
  then show ?case by (subst drain_loop.simps) (simp add: drain_test_def dq_contents_def)
next
  case (Suc n)
  then have pos: "0 < dq_count q" by simp
  obtain d q1 where d: "dequeue_dpc q = (d, q1)" by (cases "dequeue_dpc q") auto
  from dequeue_ok [OF Suc.prems(1) pos d] Suc.prems(2) have q1: "dq_ok q1" "dq_contents q = d # dq_contents q1"
    "nat (dq_count q1) = n" by auto
  from Suc.IH [OF q1(1,3)] q1(2) d pos show ?case
    by (subst drain_loop.simps) (auto simp: drain_eq, simp add: drain_test_def)
qed

section \<open>Properties\<close>

text \<open>
  C4: In every interleaving of callers, queue thread and deletion the calls are made in the order
  in which they were accepted, each once; the thread never takes a slot from an empty queue, and
  when it has ended every accepted call has been made.
\<close>

theorem dpc_exactly_once:
  assumes "dpc_reach s"
  shows "(\<exists>rest. sys_accepted s = sys_called s @ rest \<and> length rest \<le> DPC_QUEUE_SIZE + 1) \<and>
    (sys_worker s = Acquired \<longrightarrow> 0 < dq_count (sys_queue s)) \<and>
    (sys_worker s = Finished \<longrightarrow> sys_accepted s = sys_called s)"
proof -
  note inv = dpc_reach_inv [OF assms, unfolded dpc_inv_def]
  have "length (in_hand (sys_worker s) @ dq_contents (sys_queue s)) \<le> DPC_QUEUE_SIZE + 1"
    if "sys_worker s \<noteq> Finished"
  proof -
    have "length (in_hand (sys_worker s)) \<le> 1" by (cases "sys_worker s") auto
    moreover have "length (dq_contents (sys_queue s)) \<le> DPC_QUEUE_SIZE"
    proof -
      have "dq_ok (sys_queue s)" using inv that by simp
      then have "dq_count (sys_queue s) \<le> 64" using dpc_reach_size [OF assms] by (simp add: dq_ok_def)
      then show ?thesis by (simp add: length_dq_contents nat_le_iff)
    qed
    ultimately show ?thesis by simp
  qed
  with inv show ?thesis by (cases "sys_worker s = Finished") auto
qed

theorem dpc_exactly_once_witness:
  "\<exists>s. dpc_reach (s :: (nat, nat) dpc_system) \<and> sys_accepted s = [(3, 4)] \<and>
     (\<exists>rest. [(3, 4)] = sys_called s @ rest)"
proof -
  let ?q = "\<lparr>dq_thread = 1, dq_size = 64, dq_count = 0, dq_head = 0, dq_tail = 0, dq_slots = (\<lambda>_. (0, 0))\<rparr> :: (nat, nat) dpc_queue"
  let ?s = "\<lparr>sys_queue = ?q, sys_sem = 0, sys_sem_alive = True, sys_releasing = 0, sys_worker = Waiting,
      sys_accepted = [], sys_called = []\<rparr>"
  have "dpc_reach ?s" by (rule dpc_reach.start [of 1 1]) (simp add: new_dpc_queue_def)
  moreover have e: "enqueue_dpc (sys_queue ?s) 3 4 = (B_OK, snd (enqueue_dpc ?q 3 4))"
    by (simp add: enqueue_dpc_def)
  ultimately have r: "dpc_reach (?s\<lparr>sys_queue := snd (enqueue_dpc ?q 3 4), sys_releasing := sys_releasing ?s + 1,
      sys_accepted := sys_accepted ?s @ [(3, 4)]\<rparr>)"
    by (rule dpc_reach.step [OF _ dpc_step.enqueue])
  from dpc_exactly_once [OF r] r show ?thesis by (intro exI conjI) (rule r, simp_all)
qed



text \<open>
  C27: The loop that finishes the pending calls of a deleted queue ends, makes exactly the calls in the
  queue in their order, and leaves the count at -1.
\<close>

theorem drain_loop_exact:
  assumes "dq_ok q"
  shows "(\<exists>q'. drain_loop q = Some (dq_contents q, q') \<and> dq_count q' = - 1) \<and>
    delete_dpc_queue (Some q) = Some (B_OK, dq_contents q)"
  using drain_loop_ok [OF assms refl] drain_loop_ok [of "close_dpc q"] assms
  by (auto simp: delete_dpc_queue_def)

theorem drain_loop_exact_witness:
  "\<exists>q'. drain_loop \<lparr>dq_thread = - 1, dq_size = 64, dq_count = 2, dq_head = 63, dq_tail = 1, dq_slots = (\<lambda>i. (i, i))\<rparr> =
     Some ([(63, 63), (0, 0)], q')"
  using drain_loop_exact [of "\<lparr>dq_thread = - 1, dq_size = 64, dq_count = 2, dq_head = 63, dq_tail = 1, dq_slots = (\<lambda>i. (i, i))\<rparr>"]
  by (auto simp: dq_ok_def dq_contents_def ring_def upt_rec)

end
