(* ===== verification/Xdr.thy ===== *)
theory Xdr
  imports Prelude
begin

text \<open>
  \<^verbatim>\<open>src/add-ons/kernel/file_systems/nfs/XDROutPacket.c\<close> and \<^verbatim>\<open>XDRInPacket.c\<close>: building and
  reading the XDR packets of the NFS client. A buffer is a function on its indices with the size
  that was allocated; writing or reading outside of it, or through the null pointer of a failed
  allocation, is \<open>None\<close>. Which allocations succeed, whether a caller's buffer is in user space and
  whether \<^verbatim>\<open>user_memcpy\<close> reaches it are arguments. Sizes are far below the range of \<^verbatim>\<open>size_t\<close>.
\<close>

section \<open>Packets under construction\<close>

record xdr_out =
  xo_buffer :: "nat \<Rightarrow> uint8"
  xo_size :: nat
  xo_length :: nat

text \<open>Where the bytes of a caller come from or go to.\<close>

datatype caller_memory = Kernel_Address | User_Address bool

definition XDROutPacketInit :: "(nat \<Rightarrow> uint8) \<Rightarrow> xdr_out" where
  "XDROutPacketInit garbage = \<lparr>xo_buffer = garbage, xo_size = 0, xo_length = 0\<rparr>"

abbreviation XDROUTPACKET_BUFFER_INCREMENT :: nat where "XDROUTPACKET_BUFFER_INCREMENT \<equiv> 512"

function grow_size :: "nat \<Rightarrow> nat \<Rightarrow> nat" where
  "grow_size need sz =
     (if need > sz then grow_size need (sz + XDROUTPACKET_BUFFER_INCREMENT) else sz)"
  by pat_completeness auto
termination by (relation "measure (\<lambda>(need, sz). need - sz)") auto

declare grow_size.simps [simp del]

definition XDROutPacketGrow :: "(nat \<Rightarrow> bool) \<Rightarrow> xdr_out \<Rightarrow> nat \<Rightarrow> xdr_out option" where
  "XDROutPacketGrow alloc_ok p sz =
     (if xo_length p + sz > xo_size p then
        (let n = grow_size (xo_length p + sz) (xo_size p)
         in if alloc_ok n then Some (p\<lparr>xo_size := n\<rparr>) else None)
      else Some p)"

text \<open>A write of bytes at an offset of the buffer, which must lie in it.\<close>

definition stored :: "(nat \<Rightarrow> uint8) \<Rightarrow> nat \<Rightarrow> uint8 list \<Rightarrow> nat \<Rightarrow> uint8" where
  "stored buf off bs j = (if off \<le> j \<and> j < off + length bs then bs ! (j - off) else buf j)"

definition store :: "xdr_out \<Rightarrow> nat \<Rightarrow> uint8 list \<Rightarrow> xdr_out option" where
  "store p off bs =
     (if off + length bs \<le> xo_size p then
        Some (p\<lparr>xo_buffer := stored (xo_buffer p) off bs\<rparr>)
      else None)"

definition be32 :: "uint32 \<Rightarrow> uint8 list" where
  "be32 v = [ucast (drop_bit 24 v), ucast (drop_bit 16 v), ucast (drop_bit 8 v), ucast v]"

definition XDROutPacketAddInt32 :: "(nat \<Rightarrow> bool) \<Rightarrow> xdr_out \<Rightarrow> uint32 \<Rightarrow> xdr_out option" where
  "XDROutPacketAddInt32 alloc_ok p val =
     Option.bind (XDROutPacketGrow alloc_ok p 4) (\<lambda>p1.
     map_option (\<lambda>p2. p2\<lparr>xo_length := xo_length p2 + 4\<rparr>) (store p1 (xo_length p1) (be32 val)))"

definition rounded :: "nat \<Rightarrow> nat" where
  "rounded sz = (sz + 3) div 4 * 4"

definition XDROutPacketAddFixed ::
    "(nat \<Rightarrow> bool) \<Rightarrow> xdr_out \<Rightarrow> caller_memory \<Rightarrow> uint8 list \<Rightarrow> (xdr_out \<times> status_t) option" where
  "XDROutPacketAddFixed alloc_ok p src data =
     (let sz = length data; roundedSize = rounded sz in
      Option.bind (XDROutPacketGrow alloc_ok p roundedSize) (\<lambda>p1.
        if src = User_Address False then Some (p1, B_BAD_ADDRESS)
        else
          Option.bind (store p1 (xo_length p1) data) (\<lambda>p2.
          map_option (\<lambda>p3. (p3\<lparr>xo_length := xo_length p3 + roundedSize\<rparr>, B_OK))
            (store p2 (xo_length p2 + sz) (replicate (roundedSize - sz) 0)))))"

definition XDROutPacketAddDynamic ::
    "(nat \<Rightarrow> bool) \<Rightarrow> xdr_out \<Rightarrow> caller_memory \<Rightarrow> uint8 list \<Rightarrow> (xdr_out \<times> status_t) option" where
  "XDROutPacketAddDynamic alloc_ok p src data =
     Option.bind (XDROutPacketAddInt32 alloc_ok p (of_nat (length data)))
       (\<lambda>p1. XDROutPacketAddFixed alloc_ok p1 src data)"

text \<open>The string is given by its bytes up to the terminator.\<close>

definition XDROutPacketAddString ::
    "(nat \<Rightarrow> bool) \<Rightarrow> xdr_out \<Rightarrow> caller_memory \<Rightarrow> uint8 list \<Rightarrow> (xdr_out \<times> status_t) option" where
  "XDROutPacketAddString alloc_ok p src str =
     XDROutPacketAddDynamic alloc_ok p src (takeWhile (\<lambda>b. b \<noteq> 0) str)"

definition XDROutPacketAppend :: "(nat \<Rightarrow> bool) \<Rightarrow> xdr_out \<Rightarrow> xdr_out \<Rightarrow> xdr_out option" where
  "XDROutPacketAppend alloc_ok me packet =
     Option.bind (XDROutPacketGrow alloc_ok me (xo_length packet)) (\<lambda>p1.
     map_option (\<lambda>p2. p2\<lparr>xo_length := xo_length p2 + xo_length packet\<rparr>)
       (store p1 (xo_length p1) (map (xo_buffer packet) [0..<xo_length packet])))"

definition XDROutPacketClear :: "xdr_out \<Rightarrow> xdr_out" where
  "XDROutPacketClear p = p\<lparr>xo_length := 0\<rparr>"

definition XDROutPacketBuffer :: "xdr_out \<Rightarrow> uint8 list" where
  "XDROutPacketBuffer p = map (xo_buffer p) [0..<xo_size p]"

definition XDROutPacketLength :: "xdr_out \<Rightarrow> nat" where
  "XDROutPacketLength p = xo_length p"

section \<open>Packets received\<close>

record xdr_in =
  xi_buffer :: "uint8 list"
  xi_offset :: nat

definition XDRInPacketSetTo :: "xdr_in \<Rightarrow> uint8 list \<Rightarrow> nat \<Rightarrow> xdr_in" where
  "XDRInPacketSetTo p buffer off = p\<lparr>xi_buffer := buffer, xi_offset := off\<rparr>"

definition XDRInPacketInit :: xdr_in where
  "XDRInPacketInit = \<lparr>xi_buffer = [], xi_offset = 0\<rparr>"

definition load :: "xdr_in \<Rightarrow> nat \<Rightarrow> uint8 list option" where
  "load p len =
     (if xi_offset p + len \<le> length (xi_buffer p) then Some (take len (drop (xi_offset p) (xi_buffer p))) else None)"

definition from_be32 :: "uint8 list \<Rightarrow> uint32" where
  "from_be32 bs = foldl (\<lambda>v b. push_bit 8 v OR ucast b) 0 bs"

definition XDRInPacketGetInt32 :: "xdr_in \<Rightarrow> (uint32 \<times> xdr_in) option" where
  "XDRInPacketGetInt32 p =
     map_option (\<lambda>bs. (from_be32 bs, p\<lparr>xi_offset := xi_offset p + 4\<rparr>)) (load p 4)"

definition XDRInPacketGetFixed ::
    "xdr_in \<Rightarrow> caller_memory \<Rightarrow> nat \<Rightarrow> (uint8 list option \<times> status_t \<times> xdr_in) option" where
  "XDRInPacketGetFixed p dst len =
     (if dst = User_Address False then Some (None, B_BAD_ADDRESS, p)
      else map_option (\<lambda>bs. (Some bs, B_OK, p\<lparr>xi_offset := xi_offset p + rounded len\<rparr>)) (load p len))"

text \<open>The length word is a signed 32-bit integer that \<^verbatim>\<open>size_t\<close> extends.\<close>

definition wire_length :: "uint32 \<Rightarrow> nat" where
  "wire_length w = unat (of_int (sint w) :: uint64)"

definition XDRInPacketGetDynamic ::
    "xdr_in \<Rightarrow> caller_memory \<Rightarrow> (uint8 list option \<times> status_t \<times> xdr_in) option" where
  "XDRInPacketGetDynamic p dst =
     Option.bind (XDRInPacketGetInt32 p) (\<lambda>(len, p1). XDRInPacketGetFixed p1 dst (wire_length len))"

text \<open>
  The string buffer has \<open>size + 1\<close> bytes, computed in \<^verbatim>\<open>int32\<close> and then extended to \<^verbatim>\<open>size_t\<close>; a
  negative size or a failed allocation makes the write of the terminator hit foreign memory. The
  result is the buffer up to and including the terminator.
\<close>

definition XDRInPacketGetString :: "(nat \<Rightarrow> bool) \<Rightarrow> xdr_in \<Rightarrow> (uint8 list \<times> xdr_in) option" where
  "XDRInPacketGetString alloc_ok p =
     Option.bind (XDRInPacketGetInt32 p) (\<lambda>(sz, p1).
       if sint sz < 0 \<or> \<not> alloc_ok (wire_length (sz + 1)) then None
       else
         Option.bind (XDRInPacketGetFixed p1 Kernel_Address (unat sz)) (\<lambda>(bs, st, p2).
           map_option (\<lambda>bs. (bs @ [0], p2)) bs))"

section \<open>Growing and storing\<close>

definition xo_ok :: "xdr_out \<Rightarrow> bool" where
  "xo_ok p \<longleftrightarrow> xo_length p \<le> xo_size p"

definition xo_bytes :: "xdr_out \<Rightarrow> uint8 list" where
  "xo_bytes p = map (xo_buffer p) [0..<xo_length p]"

lemma grow_size_ge: "need \<le> grow_size need sz \<and> sz \<le> grow_size need sz"
  by (induction need sz rule: grow_size.induct) (subst (1 2) grow_size.simps, auto)

text \<open>At most one increment too much is allocated, and the size stays a multiple of it.\<close>

lemma grow_size_bound:
  "grow_size need sz \<le> max sz (need + 511) \<and> (512 dvd sz \<longrightarrow> 512 dvd grow_size need sz)"
proof (induction need sz rule: grow_size.induct)
  case (1 need sz)
  show ?case
  proof (cases "need > sz")
    case True
    with 1 have "grow_size need (sz + 512) \<le> max (sz + 512) (need + 511)"
      "512 dvd sz \<longrightarrow> 512 dvd grow_size need (sz + 512)" by auto
    with True show ?thesis by (subst (1 2) grow_size.simps) auto
  qed (simp add: grow_size.simps [of need sz])
qed

lemma grow_ok:
  assumes "\<forall>n. alloc_ok n" "xo_ok p"
  shows "\<exists>p'. XDROutPacketGrow alloc_ok p sz = Some p' \<and> xo_length p' = xo_length p \<and> xo_buffer p' = xo_buffer p \<and>
    xo_length p + sz \<le> xo_size p'"
  using assms grow_size_ge [of "xo_length p + sz" "xo_size p"] by (auto simp: XDROutPacketGrow_def Let_def)

lemma stored_bytes: "map (stored buf off bs) [0..<off + length bs] = map buf [0..<off] @ bs"
proof (rule nth_equalityI)
  fix i assume "i < length (map (stored buf off bs) [0..<off + length bs])"
  then have "i < off + length bs" by simp
  then show "map (stored buf off bs) [0..<off + length bs] ! i = (map buf [0..<off] @ bs) ! i"
    by (cases "i < off") (simp_all add: nth_append stored_def)
qed simp

lemma store_ok_at:
  assumes "off + length bs \<le> xo_size p"
  shows "\<exists>p'. store p off bs = Some p' \<and> xo_length p' = xo_length p \<and> xo_size p' = xo_size p \<and>
     map (xo_buffer p') [0..<off + length bs] = map (xo_buffer p) [0..<off] @ bs"
  using assms stored_bytes [of "xo_buffer p" off bs] by (simp add: store_def stored_def)

lemma store_ok:
  assumes "xo_length p + length bs \<le> xo_size p"
  shows "\<exists>p'. store p (xo_length p) bs = Some p' \<and> xo_length p' = xo_length p \<and> xo_size p' = xo_size p \<and>
     map (xo_buffer p') [0..<xo_length p + length bs] = xo_bytes p @ bs"
  using assms
  unfolding xo_bytes_def by (rule store_ok_at)

lemma add_int_ok:
  assumes "\<forall>n. alloc_ok n" "xo_ok p"
  shows "\<exists>p'. XDROutPacketAddInt32 alloc_ok p v = Some p' \<and> xo_ok p' \<and> xo_bytes p' = xo_bytes p @ be32 v"
proof -
  from grow_ok [OF assms, where sz = 4] obtain p1 where
    1: "XDROutPacketGrow alloc_ok p 4 = Some p1" "xo_length p1 = xo_length p" "xo_buffer p1 = xo_buffer p"
      "xo_length p + 4 \<le> xo_size p1" by blast
  have l: "length (be32 v) = 4" by (simp add: be32_def)
  from store_ok [of p1 "be32 v"] 1 l obtain p2 where
    "store p1 (xo_length p1) (be32 v) = Some p2" "xo_length p2 = xo_length p1" "xo_size p2 = xo_size p1"
    "map (xo_buffer p2) [0..<xo_length p1 + 4] = xo_bytes p1 @ be32 v" by auto
  with 1 show ?thesis
    by (simp add: XDROutPacketAddInt32_def xo_ok_def xo_bytes_def)
qed

lemma add_fixed_ok:
  assumes "\<forall>n. alloc_ok n" "xo_ok p" "src \<noteq> User_Address False"
  shows "\<exists>p'. XDROutPacketAddFixed alloc_ok p src bs = Some (p', B_OK) \<and> xo_ok p' \<and>
    xo_bytes p' = xo_bytes p @ bs @ replicate (rounded (length bs) - length bs) 0"
proof -
  have r: "length bs \<le> rounded (length bs)" by (simp add: rounded_def)
  from grow_ok [OF assms(1,2), where sz = "rounded (length bs)"] obtain p1 where
    1: "XDROutPacketGrow alloc_ok p (rounded (length bs)) = Some p1" "xo_length p1 = xo_length p"
      "xo_buffer p1 = xo_buffer p" "xo_length p + rounded (length bs) \<le> xo_size p1" by blast
  from store_ok [of p1 bs] 1 r obtain p2 where
    2: "store p1 (xo_length p1) bs = Some p2" "xo_length p2 = xo_length p1" "xo_size p2 = xo_size p1"
      "map (xo_buffer p2) [0..<xo_length p1 + length bs] = xo_bytes p1 @ bs" by auto
  from store_ok_at [of "xo_length p2 + length bs" "replicate (rounded (length bs) - length bs) 0" p2] 1 2 r
  obtain p3 where
    3: "store p2 (xo_length p2 + length bs) (replicate (rounded (length bs) - length bs) 0) = Some p3"
      "xo_length p3 = xo_length p2" "xo_size p3 = xo_size p2"
      "map (xo_buffer p3) [0..<xo_length p2 + rounded (length bs)] =
        map (xo_buffer p2) [0..<xo_length p2 + length bs] @ replicate (rounded (length bs) - length bs) 0"
    by auto
  from 1 2 3 assms(3) show ?thesis
    by (simp add: XDROutPacketAddFixed_def Let_def xo_ok_def xo_bytes_def)
qed


lemma add_dynamic_ok:
  assumes "\<forall>n. alloc_ok n" "xo_ok p" "src \<noteq> User_Address False"
  shows "\<exists>p'. XDROutPacketAddDynamic alloc_ok p src bs = Some (p', B_OK) \<and> xo_ok p' \<and>
    xo_bytes p' = xo_bytes p @ be32 (of_nat (length bs)) @ bs @ replicate (rounded (length bs) - length bs) 0"
proof -
  from add_int_ok [OF assms(1,2), of "of_nat (length bs)"] obtain p1 where
    1: "XDROutPacketAddInt32 alloc_ok p (of_nat (length bs)) = Some p1" "xo_ok p1"
      "xo_bytes p1 = xo_bytes p @ be32 (of_nat (length bs))" by blast
  from add_fixed_ok [OF assms(1) 1(2) assms(3), of bs] 1 show ?thesis
    by (auto simp: XDROutPacketAddDynamic_def)
qed

lemma add_append_ok:
  assumes "\<forall>n. alloc_ok n" "xo_ok p"
  shows "\<exists>p'. XDROutPacketAppend alloc_ok p q = Some p' \<and> xo_ok p' \<and> xo_bytes p' = xo_bytes p @ xo_bytes q"
proof -
  from grow_ok [OF assms, where sz = "xo_length q"] obtain p1 where
    1: "XDROutPacketGrow alloc_ok p (xo_length q) = Some p1" "xo_length p1 = xo_length p"
      "xo_buffer p1 = xo_buffer p" "xo_length p + xo_length q \<le> xo_size p1" by blast
  have l: "length (xo_bytes q) = xo_length q" by (simp add: xo_bytes_def)
  from store_ok [of p1 "xo_bytes q"] 1 l obtain p2 where
    2: "store p1 (xo_length p1) (xo_bytes q) = Some p2" "xo_length p2 = xo_length p1" "xo_size p2 = xo_size p1"
      "map (xo_buffer p2) [0..<xo_length p1 + xo_length q] = xo_bytes p1 @ xo_bytes q" by auto
  from 2(1) have 3: "store p1 (xo_length p1) (map (xo_buffer q) [0..<xo_length q]) = Some p2"
    by (simp add: xo_bytes_def)
  from 2(4) 1 have 4: "map (xo_buffer p2) [0..<xo_length p + xo_length q] = xo_bytes p @ xo_bytes q"
    by (simp add: xo_bytes_def)
  show ?thesis
    by (intro exI [of _ "p2\<lparr>xo_length := xo_length p2 + xo_length q\<rparr>"])
      (use 1 2 3 4 in \<open>auto simp: XDROutPacketAppend_def xo_ok_def xo_bytes_def\<close>)
qed

section \<open>Reading back\<close>

lemma from_be32_be32: "from_be32 (be32 v) = v"
proof (rule bit_word_eqI)
  fix n assume "n < LENGTH(32)"
  then show "bit (from_be32 (be32 v)) n = bit v n"
    by (cases "n < 8"; cases "n < 16"; cases "n < 24") (auto simp: from_be32_def be32_def bit_simps)
qed

lemma be32_length [simp]: "length (be32 v) = 4"
  by (simp add: be32_def)

lemma load_at:
  "xi_buffer p = pre @ bs @ post \<Longrightarrow> xi_offset p = length pre \<Longrightarrow> length bs = n \<Longrightarrow> load p n = Some bs"
  by (auto simp: load_def)

lemma get_int_at:
  "xi_buffer p = pre @ be32 v @ post \<Longrightarrow> xi_offset p = length pre \<Longrightarrow>
   XDRInPacketGetInt32 p = Some (v, p\<lparr>xi_offset := length pre + 4\<rparr>)"
  by (simp add: XDRInPacketGetInt32_def load_at from_be32_be32)

lemma get_fixed_at:
  "xi_buffer p = pre @ bs @ post \<Longrightarrow> xi_offset p = length pre \<Longrightarrow> length bs = n \<Longrightarrow> dst \<noteq> User_Address False \<Longrightarrow>
   XDRInPacketGetFixed p dst n = Some (Some bs, B_OK, p\<lparr>xi_offset := length pre + rounded n\<rparr>)"
  by (simp add: XDRInPacketGetFixed_def load_at)

lemma sint_small:
  assumes "n < 2 ^ 31"
  shows "sint (of_nat n :: uint32) = int n"
proof -
  from assms have "take_bit 32 n = n" by (simp add: take_bit_nat_eq_self_iff)
  moreover from assms have "signed_take_bit 31 (int n) = int n" by (simp add: signed_take_bit_int_eq_self_iff)
  ultimately show ?thesis by (simp add: sint_uint unsigned_of_nat)
qed

lemma wire_length_small: "n < 2 ^ 31 \<Longrightarrow> wire_length (of_nat n) = n"
  by (simp add: wire_length_def sint_small unsigned_of_nat take_bit_nat_eq_self_iff)

text \<open>
  A string of \<open>2^31 - 1\<close> bytes: the size of its buffer wraps to a negative number, which \<^verbatim>\<open>malloc\<close>
  takes for nearly the whole address space.
\<close>

lemma get_string_overflow:
  assumes "XDRInPacketGetInt32 p = Some (0x7FFFFFFF, p1)" "\<not> alloc_ok (2 ^ 64 - 2 ^ 31)"
  shows "XDRInPacketGetString alloc_ok p = None"
proof -
  have "wire_length (0x7FFFFFFF + 1) = 2 ^ 64 - 2 ^ 31" by (simp add: wire_length_def)
  with assms show ?thesis by (simp add: XDRInPacketGetString_def)
qed

lemma unat_small: "n < 2 ^ 31 \<Longrightarrow> unat (of_nat n :: uint32) = n"
  by (simp add: unsigned_of_nat take_bit_nat_eq_self_iff)

lemma get_dynamic_at:
  assumes "xi_buffer p = pre @ be32 (of_nat (length bs)) @ bs @ post" "xi_offset p = length pre"
    "length bs < 2 ^ 31" "dst \<noteq> User_Address False"
  shows "XDRInPacketGetDynamic p dst = Some (Some bs, B_OK, p\<lparr>xi_offset := length pre + 4 + rounded (length bs)\<rparr>)"
  using assms get_fixed_at [of "p\<lparr>xi_offset := length pre + 4\<rparr>" "pre @ be32 (of_nat (length bs))" bs post "length bs" dst]
  by (simp add: XDRInPacketGetDynamic_def get_int_at wire_length_small)

lemma get_string_at:
  assumes "xi_buffer p = pre @ be32 (of_nat (length bs)) @ bs @ post" "xi_offset p = length pre"
    "length bs < 2 ^ 31 - 1" "\<forall>n. alloc_ok n"
  shows "XDRInPacketGetString alloc_ok p = Some (bs @ [0], p\<lparr>xi_offset := length pre + 4 + rounded (length bs)\<rparr>)"
  using assms get_fixed_at [of "p\<lparr>xi_offset := length pre + 4\<rparr>" "pre @ be32 (of_nat (length bs))" bs post "length bs" Kernel_Address]
  by (simp add: XDRInPacketGetString_def get_int_at sint_small unat_small)

section \<open>The contract of a wire format\<close>

locale codec =
  fixes put :: "'s \<Rightarrow> 'v \<Rightarrow> 's option"
    and inv :: "'s \<Rightarrow> bool"
    and contents :: "'s \<Rightarrow> 'b list"
    and valid :: "'v \<Rightarrow> bool"
    and readable :: "'v \<Rightarrow> bool"
    and enc :: "'v \<Rightarrow> 'b list"
    and kind :: "'v \<Rightarrow> 'k"
    and get :: "'k \<Rightarrow> 'r \<Rightarrow> ('v \<times> 'r) option"
    and reading :: "'r \<Rightarrow> 'b list \<Rightarrow> nat \<Rightarrow> bool"
  assumes put_enc: "inv s \<Longrightarrow> valid v \<Longrightarrow> \<exists>s'. put s v = Some s' \<and> inv s' \<and> contents s' = contents s @ enc v"
    and readable_valid: "readable v \<Longrightarrow> valid v"
    and get_enc: "readable v \<Longrightarrow> reading r (pre @ enc v @ post) (length pre) \<Longrightarrow>
      \<exists>r'. get (kind v) r = Some (v, r') \<and> reading r' (pre @ enc v @ post) (length pre + length (enc v))"
begin

primrec puts :: "'s \<Rightarrow> 'v list \<Rightarrow> 's option" where
  "puts s [] = Some s"
| "puts s (v # vs) = Option.bind (put s v) (\<lambda>s'. puts s' vs)"

primrec gets :: "'k list \<Rightarrow> 'r \<Rightarrow> ('v list \<times> 'r) option" where
  "gets [] r = Some ([], r)"
| "gets (k # ks) r = Option.bind (get k r) (\<lambda>(v, r'). map_option (\<lambda>(vs, r'). (v # vs, r')) (gets ks r'))"

lemma puts_enc:
  "inv s \<Longrightarrow> list_all valid vs \<Longrightarrow>
   \<exists>s'. puts s vs = Some s' \<and> inv s' \<and> contents s' = contents s @ concat (map enc vs)"
proof (induction vs arbitrary: s)
  case (Cons v vs)
  then obtain s' where "put s v = Some s'" "inv s'" "contents s' = contents s @ enc v"
    using put_enc [of s v] by auto
  with Cons.IH [of s'] Cons.prems show ?case by auto
qed simp

lemma gets_enc:
  "list_all readable vs \<Longrightarrow> reading r (pre @ concat (map enc vs) @ post) (length pre) \<Longrightarrow>
   \<exists>r'. gets (map kind vs) r = Some (vs, r') \<and>
     reading r' (pre @ concat (map enc vs) @ post) (length pre + length (concat (map enc vs)))"
proof (induction vs arbitrary: r pre)
  case (Cons v vs)
  from Cons.prems get_enc [of v r pre "concat (map enc vs) @ post"] obtain r' where
    r: "get (kind v) r = Some (v, r')"
      "reading r' (pre @ enc v @ concat (map enc vs) @ post) (length pre + length (enc v))" by auto
  from Cons.IH [of r' "pre @ enc v"] Cons.prems(1) r(2) obtain r'' where
    "gets (map kind vs) r' = Some (vs, r'')"
    "reading r'' ((pre @ enc v) @ concat (map enc vs) @ post) (length (pre @ enc v) + length (concat (map enc vs)))"
    by auto
  with r(1) show ?case by (auto simp: add.assoc)
qed simp

text \<open>What was put is what is got, and reading ends where writing ended.\<close>

lemma round_trip:
  assumes "inv s" "contents s = []" "list_all readable vs"
  shows "\<exists>s'. puts s vs = Some s' \<and> inv s' \<and> contents s' = concat (map enc vs) \<and>
    (\<forall>r. reading r (contents s') 0 \<longrightarrow>
      (\<exists>r'. gets (map kind vs) r = Some (vs, r') \<and> reading r' (contents s') (length (contents s'))))"
proof -
  from assms(3) have "list_all valid vs" by (auto simp: list_all_iff readable_valid)
  from puts_enc [OF assms(1) this] assms(2) obtain s' where
    s: "puts s vs = Some s'" "inv s'" "contents s' = concat (map enc vs)" by auto
  with gets_enc [OF assms(3), of _ "[]" "[]"] show ?thesis by auto
qed

end


section \<open>The XDR items\<close>

datatype xdr_item = XInt uint32 | XFixed "uint8 list" | XDynamic "uint8 list" | XString "uint8 list"

datatype xdr_kind = KInt | KFixed nat | KDynamic | KString

fun add_item :: "(nat \<Rightarrow> bool) \<Rightarrow> xdr_out \<Rightarrow> xdr_item \<Rightarrow> xdr_out option" where
  "add_item alloc_ok p (XInt v) = XDROutPacketAddInt32 alloc_ok p v"
| "add_item alloc_ok p (XFixed bs) = map_option fst (XDROutPacketAddFixed alloc_ok p Kernel_Address bs)"
| "add_item alloc_ok p (XDynamic bs) = map_option fst (XDROutPacketAddDynamic alloc_ok p Kernel_Address bs)"
| "add_item alloc_ok p (XString bs) = map_option fst (XDROutPacketAddString alloc_ok p Kernel_Address (bs @ [0]))"

definition got :: "(uint8 list \<Rightarrow> xdr_item) \<Rightarrow> uint8 list option \<times> status_t \<times> xdr_in \<Rightarrow> (xdr_item \<times> xdr_in) option" where
  "got mk r = (case r of (bs, st, p) \<Rightarrow> map_option (\<lambda>bs. (mk bs, p)) bs)"

fun get_item :: "(nat \<Rightarrow> bool) \<Rightarrow> xdr_kind \<Rightarrow> xdr_in \<Rightarrow> (xdr_item \<times> xdr_in) option" where
  "get_item alloc_ok KInt p = map_option (\<lambda>(v, p). (XInt v, p)) (XDRInPacketGetInt32 p)"
| "get_item alloc_ok (KFixed n) p = Option.bind (XDRInPacketGetFixed p Kernel_Address n) (got XFixed)"
| "get_item alloc_ok KDynamic p = Option.bind (XDRInPacketGetDynamic p Kernel_Address) (got XDynamic)"
| "get_item alloc_ok KString p =
     map_option (\<lambda>(bs, p). (XString (takeWhile (\<lambda>b. b \<noteq> 0) bs), p)) (XDRInPacketGetString alloc_ok p)"

fun kind_of :: "xdr_item \<Rightarrow> xdr_kind" where
  "kind_of (XInt v) = KInt"
| "kind_of (XFixed bs) = KFixed (length bs)"
| "kind_of (XDynamic bs) = KDynamic"
| "kind_of (XString bs) = KString"

fun valid_item :: "xdr_item \<Rightarrow> bool" where
  "valid_item (XInt v) = True"
| "valid_item (XFixed bs) = True"
| "valid_item (XDynamic bs) = (length bs < 2 ^ 31)"
| "valid_item (XString bs) = (length bs < 2 ^ 31 \<and> 0 \<notin> set bs)"

text \<open>What the readers can take: the buffer of a string has one byte more than the string.\<close>

definition readable_item :: "xdr_item \<Rightarrow> bool" where
  "readable_item v \<longleftrightarrow> valid_item v \<and> (\<forall>bs. v = XString bs \<longrightarrow> length bs < 2 ^ 31 - 1)"

lemma readable_item_simps [simp]:
  "readable_item (XInt v)" "readable_item (XFixed bs)" "readable_item (XDynamic bs) \<longleftrightarrow> length bs < 2 ^ 31"
  "readable_item (XString bs) \<longleftrightarrow> length bs < 2 ^ 31 - 1 \<and> 0 \<notin> set bs"
  by (auto simp: readable_item_def)

definition padded :: "uint8 list \<Rightarrow> uint8 list" where
  "padded bs = bs @ replicate (rounded (length bs) - length bs) 0"

fun item_bytes :: "xdr_item \<Rightarrow> uint8 list" where
  "item_bytes (XInt v) = be32 v"
| "item_bytes (XFixed bs) = padded bs"
| "item_bytes (XDynamic bs) = be32 (of_nat (length bs)) @ padded bs"
| "item_bytes (XString bs) = be32 (of_nat (length bs)) @ padded bs"

definition reading :: "xdr_in \<Rightarrow> uint8 list \<Rightarrow> nat \<Rightarrow> bool" where
  "reading p bs off \<longleftrightarrow> xi_buffer p = bs \<and> xi_offset p = off"

lemma rounded_ge: "n \<le> rounded n"
  by (simp add: rounded_def)

lemma padded_length [simp]: "length (padded bs) = rounded (length bs)"
  by (simp add: padded_def rounded_ge)

lemma takeWhile_nul: "0 \<notin> set bs \<Longrightarrow> takeWhile (\<lambda>b. b \<noteq> 0) (bs @ [0]) = (bs :: uint8 list)"
  by (induction bs) auto

lemma item_bytes_aligned: "4 dvd length (item_bytes v)"
  by (cases v) (auto simp: rounded_def)

lemma add_item_enc:
  assumes "\<forall>n. alloc_ok n" "xo_ok p" "valid_item v"
  shows "\<exists>p'. add_item alloc_ok p v = Some p' \<and> xo_ok p' \<and> xo_bytes p' = xo_bytes p @ item_bytes v"
proof (cases v)
  case (XInt w)
  with add_int_ok [OF assms(1,2), of w] show ?thesis by simp
next
  case (XFixed bs)
  with add_fixed_ok [OF assms(1,2), of Kernel_Address bs] show ?thesis by (auto simp: padded_def)
next
  case (XDynamic bs)
  with add_dynamic_ok [OF assms(1,2), of Kernel_Address bs] show ?thesis by (auto simp: padded_def)
next
  case (XString bs)
  with assms(3) add_dynamic_ok [OF assms(1,2), of Kernel_Address bs] show ?thesis
    by (auto simp: padded_def XDROutPacketAddString_def takeWhile_nul)
qed

lemma get_item_enc:
  assumes "\<forall>n. alloc_ok n" "readable_item v" "reading r (pre @ item_bytes v @ post) (length pre)"
  shows "\<exists>r'. get_item alloc_ok (kind_of v) r = Some (v, r') \<and>
    reading r' (pre @ item_bytes v @ post) (length pre + length (item_bytes v))"
proof (cases v)
  case (XInt w)
  with assms(3) get_int_at [of r pre w post] show ?thesis by (auto simp: reading_def)
next
  case (XFixed bs)
  with assms(3) get_fixed_at [of r pre bs "replicate (rounded (length bs) - length bs) 0 @ post" "length bs" Kernel_Address]
  show ?thesis by (auto simp: reading_def padded_def rounded_ge got_def)
next
  case (XDynamic bs)
  with assms get_dynamic_at [of r pre bs "replicate (rounded (length bs) - length bs) 0 @ post" Kernel_Address]
  show ?thesis by (auto simp: reading_def padded_def rounded_ge got_def add.assoc)
next
  case (XString bs)
  with assms get_string_at [of r pre bs "replicate (rounded (length bs) - length bs) 0 @ post" alloc_ok]
  show ?thesis by (auto simp: reading_def padded_def rounded_ge takeWhile_nul add.assoc)
qed

text \<open>The XDR packets keep the contract of a wire format.\<close>

interpretation xdr: codec "add_item (\<lambda>n. True)" xo_ok xo_bytes valid_item readable_item item_bytes kind_of
    "get_item (\<lambda>n. True)" reading
  using add_item_enc [of "\<lambda>n. True"] get_item_enc [of "\<lambda>n. True"]
  by unfold_locales (blast, simp add: readable_item_def, blast)


section \<open>Properties\<close>

text \<open>The contents of a packet as its users read them.\<close>

definition packet_bytes :: "xdr_out \<Rightarrow> uint8 list" where
  "packet_bytes p = take (XDROutPacketLength p) (XDROutPacketBuffer p)"

lemma packet_bytes_ok: "xo_ok p \<Longrightarrow> packet_bytes p = xo_bytes p"
  by (simp add: packet_bytes_def XDROutPacketLength_def XDROutPacketBuffer_def xo_ok_def xo_bytes_def take_map)

text \<open>Adding and reading sequences of items.\<close>

primrec add_items :: "(nat \<Rightarrow> bool) \<Rightarrow> xdr_out \<Rightarrow> xdr_item list \<Rightarrow> xdr_out option" where
  "add_items alloc_ok p [] = Some p"
| "add_items alloc_ok p (v # vs) = Option.bind (add_item alloc_ok p v) (\<lambda>p'. add_items alloc_ok p' vs)"

primrec read_items :: "(nat \<Rightarrow> bool) \<Rightarrow> xdr_kind list \<Rightarrow> xdr_in \<Rightarrow> (xdr_item list \<times> xdr_in) option" where
  "read_items alloc_ok [] r = Some ([], r)"
| "read_items alloc_ok (k # ks) r =
     Option.bind (get_item alloc_ok k r) (\<lambda>(v, r'). map_option (\<lambda>(vs, r'). (v # vs, r')) (read_items alloc_ok ks r'))"

text \<open>Reading with memory for every string.\<close>

abbreviation get_items :: "xdr_kind list \<Rightarrow> xdr_in \<Rightarrow> (xdr_item list \<times> xdr_in) option" where
  "get_items \<equiv> read_items (\<lambda>n. True)"

lemma add_items_puts: "add_items (\<lambda>n. True) p vs = xdr.puts p vs"
  by (induction vs arbitrary: p) auto

lemma get_items_gets: "get_items ks r = xdr.gets ks r"
  by (induction ks arbitrary: r) (simp_all split: prod.splits)

lemma init_ok: "xo_ok (XDROutPacketInit g) \<and> xo_bytes (XDROutPacketInit g) = []"
  by (simp add: XDROutPacketInit_def xo_ok_def xo_bytes_def)

text \<open>
  C14: when every allocation succeeds, on the sending and on the receiving side, the items added to a
  fresh packet, whatever bytes its memory held, are the items a receiver of the packet reads back, in
  order; dynamic data shorter than \<open>2^31\<close> bytes, strings shorter than \<open>2^31 - 1\<close> bytes (so that the
  size of the reader's buffer does not overflow) and without a zero byte. The packet is exactly as
  long as its items, a multiple of four, and is read to its end.
\<close>

theorem xdr_round_trip:
  assumes "\<forall>n. alloc_ok n" "\<forall>n. alloc_ok' n" "list_all readable_item vs"
  shows "\<exists>p. add_items alloc_ok (XDROutPacketInit g) vs = Some p \<and> packet_bytes p = concat (map item_bytes vs) \<and>
    4 dvd XDROutPacketLength p \<and>
    (\<exists>r. read_items alloc_ok' (map kind_of vs) (XDRInPacketSetTo XDRInPacketInit (packet_bytes p) 0) = Some (vs, r) \<and>
      xi_offset r = XDROutPacketLength p)"
proof -
  have ok: "alloc_ok = (\<lambda>n. True)" "alloc_ok' = (\<lambda>n. True)" using assms(1,2) by auto
  from xdr.round_trip [OF conjunct1 [OF init_ok] conjunct2 [OF init_ok] assms(3)] obtain p where
    p: "add_items (\<lambda>n. True) (XDROutPacketInit g) vs = Some p" "xo_ok p" "xo_bytes p = concat (map item_bytes vs)"
    and r: "\<forall>r. reading r (xo_bytes p) 0 \<longrightarrow>
      (\<exists>r'. get_items (map kind_of vs) r = Some (vs, r') \<and> reading r' (xo_bytes p) (length (xo_bytes p)))"
    unfolding add_items_puts get_items_gets by blast
  have b: "packet_bytes p = xo_bytes p" using p(2) by (rule packet_bytes_ok)
  have l: "XDROutPacketLength p = length (xo_bytes p)" by (simp add: XDROutPacketLength_def xo_bytes_def)
  have "4 dvd length (concat (map item_bytes vs))" by (induction vs) (auto intro: dvd_add item_bytes_aligned)
  moreover have "reading (XDRInPacketSetTo XDRInPacketInit (xo_bytes p) 0) (xo_bytes p) 0"
    by (simp add: reading_def XDRInPacketSetTo_def)
  ultimately show ?thesis unfolding ok using p r b l by (metis reading_def)
qed

theorem xdr_round_trip_witness:
  "\<exists>p. add_items (\<lambda>n. True) (XDROutPacketInit (\<lambda>i. 9)) [XInt 258, XString [104, 105], XFixed [1, 2, 3, 4, 5]] = Some p \<and>
    packet_bytes p = [0, 0, 1, 2, 0, 0, 0, 2, 104, 105, 0, 0, 1, 2, 3, 4, 5, 0, 0, 0]"
proof -
  have "concat (map item_bytes [XInt 258, XString [104, 105], XFixed [1, 2, 3, 4, 5]]) =
      [0, 0, 1, 2, 0, 0, 0, 2, 104, 105, 0, 0, 1, 2, 3, 4, 5, 0, 0, 0]" by code_simp
  with xdr_round_trip [of "\<lambda>n. True" "\<lambda>n. True" "[XInt 258, XString [104, 105], XFixed [1, 2, 3, 4, 5]]" "\<lambda>i. 9"]
  show ?thesis by auto
qed

lemma add_fixed_bad:
  assumes "\<forall>n. alloc_ok n" "xo_ok p"
  shows "\<exists>p'. XDROutPacketAddFixed alloc_ok p (User_Address False) bs = Some (p', B_BAD_ADDRESS) \<and> xo_ok p' \<and> xo_bytes p' = xo_bytes p"
proof -
  from grow_ok [OF assms, where sz = "rounded (length bs)"] obtain p1 where
    "XDROutPacketGrow alloc_ok p (rounded (length bs)) = Some p1" "xo_length p1 = xo_length p"
      "xo_buffer p1 = xo_buffer p" "xo_length p + rounded (length bs) \<le> xo_size p1" by blast
  then show ?thesis by (simp add: XDROutPacketAddFixed_def Let_def xo_ok_def xo_bytes_def)
qed

lemma add_dynamic_bad:
  assumes "\<forall>n. alloc_ok n" "xo_ok p"
  shows "\<exists>p'. XDROutPacketAddDynamic alloc_ok p (User_Address False) bs = Some (p', B_BAD_ADDRESS) \<and> xo_ok p' \<and>
    xo_bytes p' = xo_bytes p @ be32 (of_nat (length bs))"
proof -
  from add_int_ok [OF assms, of "of_nat (length bs)"] obtain p1 where
    1: "XDROutPacketAddInt32 alloc_ok p (of_nat (length bs)) = Some p1" "xo_ok p1"
      "xo_bytes p1 = xo_bytes p @ be32 (of_nat (length bs))" by blast
  from add_fixed_bad [OF assms(1) 1(2), of bs] 1 show ?thesis by (auto simp: XDROutPacketAddDynamic_def)
qed

text \<open>
  C28: with memory available, fixed and dynamic data from a readable address are appended to the
  packet, zero padded to four bytes; from an unreadable user address the call reports it and appends
  no data, but the length word of dynamic data has been appended and stays. Appending a packet appends
  its bytes. Nothing written earlier changes.
\<close>

theorem xdr_add_exact:
  assumes "\<forall>n. alloc_ok n" "xo_length p \<le> xo_size p"
  shows "(\<exists>p'. XDROutPacketAddFixed alloc_ok p src bs = Some (p', if src = User_Address False then B_BAD_ADDRESS else B_OK) \<and>
      packet_bytes p' = packet_bytes p @ (if src = User_Address False then [] else padded bs)) \<and>
    (\<exists>p'. XDROutPacketAddDynamic alloc_ok p src bs = Some (p', if src = User_Address False then B_BAD_ADDRESS else B_OK) \<and>
      packet_bytes p' = packet_bytes p @ be32 (of_nat (length bs)) @ (if src = User_Address False then [] else padded bs)) \<and>
    (\<exists>p'. XDROutPacketAppend alloc_ok p q = Some p' \<and> packet_bytes p' = packet_bytes p @ map (xo_buffer q) [0..<xo_length q])"
proof -
  have ok: "xo_ok p" using assms(2) by (simp add: xo_ok_def)
  note b = packet_bytes_ok
  have "\<exists>p'. XDROutPacketAddFixed alloc_ok p src bs = Some (p', if src = User_Address False then B_BAD_ADDRESS else B_OK) \<and>
      packet_bytes p' = packet_bytes p @ (if src = User_Address False then [] else padded bs)"
    using add_fixed_bad [OF assms(1) ok, of bs] add_fixed_ok [OF assms(1) ok, of src bs]
    by (cases "src = User_Address False") (auto simp: b ok padded_def)
  moreover have "\<exists>p'. XDROutPacketAddDynamic alloc_ok p src bs = Some (p', if src = User_Address False then B_BAD_ADDRESS else B_OK) \<and>
      packet_bytes p' = packet_bytes p @ be32 (of_nat (length bs)) @ (if src = User_Address False then [] else padded bs)"
    using add_dynamic_bad [OF assms(1) ok, of bs] add_dynamic_ok [OF assms(1) ok, of src bs]
    by (cases "src = User_Address False") (auto simp: b ok padded_def)
  moreover have "\<exists>p'. XDROutPacketAppend alloc_ok p q = Some p' \<and>
      packet_bytes p' = packet_bytes p @ map (xo_buffer q) [0..<xo_length q]"
    using add_append_ok [OF assms(1) ok, of q] by (auto simp: b ok xo_bytes_def)
  ultimately show ?thesis by blast
qed

theorem xdr_add_exact_witness:
  "\<exists>p'. XDROutPacketAddDynamic (\<lambda>n. True) (XDROutPacketInit (\<lambda>i. 0)) (User_Address False) [1, 2] = Some (p', B_BAD_ADDRESS) \<and>
    packet_bytes p' = [0, 0, 0, 2]"
proof -
  have "packet_bytes (XDROutPacketInit (\<lambda>i. 0)) = []" by code_simp
  moreover have "be32 (of_nat (length [1::uint8, 2])) = [0, 0, 0, 2]" by code_simp
  ultimately show ?thesis
    using xdr_add_exact [of "\<lambda>n. True" "XDROutPacketInit (\<lambda>i. 0)" "User_Address False" "[1, 2]"]
    by (auto simp: XDROutPacketInit_def)
qed

text \<open>
  The readers do not know how long the packet is: a truncated reply makes them read past its end.
\<close>

lemma get_int_truncated: "length (xi_buffer p) < xi_offset p + 4 \<Longrightarrow> XDRInPacketGetInt32 p = None"
  by (simp add: XDRInPacketGetInt32_def load_def)

end
