(* ===== verification/PendingCalls.thy ===== *)
theory PendingCalls
  imports Prelude "HOL-Library.Multiset"
begin

text \<open>
  \<^verbatim>\<open>src/add-ons/kernel/file_systems/nfs/RPCPendingCalls.c\<close>: the pool of semaphores the NFS client
  reuses for its calls, and the linked list of calls that wait for a reply. Each function of the pool and
  the search of the list run under the lock of their structure from the first access to the last; entering
  a call takes the two locks one after the other, in the two sections \<open>take_call\<close> and \<open>link_call\<close>.
  New semaphores, which are assumed to be created, and new memory are arguments; a failed \<^verbatim>\<open>malloc\<close> or
  \<^verbatim>\<open>realloc\<close> makes the next write hit address zero, \<open>None\<close>.
  The calls live in a heap by address; following a pointer to a call that was freed is \<open>None\<close>.
\<close>

section \<open>The semaphore pool\<close>

type_synonym sem_id = nat

record sem_pool =
  fPool :: "sem_id list"
  fPoolCount :: nat
  fPoolSize :: nat

definition SemaphorePoolInit :: sem_pool where
  "SemaphorePoolInit = \<lparr>fPool = [], fPoolCount = 0, fPoolSize = 0\<rparr>"

text \<open>The semaphore and whether it was created for this call, the fresh one being \<open>new\<close>.\<close>

definition SemaphorePoolGet :: "sem_id \<Rightarrow> sem_pool \<Rightarrow> (sem_id \<times> sem_pool) option" where
  "SemaphorePoolGet new pool =
     (if fPoolCount pool = 0 then Some (new, pool)
      else if fPoolCount pool \<le> length (fPool pool) then
        Some (fPool pool ! (fPoolCount pool - 1), pool\<lparr>fPoolCount := fPoolCount pool - 1\<rparr>)
      else None)"

text \<open>\<open>realloc\<close> keeps the old entries; the new ones are arbitrary, here \<open>garbage\<close>.\<close>

definition SemaphorePoolPut :: "bool \<Rightarrow> (nat \<Rightarrow> sem_id) \<Rightarrow> sem_pool \<Rightarrow> sem_id \<Rightarrow> sem_pool option" where
  "SemaphorePoolPut realloc_ok garbage pool sem =
     (let grow = fPoolCount pool + 1 > fPoolSize pool;
          size1 = (if grow then fPoolSize pool + 8 else fPoolSize pool);
          pool1 = (if grow then fPool pool @ map garbage [length (fPool pool)..<size1] else fPool pool)
      in if (grow \<longrightarrow> realloc_ok) \<and> fPoolCount pool < length pool1 then
           Some \<lparr>fPool = pool1[fPoolCount pool := sem], fPoolCount = fPoolCount pool + 1, fPoolSize = size1\<rparr>
         else None)"


definition pool_ok :: "sem_pool \<Rightarrow> bool" where
  "pool_ok pool \<longleftrightarrow> length (fPool pool) = fPoolSize pool \<and> fPoolCount pool \<le> fPoolSize pool"

definition pooled :: "sem_pool \<Rightarrow> sem_id list" where
  "pooled pool = take (fPoolCount pool) (fPool pool)"

text \<open>The pool is a stack.\<close>

lemma pool_init: "pool_ok SemaphorePoolInit \<and> pooled SemaphorePoolInit = []"
  by (simp add: SemaphorePoolInit_def pool_ok_def pooled_def)

lemma pool_put:
  assumes "pool_ok pool"
  shows "\<exists>pool'. SemaphorePoolPut True g pool sem = Some pool' \<and> pool_ok pool' \<and> pooled pool' = pooled pool @ [sem]"
proof -
  have "take (Suc n) (xs[n := s]) = take n xs @ [s]" if "n < length xs" for n xs and s :: sem_id
    using that by (simp add: take_Suc_conv_app_nth)
  with assms show ?thesis
    by (auto simp: SemaphorePoolPut_def Let_def pool_ok_def pooled_def)
qed

lemma pool_get:
  assumes "pool_ok pool"
  shows "\<exists>sem pool'. SemaphorePoolGet new pool = Some (sem, pool') \<and> pool_ok pool' \<and>
    (if pooled pool = [] then sem = new \<and> pool' = pool else pooled pool = pooled pool' @ [sem])"
proof (cases "fPoolCount pool")
  case 0
  with assms show ?thesis by (simp add: SemaphorePoolGet_def pooled_def)
next
  case (Suc n)
  with assms show ?thesis
    by (auto simp: SemaphorePoolGet_def pooled_def pool_ok_def take_Suc_conv_app_nth)
qed

section \<open>The contract of a pool of reusable resources\<close>

text \<open>A use of the pool: taking a resource, or giving back the held one at an index, with whether memory can be had.\<close>

datatype pool_use = Take | Give nat bool

text \<open>The list without its element at an index.\<close>

definition drop_nth :: "nat \<Rightarrow> 'a list \<Rightarrow> 'a list" where
  "drop_nth k xs = take k xs @ drop (Suc k) xs"

lemma mset_drop_nth: "k < length xs \<Longrightarrow> add_mset (xs ! k) (mset (drop_nth k xs)) = mset xs"
  by (subst (4) id_take_nth_drop) (simp_all add: drop_nth_def)

locale reuse_pool =
  fixes get :: "'a \<Rightarrow> 's \<Rightarrow> ('a \<times> 's) option"
    and put :: "bool \<Rightarrow> 's \<Rightarrow> 'a \<Rightarrow> 's option"
    and ok :: "'s \<Rightarrow> bool"
    and free :: "'s \<Rightarrow> 'a list"
    and room :: "'s \<Rightarrow> bool"
  assumes get_ok: "ok s \<Longrightarrow> \<exists>a s'. get new s = Some (a, s') \<and> ok s' \<and>
      (if free s = [] then a = new \<and> free s' = [] else mset (free s) = add_mset a (mset (free s')))"
    and put_ok: "ok s \<Longrightarrow> mem \<or> room s \<Longrightarrow> \<exists>s'. put mem s a = Some s' \<and> ok s' \<and> mset (free s') = add_mset a (mset (free s))"
    and put_fails: "ok s \<Longrightarrow> \<not> room s \<Longrightarrow> put False s a = None"
begin

text \<open>A client that takes the \<open>n\<close>-th new resource \<open>fresh n\<close> when it has to and gives back any resource it holds.\<close>

fun client :: "(nat \<Rightarrow> 'a) \<Rightarrow> pool_use list \<Rightarrow> nat \<times> 'a list \<times> 's \<Rightarrow> (nat \<times> 'a list \<times> 's) option" where
  "client fresh [] c = Some c"
| "client fresh (Take # ops) (n, held, s) =
     Option.bind (get (fresh n) s) (\<lambda>(a, s'). client fresh ops (if free s = [] then n + 1 else n, held @ [a], s'))"
| "client fresh (Give k mem # ops) (n, held, s) =
     (if k < length held then Option.bind (put mem s (held ! k)) (\<lambda>s'. client fresh ops (n, drop_nth k held, s'))
      else client fresh ops (n, held, s))"

text \<open>Every resource made is held once or free once, and no other resource is.\<close>

definition conserved :: "(nat \<Rightarrow> 'a) \<Rightarrow> nat \<times> 'a list \<times> 's \<Rightarrow> bool" where
  "conserved fresh c = (case c of (n, held, s) \<Rightarrow> ok s \<and> mset held + mset (free s) = mset (map fresh [0..<n]))"

text \<open>A client gets stuck only where a resource comes back to a full pool and there is no memory.\<close>

definition stuck :: "(nat \<Rightarrow> 'a) \<Rightarrow> pool_use list \<Rightarrow> nat \<times> 'a list \<times> 's \<Rightarrow> bool" where
  "stuck fresh ops c \<longleftrightarrow> (\<exists>us k vs n held s. ops = us @ Give k False # vs \<and> client fresh us c = Some (n, held, s) \<and>
     k < length held \<and> \<not> room s)"

lemma stuck_Cons:
  assumes "stuck fresh ops c'" "\<And>us. client fresh (use # us) c = client fresh us c'"
  shows "stuck fresh (use # ops) c"
proof -
  from assms(1) obtain us k vs n held s where u: "ops = us @ Give k False # vs" "client fresh us c' = Some (n, held, s)"
    "k < length held" "\<not> room s" unfolding stuck_def by blast
  show ?thesis unfolding stuck_def
    by (intro exI [of _ "use # us"] exI [of _ k] exI [of _ vs] exI [of _ n] exI [of _ held] exI [of _ s])
      (simp add: u assms(2))
qed

definition outcome_ok :: "(nat \<Rightarrow> 'a) \<Rightarrow> pool_use list \<Rightarrow> nat \<times> 'a list \<times> 's \<Rightarrow> bool" where
  "outcome_ok fresh ops c = (case client fresh ops c of Some c' \<Rightarrow> conserved fresh c' | None \<Rightarrow> stuck fresh ops c)"

lemma outcome_Cons:
  assumes "outcome_ok fresh ops c'" "\<And>us. client fresh (use # us) c = client fresh us c'"
  shows "outcome_ok fresh (use # ops) c"
  using assms stuck_Cons [of fresh ops c' use c] by (cases "client fresh ops c'") (simp_all add: outcome_ok_def)

lemma client_conserves: "conserved fresh (n, held, s) \<Longrightarrow> outcome_ok fresh ops (n, held, s)"
proof (induction fresh ops "(n, held, s)" arbitrary: n held s rule: client.induct)
  case (2 fresh ops n held s)
  from 2(2) have ok: "ok s" "mset held + mset (free s) = mset (map fresh [0..<n])" by (simp_all add: conserved_def)
  from get_ok [OF ok(1), of "fresh n"] obtain a s' where
    g: "get (fresh n) s = Some (a, s')" "ok s'"
    "if free s = [] then a = fresh n \<and> free s' = [] else mset (free s) = add_mset a (mset (free s'))" by blast
  have "conserved fresh (if free s = [] then n + 1 else n, held @ [a], s')"
    using ok g(2,3) by (cases "free s = []") (simp_all add: conserved_def del: mset_map mset_upt)
  from 2(1) [OF g(1) refl this] show ?case by (rule outcome_Cons) (simp add: g(1))
next
  case (3 fresh k mem ops n held s)
  from 3(3) have ok: "ok s" "mset held + mset (free s) = mset (map fresh [0..<n])" by (simp_all add: conserved_def)
  consider (none) "\<not> k < length held" | (full) "k < length held" "\<not> mem" "\<not> room s" | (give) "k < length held" "mem \<or> room s"
    by blast
  then show ?case
  proof cases
    case none
    from 3(2) [OF none 3(3)] show ?thesis by (rule outcome_Cons) (simp add: none)
  next
    case full
    with put_fails [OF ok(1)] have "client fresh (Give k mem # ops) (n, held, s) = None" by simp
    moreover have "stuck fresh (Give k mem # ops) (n, held, s)"
      unfolding stuck_def by (rule exI [of _ "[]"], rule exI [of _ k], rule exI [of _ ops]) (use full in simp)
    ultimately show ?thesis by (simp add: outcome_ok_def)
  next
    case give
    from put_ok [OF ok(1) give(2), of "held ! k"] obtain s' where
      g: "put mem s (held ! k) = Some s'" "ok s'" "mset (free s') = add_mset (held ! k) (mset (free s))" by blast
    have "mset (drop_nth k held) + mset (free s') = mset held + mset (free s)"
      using g(3) mset_drop_nth [OF give(1)] by (metis union_mset_add_mset_left union_mset_add_mset_right)
    with ok(2) g(2) have "conserved fresh (n, drop_nth k held, s')" by (simp add: conserved_def)
    from 3(1) [OF give(1) g(1) this] show ?thesis by (rule outcome_Cons) (simp add: give(1) g(1))
  qed
qed (simp add: conserved_def outcome_ok_def)

text \<open>With distinct new resources, no resource is ever held twice.\<close>

lemma conserved_exclusive:
  assumes "conserved fresh (n, held, s)" "inj fresh"
  shows "distinct (held @ free s) \<and> set (held @ free s) = fresh ` {0..<n}"
proof -
  from assms(1) have m: "mset (held @ free s) = mset (map fresh [0..<n])" by (simp add: conserved_def)
  moreover have "distinct (map fresh [0..<n])" using assms(2) by (auto simp: distinct_map inj_def inj_on_def)
  ultimately have "distinct (held @ free s)" by (metis mset_eq_imp_distinct_iff)
  moreover have "set (held @ free s) = fresh ` {0..<n}" using mset_eq_setD [OF m] by simp
  ultimately show ?thesis by blast
qed

lemma client_exclusive:
  assumes "ok s" "free s = []" "inj fresh"
  shows "case client fresh ops (0, [], s) of
     Some (n, held, s') \<Rightarrow> distinct (held @ free s') \<and> set (held @ free s') = fresh ` {0..<n}
   | None \<Rightarrow> \<exists>us k vs n held s'. ops = us @ Give k False # vs \<and> client fresh us (0, [], s) = Some (n, held, s') \<and>
       k < length held \<and> \<not> room s'"
proof -
  have "conserved fresh (0, [], s)" using assms(1,2) by (simp add: conserved_def)
  note out = client_conserves [OF this, of ops]
  show ?thesis
  proof (cases "client fresh ops (0, [], s)")
    case None
    with out show ?thesis by (simp add: outcome_ok_def stuck_def)
  next
    case (Some c)
    obtain n held s' where c: "c = (n, held, s')" by (cases c)
    with out Some have "conserved fresh (n, held, s')" by (simp add: outcome_ok_def)
    from conserved_exclusive [OF this assms(3)] Some c show ?thesis by simp
  qed
qed

end

text \<open>Whether the array has an unused entry.\<close>

definition pool_room :: "sem_pool \<Rightarrow> bool" where
  "pool_room pool \<longleftrightarrow> fPoolCount pool < fPoolSize pool"

interpretation sp: reuse_pool SemaphorePoolGet "\<lambda>mem. SemaphorePoolPut mem garbage" pool_ok pooled pool_room
  for garbage
proof unfold_locales
  fix s new assume "pool_ok s"
  from pool_get [OF this, of new]
  show "\<exists>a s'. SemaphorePoolGet new s = Some (a, s') \<and> pool_ok s' \<and>
      (if pooled s = [] then a = new \<and> pooled s' = [] else mset (pooled s) = add_mset a (mset (pooled s')))"
    by (cases "pooled s = []") auto
next
  fix s mem a assume s: "pool_ok s" "mem \<or> pool_room s"
  have "SemaphorePoolPut mem garbage s a = SemaphorePoolPut True garbage s a"
    using s(2) by (auto simp: SemaphorePoolPut_def Let_def pool_room_def)
  with pool_put [OF s(1), of garbage a]
  show "\<exists>s'. SemaphorePoolPut mem garbage s a = Some s' \<and> pool_ok s' \<and> mset (pooled s') = add_mset a (mset (pooled s))"
    by auto
next
  fix s a assume "\<not> pool_room s"
  then show "SemaphorePoolPut False garbage s a = None" by (simp add: SemaphorePoolPut_def pool_room_def)
qed

section \<open>Pending calls\<close>

text \<open>An address of the peer: its IP address and port.\<close>

type_synonym sockaddr_in = "uint32 \<times> uint16"

record pending_call =
  next_call :: "nat option"
  call_sem :: sem_id
  call_addr :: sockaddr_in
  call_xid :: uint32
  call_buffer :: "uint8 list option"

type_synonym call_heap = "nat \<Rightarrow> pending_call option"

record pending_calls =
  fFirst :: "nat option"
  calls :: call_heap
  fCallPool :: sem_pool

definition RPCPendingCallsInit :: "call_heap \<Rightarrow> pending_calls" where
  "RPCPendingCallsInit h = \<lparr>fFirst = None, calls = h, fCallPool = SemaphorePoolInit\<rparr>"

text \<open>
  A new call in the memory \<open>a\<close> gets its semaphore, under the lock of the pool, its address and its
  transaction id; under the lock of the list it is put in front. The link is set only then.
\<close>

definition take_call ::
    "nat \<Rightarrow> sem_id \<Rightarrow> pending_calls \<Rightarrow> uint32 \<Rightarrow> sockaddr_in \<Rightarrow> pending_calls option" where
  "take_call a new s xid addr =
     map_option (\<lambda>(sem, pool).
       s\<lparr>fCallPool := pool,
         calls := (calls s)(a \<mapsto> \<lparr>next_call = None, call_sem = sem, call_addr = addr, call_xid = xid, call_buffer = None\<rparr>)\<rparr>)
     (SemaphorePoolGet new (fCallPool s))"

definition link_call :: "nat \<Rightarrow> pending_calls \<Rightarrow> pending_calls" where
  "link_call a s =
     s\<lparr>fFirst := Some a, calls := (calls s)(a := map_option (next_call_update (\<lambda>_. fFirst s)) (calls s a))\<rparr>"

text \<open>\<open>mem\<close> is what \<^verbatim>\<open>malloc\<close> returned; the first write to the call goes through it.\<close>

definition RPCPendingCallsAddPendingCall ::
    "nat option \<Rightarrow> sem_id \<Rightarrow> pending_calls \<Rightarrow> uint32 \<Rightarrow> sockaddr_in \<Rightarrow> (nat \<times> pending_calls) option" where
  "RPCPendingCallsAddPendingCall mem new s xid addr =
     (case mem of
        None \<Rightarrow> None
      | Some a \<Rightarrow> map_option (\<lambda>s1. (a, link_call a s1)) (take_call a new s xid addr))"

text \<open>Whether a reply from \<open>addr\<close> belongs to a call.\<close>

definition call_matches :: "bool \<Rightarrow> uint32 \<Rightarrow> sockaddr_in \<Rightarrow> pending_call \<Rightarrow> bool" where
  "call_matches conf_no_check_ip_xid xid addr k \<longleftrightarrow>
     call_xid k = xid \<and> (fst (call_addr k) = fst addr \<and> snd (call_addr k) = snd addr \<or> conf_no_check_ip_xid)"

text \<open>
  The loop over the list, from the pair of \<^verbatim>\<open>last\<close> and \<^verbatim>\<open>current\<close>: the call found and the one
  before it.
\<close>

partial_function (option) find_call ::
    "call_heap \<Rightarrow> (pending_call \<Rightarrow> bool) \<Rightarrow> nat option \<times> nat option \<Rightarrow> (nat option \<times> nat) option option" where
  "find_call h P p =
     (case snd p of None \<Rightarrow> Some None
      | Some c \<Rightarrow> Option.bind (h c) (\<lambda>k.
          if P k then Some (Some (fst p, c)) else find_call h P (Some c, next_call k)))"

definition RPCPendingCallsFindAndRemovePendingCall ::
    "bool \<Rightarrow> pending_calls \<Rightarrow> uint32 \<Rightarrow> sockaddr_in \<Rightarrow> (nat option \<times> pending_calls) option" where
  "RPCPendingCallsFindAndRemovePendingCall conf s xid addr =
     (case find_call (calls s) (call_matches conf xid addr) (None, fFirst s) of
        None \<Rightarrow> None
      | Some None \<Rightarrow> Some (None, s)
      | Some (Some (last_call, c)) \<Rightarrow>
          (case calls s c of None \<Rightarrow> None
           | Some k \<Rightarrow>
               let s1 = (case last_call of
                           Some l \<Rightarrow> s\<lparr>calls := (calls s)(l := map_option (\<lambda>kl. kl\<lparr>next_call := next_call k\<rparr>) (calls s l))\<rparr>
                         | None \<Rightarrow> s\<lparr>fFirst := next_call k\<rparr>)
               in Some (Some c, s1\<lparr>calls := (calls s1)(c \<mapsto> k\<lparr>next_call := None\<rparr>)\<rparr>)))"




section \<open>The list of waiting calls\<close>

definition link :: "call_heap \<Rightarrow> nat \<Rightarrow> nat option" where
  "link h c = (case h c of Some k \<Rightarrow> next_call k | None \<Rightarrow> None)"

definition waiting :: "pending_calls \<Rightarrow> nat list \<Rightarrow> bool" where
  "waiting s xs \<longleftrightarrow> path (link (calls s)) (fFirst s) xs None \<and> distinct xs \<and> (\<forall>x\<in>set xs. calls s x \<noteq> None)"

text \<open>Everything of a call but its link.\<close>

definition unlinked :: "pending_call option \<Rightarrow> pending_call option" where
  "unlinked k = map_option (next_call_update (\<lambda>n. None)) k"

lemma waiting_init: "waiting (RPCPendingCallsInit h) []"
  by (simp add: waiting_def RPCPendingCallsInit_def)

lemma path_link_other: "c \<notin> set xs \<Longrightarrow> path (link (h(c := k))) p xs q = path (link h) p xs q"
  by (rule path_cong) (auto simp: link_def)

lemma waiting_dom: "waiting s xs \<Longrightarrow> x \<in> set xs \<Longrightarrow> \<exists>k. calls s x = Some k"
  by (auto simp: waiting_def)

lemma find_call_none:
  "path (link h) cur xs None \<Longrightarrow> \<forall>x\<in>set xs. \<exists>k. h x = Some k \<and> \<not> P k \<Longrightarrow> find_call h P (l, cur) = Some None"
proof (induction xs arbitrary: l cur)
  case (Cons x xs)
  then obtain k where k: "h x = Some k" "\<not> P k" by auto
  with Cons show ?case by (subst find_call.simps) (auto simp: link_def)
qed (simp add: find_call.simps)

lemma find_call_some:
  "path (link h) cur (as @ c # bs) None \<Longrightarrow> \<forall>x\<in>set as. \<exists>k. h x = Some k \<and> \<not> P k \<Longrightarrow> h c = Some kc \<Longrightarrow> P kc \<Longrightarrow>
   find_call h P (l, cur) = Some (Some (lastp l as, c))"
proof (induction as arbitrary: l cur)
  case Nil
  then show ?case by (subst find_call.simps) auto
next
  case (Cons x as)
  then obtain k where k: "h x = Some k" "\<not> P k" by auto
  have "find_call h P (Some x, link h x) = Some (Some (lastp (Some x) as, c))"
    by (rule Cons.IH) (use Cons.prems in auto)
  with k Cons.prems(1) show ?case by (subst find_call.simps) (auto simp: link_def)
qed

lemma find_none:
  assumes "waiting s xs" "\<forall>x\<in>set xs. \<not> call_matches conf xid addr (the (calls s x))"
  shows "RPCPendingCallsFindAndRemovePendingCall conf s xid addr = Some (None, s)"
  using assms find_call_none [of "calls s" "fFirst s" xs "call_matches conf xid addr" None]
  by (force simp: RPCPendingCallsFindAndRemovePendingCall_def waiting_def)

lemma unlinked_upd [simp]: "unlinked (Some (k\<lparr>next_call := n\<rparr>)) = unlinked (Some k)"
  by (simp add: unlinked_def)

lemma find_some:
  assumes w: "waiting s (as @ c # bs)"
    and no: "\<forall>x\<in>set as. \<not> call_matches conf xid addr (the (calls s x))"
    and yes: "call_matches conf xid addr (the (calls s c))"
  shows "\<exists>s'. RPCPendingCallsFindAndRemovePendingCall conf s xid addr = Some (Some c, s') \<and> waiting s' (as @ bs) \<and>
    fCallPool s' = fCallPool s \<and> calls s' c = unlinked (calls s c) \<and> (\<forall>x. unlinked (calls s' x) = unlinked (calls s x))"
proof -
  from w obtain kc where kc: "calls s c = Some kc" by (auto simp: waiting_def)
  with yes have m: "call_matches conf xid addr kc" by simp
  from w no have "\<forall>x\<in>set as. \<exists>k. calls s x = Some k \<and> \<not> call_matches conf xid addr k" by (force simp: waiting_def)
  with w kc m have f: "find_call (calls s) (call_matches conf xid addr) (None, fFirst s) = Some (Some (lastp None as, c))"
    by (intro find_call_some) (auto simp: waiting_def)
  have n: "link (calls s) c = next_call kc" using kc by (simp add: link_def)
  have d: "distinct (as @ c # bs)" and p: "path (link (calls s)) (fFirst s) (as @ c # bs) None"
    using w by (auto simp: waiting_def)
  have nb: "next_call kc = headp bs None" using p n path_head by fastforce
  define h' where "h' = (calls s)(c \<mapsto> kc\<lparr>next_call := None\<rparr>)"
  show ?thesis
  proof (cases as rule: rev_cases)
    case Nil
    have "path (link h') (next_call kc) bs None"
      using p n d Nil by (simp add: h'_def path_link_other)
    then show ?thesis using f kc d w Nil
      by (auto simp: RPCPendingCallsFindAndRemovePendingCall_def waiting_def h'_def unlinked_def)
  next
    case (snoc as' l)
    obtain kl where kl: "calls s l = Some kl" using w snoc by (auto simp: waiting_def)
    define h'' where "h'' = (calls s)(l \<mapsto> kl\<lparr>next_call := next_call kc\<rparr>, c \<mapsto> kc\<lparr>next_call := None\<rparr>)"
    have "path (link h'') (fFirst s) (as' @ l # bs) None"
      using p n d nb snoc path_head [of "link (calls s)" "fFirst s" "as' @ [l]"]
      by (auto simp: h''_def path_link_other link_def kl)
    moreover have "lastp None as = Some l" using snoc by simp
    moreover have "l \<noteq> c" using d snoc by auto
    ultimately show ?thesis using f kc kl d w snoc
      by (auto simp: RPCPendingCallsFindAndRemovePendingCall_def waiting_def h''_def unlinked_def)
  qed
qed

lemma take_call_ok:
  assumes "waiting s xs" "pool_ok (fCallPool s)" "calls s a = None"
  shows "\<exists>sem pool s'. SemaphorePoolGet new (fCallPool s) = Some (sem, pool) \<and> take_call a new s xid addr = Some s' \<and>
    waiting s' xs \<and> a \<notin> set xs \<and> fFirst s' = fFirst s \<and> fCallPool s' = pool \<and>
    calls s' = (calls s)(a \<mapsto> \<lparr>next_call = None, call_sem = sem, call_addr = addr, call_xid = xid, call_buffer = None\<rparr>)"
proof -
  from pool_get [OF assms(2), of new] obtain sem pool where
    g: "SemaphorePoolGet new (fCallPool s) = Some (sem, pool)" by blast
  have "a \<notin> set xs" using assms(1,3) by (auto simp: waiting_def)
  with assms g show ?thesis by (auto simp: take_call_def waiting_def path_link_other)
qed

lemma link_call_ok:
  assumes "waiting s xs" "a \<notin> set xs" "calls s a = Some k"
  shows "waiting (link_call a s) (a # xs) \<and> fCallPool (link_call a s) = fCallPool s \<and>
    calls (link_call a s) = (calls s)(a \<mapsto> k\<lparr>next_call := fFirst s\<rparr>)"
  using assms by (auto simp: link_call_def waiting_def path_link_other) (auto simp: link_def)

lemma add_call:
  assumes "waiting s xs" "pool_ok (fCallPool s)" "calls s a = None"
  shows "\<exists>sem pool s'. SemaphorePoolGet new (fCallPool s) = Some (sem, pool) \<and>
    RPCPendingCallsAddPendingCall (Some a) new s xid addr = Some (a, s') \<and> waiting s' (a # xs) \<and> fCallPool s' = pool \<and>
    calls s' = (calls s)(a \<mapsto> \<lparr>next_call = fFirst s, call_sem = sem, call_addr = addr, call_xid = xid, call_buffer = None\<rparr>)"
proof -
  from take_call_ok [OF assms, of new xid addr] obtain sem pool s1 where
    t: "SemaphorePoolGet new (fCallPool s) = Some (sem, pool)" "take_call a new s xid addr = Some s1" "waiting s1 xs"
      "a \<notin> set xs" "fFirst s1 = fFirst s" "fCallPool s1 = pool"
      "calls s1 = (calls s)(a \<mapsto> \<lparr>next_call = None, call_sem = sem, call_addr = addr, call_xid = xid, call_buffer = None\<rparr>)"
    by blast
  have "calls s1 a = Some \<lparr>next_call = None, call_sem = sem, call_addr = addr, call_xid = xid, call_buffer = None\<rparr>"
    by (simp add: t(7))
  from link_call_ok [OF t(3,4) this] t show ?thesis by (auto simp: RPCPendingCallsAddPendingCall_def)
qed



section \<open>Properties\<close>

text \<open>
  C29: looking up a reply finds the first waiting call with its transaction id and, unless the
  settings switch that off, its sender's address and port. That call leaves the list and no other
  does; its link is cleared, and no field but the links changes. Without such a call nothing changes.
\<close>

theorem pending_find_exact:
  assumes "waiting s xs"
  shows "case List.find (\<lambda>x. call_matches conf xid addr (the (calls s x))) xs of
      None \<Rightarrow> RPCPendingCallsFindAndRemovePendingCall conf s xid addr = Some (None, s)
    | Some c \<Rightarrow> \<exists>s'. RPCPendingCallsFindAndRemovePendingCall conf s xid addr = Some (Some c, s') \<and>
        waiting s' (remove1 c xs) \<and> fCallPool s' = fCallPool s \<and> link (calls s') c = None \<and>
        (\<forall>x. unlinked (calls s' x) = unlinked (calls s x))"
proof (cases "List.find (\<lambda>x. call_matches conf xid addr (the (calls s x))) xs")
  case None
  then have "\<forall>x\<in>set xs. \<not> call_matches conf xid addr (the (calls s x))" by (auto simp: find_None_iff)
  from find_none [OF assms this] None show ?thesis by simp
next
  case (Some c)
  from find_split [OF Some] obtain as bs where
    s: "xs = as @ c # bs" "call_matches conf xid addr (the (calls s c))"
    "\<forall>a\<in>set as. \<not> call_matches conf xid addr (the (calls s a))" by blast
  have "remove1 c xs = as @ bs" using assms s(1) by (auto simp: waiting_def remove1_append)
  moreover from find_some [OF assms [unfolded s(1)] s(3,2)] obtain s' where
    f: "RPCPendingCallsFindAndRemovePendingCall conf s xid addr = Some (Some c, s')" "waiting s' (as @ bs)"
      "fCallPool s' = fCallPool s" "calls s' c = unlinked (calls s c)" "\<forall>x. unlinked (calls s' x) = unlinked (calls s x)"
    by blast
  moreover from f(4) have "link (calls s') c = None" by (cases "calls s c") (simp_all add: link_def unlinked_def)
  ultimately show ?thesis using Some by auto
qed

theorem pending_find_exact_witness:
  "\<exists>s s'. RPCPendingCallsFindAndRemovePendingCall False s 7 (1, 2) = Some (Some 4, s') \<and> waiting s' [5]"
proof -
  obtain s1 where s1: "waiting s1 [4]" "pool_ok (fCallPool s1)" "calls s1 5 = None"
      "calls s1 4 = Some \<lparr>next_call = None, call_sem = 10, call_addr = (1, 2), call_xid = 7, call_buffer = None\<rparr>"
    using add_call [OF waiting_init [of Map.empty], where a = 4 and new = 10 and xid = 7 and addr = "(1, 2)"] pool_init
    by (auto simp: RPCPendingCallsInit_def SemaphorePoolGet_def SemaphorePoolInit_def)
  obtain s2 where s2: "waiting s2 [5, 4]" "call_xid (the (calls s2 5)) = 8" "call_xid (the (calls s2 4)) = 7"
      "call_addr (the (calls s2 4)) = (1, 2)"
    using add_call [OF s1(1,2,3), where new = 11 and xid = 8 and addr = "(1, 2)"] s1(4) by auto
  then have "List.find (\<lambda>x. call_matches False 7 (1, 2) (the (calls s2 x))) [5, 4] = Some 4"
    by (simp add: call_matches_def)
  with pending_find_exact [OF s2(1), of False 7 "(1, 2)"] show ?thesis by fastforce
qed

text \<open>
  The uses of the pool: taking a semaphore, which is created when the pool is empty, or giving back any
  semaphore that is held, with the outcome of a \<^verbatim>\<open>realloc\<close> of the array.
\<close>

fun pool_client ::
    "(nat \<Rightarrow> sem_id) \<Rightarrow> (nat \<Rightarrow> sem_id) \<Rightarrow> pool_use list \<Rightarrow> nat \<times> sem_id list \<times> sem_pool \<Rightarrow> (nat \<times> sem_id list \<times> sem_pool) option" where
  "pool_client garbage fresh [] c = Some c"
| "pool_client garbage fresh (Take # ops) (n, held, s) =
     Option.bind (SemaphorePoolGet (fresh n) s)
       (\<lambda>(a, s'). pool_client garbage fresh ops (if pooled s = [] then n + 1 else n, held @ [a], s'))"
| "pool_client garbage fresh (Give k realloc_ok # ops) (n, held, s) =
     (if k < length held then
        Option.bind (SemaphorePoolPut realloc_ok garbage s (held ! k))
          (\<lambda>s'. pool_client garbage fresh ops (n, drop_nth k held, s'))
      else pool_client garbage fresh ops (n, held, s))"

lemma pool_client_is_client: "pool_client garbage fresh ops c = sp.client garbage fresh ops c"
  by (induction garbage fresh ops c rule: pool_client.induct) (auto split: option.splits intro!: Option.bind_cong)

text \<open>
  C30: however semaphores are taken and given back, in any order and with any outcome of \<^verbatim>\<open>realloc\<close>,
  none is held by two calls at once, none that is held is in the pool, and none is lost: those held and
  those pooled are exactly those created, each of which is a new semaphore. The only way not to return
  is a semaphore that is given back to a pool whose array is full when \<^verbatim>\<open>realloc\<close> fails.
\<close>

theorem semaphore_pool_exclusive:
  assumes "inj fresh"
  shows "case pool_client garbage fresh ops (0, [], SemaphorePoolInit) of
     Some (n, held, pool) \<Rightarrow> distinct (held @ pooled pool) \<and> set (held @ pooled pool) = fresh ` {0..<n}
   | None \<Rightarrow> \<exists>us k vs n held pool. ops = us @ Give k False # vs \<and>
       pool_client garbage fresh us (0, [], SemaphorePoolInit) = Some (n, held, pool) \<and> k < length held \<and> \<not> pool_room pool"
  unfolding pool_client_is_client
  by (rule sp.client_exclusive [OF conjunct1 [OF pool_init] conjunct2 [OF pool_init] assms])

theorem semaphore_pool_exclusive_witness:
  "\<exists>n held pool. pool_client (\<lambda>i. 0) (\<lambda>i. i + 100) [Take, Take, Give 1 True, Take, Take, Give 0 False] (0, [], SemaphorePoolInit) =
      Some (n, held, pool) \<and> distinct (held @ pooled pool) \<and> held = [101, 102] \<and> pooled pool = [100]"
proof -
  have "inj (\<lambda>i::nat. i + 100)" by (simp add: inj_def)
  from semaphore_pool_exclusive [OF this, where garbage = "\<lambda>i. 0" and ops = "[Take, Take, Give 1 True, Take, Take, Give 0 False]"]
  show ?thesis
    by (simp add: SemaphorePoolGet_def SemaphorePoolPut_def SemaphorePoolInit_def pooled_def drop_nth_def numeral_eq_Suc)
qed

text \<open>The other case: the array cannot be had, and the first semaphore given back is written to address zero.\<close>

lemma semaphore_pool_no_memory:
  "pool_client garbage fresh [Take, Give 0 False] (0, [], SemaphorePoolInit) = None"
  by (simp add: SemaphorePoolGet_def SemaphorePoolPut_def SemaphorePoolInit_def)



end
