(* ===== verification/NfsRpc.thy ===== *)
theory NfsRpc
  imports Xdr PendingCalls "HOL-Library.Monad_Syntax"
begin

text \<open>
  \<^verbatim>\<open>src/add-ons/kernel/file_systems/nfs/nfs_add_on.c\<close>, the lower half: RPC calls and replies, and the
  NFS procedures every file system operation is made of. The environment \<open>nfs_env\<close> holds what the
  code takes from outside: the exchange of a datagram for a reply (which retransmits and may time
  out, \<open>RpcClient\<close>), the clock, the VFS, memory and the driver settings, each over a state
  \<open>'w\<close> of the outside world. A result is an error code or a value, with the volume and the world
  after it; \<open>None\<close> is an access outside a buffer or through a null pointer. \<open>uninit\<close> is what a field
  no one wrote holds.
\<close>

section \<open>State and environment\<close>

text \<open>A file handle is \<open>NFS_FHSIZE\<close> bytes; a copy of it to the kernel cannot fail. Node numbers and sizes are 64-bit signed, as are times.\<close>

type_synonym nfs_fhandle = "uint8 list"

record fs_node =
  node_mode :: uint32
  node_vnid :: int
  node_fhandle :: nfs_fhandle

text \<open>The linked list of nodes, each with the address of its memory, in the order of the list.\<close>

record fs_nspace =
  ns_nsid :: int
  ns_nodes :: "(nat \<times> fs_node) list"
  ns_mountAddr :: sockaddr_in
  ns_nfsAddr :: sockaddr_in
  ns_xid :: uint32
  ns_rootid :: int
  ns_server :: "uint8 list"
  ns_export :: "uint8 list"
  ns_uid :: uint32
  ns_gid :: uint32

datatype vfs_call =
    Get_Vnode int | Put_Vnode int | Remove_Vnode int | Publish_Vnode int nat uint32
  | Notify_Entry_Created int "uint8 list" int | Notify_Entry_Removed int "uint8 list" int
  | Notify_Entry_Moved int "uint8 list" int "uint8 list" int | Notify_Stat_Changed int uint32

record 'w nfs_env =
  exchange :: "sockaddr_in \<Rightarrow> uint8 list \<Rightarrow> 'w \<Rightarrow> uint8 list option \<times> 'w"
  time_now :: "'w \<Rightarrow> uint32"
  vfs :: "vfs_call \<Rightarrow> 'w \<Rightarrow> status_t \<times> 'w"
  uninit :: uint32
  malloc :: "'w \<Rightarrow> nat option \<times> 'w"
  alloc_ok :: "nat \<Rightarrow> bool"
  conf_allow_dir_open :: bool
  conf_ls_root_parent :: bool

type_synonym 'w vol = "fs_nspace \<times> 'w"

type_synonym ('a, 'w) outcome = "((status_t + 'a) \<times> 'w vol) option"

text \<open>Going on after a success; an error is returned to the caller.\<close>

definition bindE :: "('a, 'w) outcome \<Rightarrow> ('a \<Rightarrow> 'w vol \<Rightarrow> ('b, 'w) outcome) \<Rightarrow> ('b, 'w) outcome" where
  "bindE m k = (case m of None \<Rightarrow> None | Some (Inl e, s) \<Rightarrow> Some (Inl e, s) | Some (Inr a, s) \<Rightarrow> k a s)"

lemma bindE_simps [simp]:
  "bindE None k = None" "bindE (Some (Inl e, s)) k = Some (Inl e, s)" "bindE (Some (Inr a, s)) k = k a s"
  by (simp_all add: bindE_def)

section \<open>Remote procedure calls\<close>

definition rpc_header :: "fs_nspace \<Rightarrow> uint32 \<Rightarrow> uint32 \<Rightarrow> uint32 \<Rightarrow> uint32 \<Rightarrow> xdr_item list" where
  "rpc_header ns xid prog vers proc =
     [XInt xid, XInt 0, XInt 2, XInt prog, XInt vers, XInt proc,
      XInt 1, XInt (of_nat (4 + 4 + rounded (length (ns_server ns)) + 4 + 4 + 4)), XInt 0, XString (ns_server ns),
      XInt (ns_uid ns), XInt (ns_gid ns), XInt 0,
      XInt 0, XDynamic []]"

definition send_rpc_call ::
    "'w nfs_env \<Rightarrow> sockaddr_in \<Rightarrow> uint32 \<Rightarrow> uint32 \<Rightarrow> uint32 \<Rightarrow> xdr_out \<Rightarrow> 'w vol \<Rightarrow> (uint8 list option \<times> 'w vol) option" where
  "send_rpc_call env addr prog vers proc packet s = do {
     let (ns, w) = s;
     let xid = ns_xid ns;
     let ns1 = ns\<lparr>ns_xid := xid + 1\<rparr>;
     header \<leftarrow> add_items (alloc_ok env) (XDROutPacketInit (\<lambda>i. 0)) (rpc_header ns1 xid prog vers proc);
     rpc_call \<leftarrow> XDROutPacketAppend (alloc_ok env) header packet;
     let (reply, w1) = exchange env addr (packet_bytes rpc_call) w;
     Some (reply, (ns1, w1))
   }"

text \<open>The verifier of a reply is read into a buffer of 400 bytes.\<close>

definition is_successful_reply :: "xdr_in \<Rightarrow> (bool \<times> xdr_in) option" where
  "is_successful_reply r0 = do {
     (xid, r1) \<leftarrow> XDRInPacketGetInt32 r0;
     (mtype, r2) \<leftarrow> XDRInPacketGetInt32 r1;
     (replyStat, r3) \<leftarrow> XDRInPacketGetInt32 r2;
     if replyStat = 1 then do {
       (rejectStat, r4) \<leftarrow> XDRInPacketGetInt32 r3;
       if rejectStat = 0 then do {
         (low, r5) \<leftarrow> XDRInPacketGetInt32 r4;
         (high, r6) \<leftarrow> XDRInPacketGetInt32 r5;
         Some (False, r6)
       } else do {
         (authStat, r5) \<leftarrow> XDRInPacketGetInt32 r4;
         Some (False, r5)
       }
     } else do {
       (flavor, r4) \<leftarrow> XDRInPacketGetInt32 r3;
       (body, st, r5) \<leftarrow> XDRInPacketGetDynamic r4 Kernel_Address;
       bytes \<leftarrow> body;
       if length bytes > 400 then None
       else do {
         (acceptStat, r6) \<leftarrow> XDRInPacketGetInt32 r5;
         if acceptStat = 2 then do {
           (low, r7) \<leftarrow> XDRInPacketGetInt32 r6;
           (high, r8) \<leftarrow> XDRInPacketGetInt32 r7;
           Some (False, r8)
         } else Some (acceptStat = 0, r6)
       }
     }
   }"

definition map_nfs_to_system_error :: "uint32 \<Rightarrow> status_t" where
  "map_nfs_to_system_error nfsstatus =
     (if nfsstatus = 0 then B_OK
      else if nfsstatus = 1 then EPERM
      else if nfsstatus = 2 then ENOENT
      else if nfsstatus = 5 then EIO
      else if nfsstatus = 6 then ENXIO
      else if nfsstatus = 13 then EACCES
      else if nfsstatus = 17 then EEXIST
      else if nfsstatus = 19 then ENODEV
      else if nfsstatus = 20 then ENOTDIR
      else if nfsstatus = 21 then EISDIR
      else if nfsstatus = 27 then EFBIG
      else if nfsstatus = 28 then ENOSPC
      else if nfsstatus = 30 then EROFS
      else if nfsstatus = 63 then ENAMETOOLONG
      else if nfsstatus = 66 then ENOTEMPTY
      else if nfsstatus = 70 then C_ERROR_STALE
      else B_ERROR)"

text \<open>
  The start every procedure has in common: a call without a reply is the given error, then the reply
  must be accepted, and its status \<open>NFS_OK\<close>.
\<close>

definition nfs_results :: "status_t \<Rightarrow> uint8 list option \<Rightarrow> (status_t + xdr_in) option" where
  "nfs_results unreachable reply =
     (case reply of None \<Rightarrow> Some (Inl unreachable)
      | Some buf \<Rightarrow> do {
          (ok, r) \<leftarrow> is_successful_reply (XDRInPacketSetTo XDRInPacketInit buf 0);
          if \<not> ok then Some (Inl B_ERROR)
          else do {
            (status, r1) \<leftarrow> XDRInPacketGetInt32 r;
            if status \<noteq> 0 then Some (Inl (map_nfs_to_system_error status)) else Some (Inr r1)
          }
        })"

definition nfs_call ::
    "'w nfs_env \<Rightarrow> status_t \<Rightarrow> sockaddr_in \<Rightarrow> uint32 \<Rightarrow> uint32 \<Rightarrow> uint32 \<Rightarrow> xdr_item list \<Rightarrow> 'w vol \<Rightarrow> (xdr_in, 'w) outcome" where
  "nfs_call env unreachable addr prog vers proc args s = do {
     call \<leftarrow> add_items (alloc_ok env) (XDROutPacketInit (\<lambda>i. 0)) args;
     (reply, s1) \<leftarrow> send_rpc_call env addr prog vers proc call s;
     r \<leftarrow> nfs_results unreachable reply;
     Some (r, s1)
   }"

abbreviation "PMAP_PROGRAM \<equiv> 100000 :: uint32"
abbreviation "MOUNT_PROGRAM \<equiv> 100005 :: uint32"
abbreviation "NFS_PROGRAM \<equiv> 100003 :: uint32"
abbreviation "NFSPROC_GETATTR \<equiv> 1 :: uint32"
abbreviation "NFSPROC_SETATTR \<equiv> 2 :: uint32"
abbreviation "NFSPROC_LOOKUP \<equiv> 4 :: uint32"
abbreviation "NFSPROC_READLINK \<equiv> 5 :: uint32"
abbreviation "NFSPROC_READ \<equiv> 6 :: uint32"
abbreviation "NFSPROC_WRITE \<equiv> 8 :: uint32"
abbreviation "NFSPROC_CREATE \<equiv> 9 :: uint32"
abbreviation "NFSPROC_REMOVE \<equiv> 10 :: uint32"
abbreviation "NFSPROC_RENAME \<equiv> 11 :: uint32"
abbreviation "NFSPROC_SYMLINK \<equiv> 13 :: uint32"
abbreviation "NFSPROC_MKDIR \<equiv> 14 :: uint32"
abbreviation "NFSPROC_RMDIR \<equiv> 15 :: uint32"
abbreviation "NFSPROC_READDIR \<equiv> 16 :: uint32"
abbreviation "NFSPROC_STATFS \<equiv> 17 :: uint32"

text \<open>The common case: a procedure of the NFS program, at the NFS server's address.\<close>

definition nfs_proc :: "'w nfs_env \<Rightarrow> status_t \<Rightarrow> uint32 \<Rightarrow> xdr_item list \<Rightarrow> 'w vol \<Rightarrow> (xdr_in, 'w) outcome" where
  "nfs_proc env unreachable proc args s = nfs_call env unreachable (ns_nfsAddr (fst s)) NFS_PROGRAM 2 proc args s"

section \<open>Attributes\<close>

record file_stat =
  st_mode :: uint32
  st_nlink :: uint32
  st_uid :: uint32
  st_gid :: uint32
  st_size :: int
  st_blksize :: uint32
  st_rdev :: uint32
  st_blocks :: int
  st_dev :: int
  st_ino :: int
  st_atime :: int
  st_mtime :: int
  st_ctime :: int
  st_crtime :: int

definition get_nfs_attr :: "xdr_in \<Rightarrow> (file_stat \<times> xdr_in) option" where
  "get_nfs_attr r0 = do {
     (ftype, r1) \<leftarrow> XDRInPacketGetInt32 r0;
     (mode, r2) \<leftarrow> XDRInPacketGetInt32 r1;
     (nlink, r3) \<leftarrow> XDRInPacketGetInt32 r2;
     (uid, r4) \<leftarrow> XDRInPacketGetInt32 r3;
     (gid, r5) \<leftarrow> XDRInPacketGetInt32 r4;
     (sz, r6) \<leftarrow> XDRInPacketGetInt32 r5;
     (blksize, r7) \<leftarrow> XDRInPacketGetInt32 r6;
     (rdev, r8) \<leftarrow> XDRInPacketGetInt32 r7;
     (blocks, r9) \<leftarrow> XDRInPacketGetInt32 r8;
     (fsid, r10) \<leftarrow> XDRInPacketGetInt32 r9;
     (ino, r11) \<leftarrow> XDRInPacketGetInt32 r10;
     (atime, r12) \<leftarrow> XDRInPacketGetInt32 r11;
     (usecs1, r13) \<leftarrow> XDRInPacketGetInt32 r12;
     (mtime, r14) \<leftarrow> XDRInPacketGetInt32 r13;
     (usecs2, r15) \<leftarrow> XDRInPacketGetInt32 r14;
     (ctime, r16) \<leftarrow> XDRInPacketGetInt32 r15;
     (usecs3, r17) \<leftarrow> XDRInPacketGetInt32 r16;
     Some (\<lparr>st_mode = mode, st_nlink = nlink, st_uid = uid, st_gid = gid, st_size = sint sz, st_blksize = blksize,
       st_rdev = rdev, st_blocks = sint blocks, st_dev = 0, st_ino = sint ino, st_atime = sint atime,
       st_mtime = sint mtime, st_ctime = sint ctime, st_crtime = sint mtime\<rparr>, r17)
   }"

abbreviation NFS_FHSIZE :: nat where "NFS_FHSIZE \<equiv> 32"

section \<open>The procedures\<close>

text \<open>The port mapper's answer: the port replaces the one in \<open>addr\<close>.\<close>

definition get_remote_address ::
    "'w nfs_env \<Rightarrow> uint32 \<Rightarrow> uint32 \<Rightarrow> uint32 \<Rightarrow> sockaddr_in \<Rightarrow> 'w vol \<Rightarrow> (sockaddr_in, 'w) outcome" where
  "get_remote_address env prog vers prot addr s = do {
     let addr1 = (fst addr, 111);
     call \<leftarrow> add_items (alloc_ok env) (XDROutPacketInit (\<lambda>i. 0)) [XInt prog, XInt vers, XInt prot, XInt 0];
     (reply, s1) \<leftarrow> send_rpc_call env addr1 PMAP_PROGRAM 2 3 call s;
     case reply of None \<Rightarrow> Some (Inl EHOSTUNREACH, s1)
     | Some buf \<Rightarrow> do {
         (ok, r) \<leftarrow> is_successful_reply (XDRInPacketSetTo XDRInPacketInit buf 0);
         if ok then do {
           (port, r1) \<leftarrow> XDRInPacketGetInt32 r;
           Some (Inr (fst addr, ucast port), s1)
         } else Some (Inl EHOSTUNREACH, s1)
       }
   }"

definition nfs_mount :: "'w nfs_env \<Rightarrow> uint8 list \<Rightarrow> 'w vol \<Rightarrow> (nfs_fhandle, 'w) outcome" where
  "nfs_mount env pathname s =
     bindE (nfs_call env EHOSTUNREACH (ns_mountAddr (fst s)) MOUNT_PROGRAM 1 1 [XString pathname] s) (\<lambda>r s1. do {
       (fhandle, status, r1) \<leftarrow> XDRInPacketGetFixed r Kernel_Address NFS_FHSIZE;
       if status \<noteq> B_OK then Some (Inl B_ERROR, s1)
       else do { fh \<leftarrow> fhandle; Some (Inr fh, s1) }
     })"

definition nfs_lookup ::
    "'w nfs_env \<Rightarrow> nfs_fhandle \<Rightarrow> uint8 list \<Rightarrow> 'w vol \<Rightarrow> (nfs_fhandle \<times> file_stat, 'w) outcome" where
  "nfs_lookup env dir filename s =
     bindE (nfs_proc env EHOSTUNREACH NFSPROC_LOOKUP [XFixed dir, XString filename] s) (\<lambda>r s1. do {
       (fhandle, status, r1) \<leftarrow> XDRInPacketGetFixed r Kernel_Address NFS_FHSIZE;
       if status \<noteq> B_OK then Some (Inl B_ERROR, s1)
       else do {
         fh \<leftarrow> fhandle;
         (st, r2) \<leftarrow> get_nfs_attr r1;
         Some (Inr (fh, st), s1)
       }
     })"

definition nfs_getattr :: "'w nfs_env \<Rightarrow> nfs_fhandle \<Rightarrow> 'w vol \<Rightarrow> (file_stat, 'w) outcome" where
  "nfs_getattr env fhandle s =
     bindE (nfs_proc env EHOSTUNREACH NFSPROC_GETATTR [XFixed fhandle] s) (\<lambda>r s1. do {
       (st, r1) \<leftarrow> get_nfs_attr r;
       Some (Inr st, s1)
     })"

text \<open>The attributes of the reply are read only where the caller wants them.\<close>

definition nfs_truncate_file ::
    "'w nfs_env \<Rightarrow> nfs_fhandle \<Rightarrow> bool \<Rightarrow> 'w vol \<Rightarrow> (file_stat option, 'w) outcome" where
  "nfs_truncate_file env fhandle want_st s =
     (let now = time_now env (snd s) in
      bindE (nfs_proc env EHOSTUNREACH NFSPROC_SETATTR
          [XFixed fhandle, XInt (- 1), XInt (- 1), XInt (- 1), XInt 0, XInt now, XInt 0, XInt now, XInt 0] s)
        (\<lambda>r s1. if want_st then do { (st, r1) \<leftarrow> get_nfs_attr r; Some (Inr (Some st), s1) } else Some (Inr None, s1)))"


section \<open>Reading encoded items\<close>

definition encode :: "xdr_item list \<Rightarrow> uint8 list" where
  "encode vs = concat (map item_bytes vs)"

text \<open>A reader with items before it, whose bytes were \<open>pre\<close>, and items to come.\<close>

definition rd :: "uint8 list \<Rightarrow> xdr_item list \<Rightarrow> xdr_in" where
  "rd pre vs = \<lparr>xi_buffer = pre @ encode vs, xi_offset = length pre\<rparr>"

lemma encode_simps [simp]: "encode [] = []" "encode (v # vs) = item_bytes v @ encode vs" "encode (us @ vs) = encode us @ encode vs"
  by (simp_all add: encode_def)

lemma rd_int [simp]: "XDRInPacketGetInt32 (rd pre (XInt v # vs)) = Some (v, rd (pre @ be32 v) vs)"
  using get_int_at [of "rd pre (XInt v # vs)" pre v "encode vs"] by (simp add: rd_def)

lemma rd_fixed [simp]:
  "length bs = n \<Longrightarrow> dst \<noteq> User_Address False \<Longrightarrow>
   XDRInPacketGetFixed (rd pre (XFixed bs # vs)) dst n = Some (Some bs, B_OK, rd (pre @ padded bs) vs)"
  using get_fixed_at [of "rd pre (XFixed bs # vs)" pre bs "replicate (rounded (length bs) - length bs) 0 @ encode vs" n dst]
  by (simp add: rd_def padded_def rounded_ge)

lemma rd_dynamic [simp]:
  "length bs < 2 ^ 31 \<Longrightarrow> dst \<noteq> User_Address False \<Longrightarrow>
   XDRInPacketGetDynamic (rd pre (XDynamic bs # vs)) dst =
     Some (Some bs, B_OK, rd (pre @ be32 (of_nat (length bs)) @ padded bs) vs)"
  using get_dynamic_at [of "rd pre (XDynamic bs # vs)" pre bs "replicate (rounded (length bs) - length bs) 0 @ encode vs" dst]
  by (simp add: rd_def padded_def rounded_ge add.assoc)

lemma rd_string [simp]:
  "length bs < 2 ^ 31 - 1 \<Longrightarrow> \<forall>n. ok n \<Longrightarrow>
   XDRInPacketGetString ok (rd pre (XString bs # vs)) = Some (bs @ [0], rd (pre @ be32 (of_nat (length bs)) @ padded bs) vs)"
  using get_string_at [of "rd pre (XString bs # vs)" pre bs "replicate (rounded (length bs) - length bs) 0 @ encode vs" ok]
  by (simp add: rd_def padded_def rounded_ge add.assoc)

lemma rd_start: "XDRInPacketSetTo XDRInPacketInit (encode vs) 0 = rd [] vs"
  by (simp add: rd_def XDRInPacketSetTo_def XDRInPacketInit_def)

section \<open>The wire form of calls and replies\<close>

definition call_bytes :: "fs_nspace \<Rightarrow> uint32 \<Rightarrow> uint32 \<Rightarrow> uint32 \<Rightarrow> xdr_item list \<Rightarrow> uint8 list" where
  "call_bytes ns prog vers proc args = encode (rpc_header ns (ns_xid ns) prog vers proc) @ encode args"

definition next_xid :: "fs_nspace \<Rightarrow> fs_nspace" where
  "next_xid ns = ns\<lparr>ns_xid := ns_xid ns + 1\<rparr>"

text \<open>The name of the server is a C string.\<close>

definition server_ok :: "fs_nspace \<Rightarrow> bool" where
  "server_ok ns \<longleftrightarrow> 0 \<notin> set (ns_server ns) \<and> length (ns_server ns) < 2 ^ 31 - 32"

lemma add_items_ok:
  assumes "\<forall>n. ok n" "xo_ok p" "list_all valid_item vs"
  shows "\<exists>p'. add_items ok p vs = Some p' \<and> xo_ok p' \<and> xo_bytes p' = xo_bytes p @ encode vs"
proof -
  from assms(1) have "ok = (\<lambda>n. True)" by auto
  with xdr.puts_enc [OF assms(2,3)] show ?thesis by (auto simp: add_items_puts encode_def)
qed

lemma header_valid: "server_ok ns \<Longrightarrow> list_all valid_item (rpc_header ns xid prog vers proc)"
  by (simp add: rpc_header_def server_ok_def)

lemma header_next_xid: "rpc_header (next_xid ns) = rpc_header ns"
  by (simp add: rpc_header_def next_xid_def fun_eq_iff)

lemma send_rpc_call_bytes:
  assumes "\<forall>n. alloc_ok env n" "server_ok ns" "exchange env addr (encode (rpc_header ns (ns_xid ns) prog vers proc) @ xo_bytes packet) w = (reply, w')"
  shows "send_rpc_call env addr prog vers proc packet (ns, w) = Some (reply, (next_xid ns, w'))"
proof -
  from add_items_ok [OF assms(1) conjunct1 [OF init_ok] header_valid [OF assms(2), of "ns_xid ns" prog vers proc], of "\<lambda>i. 0"]
  obtain p where p: "add_items (alloc_ok env) (XDROutPacketInit (\<lambda>i. 0)) (rpc_header ns (ns_xid ns) prog vers proc) = Some p"
    "xo_ok p" "xo_bytes p = encode (rpc_header ns (ns_xid ns) prog vers proc)" by (auto simp: init_ok)
  from add_append_ok [OF assms(1) p(2), of packet] obtain q where
    q: "XDROutPacketAppend (alloc_ok env) p packet = Some q" "xo_ok q" "xo_bytes q = xo_bytes p @ xo_bytes packet" by blast
  have "ns\<lparr>ns_xid := ns_xid ns + 1\<rparr> = next_xid ns" by (simp add: next_xid_def)
  with p q assms(3) show ?thesis
    by (simp add: send_rpc_call_def header_next_xid packet_bytes_ok)
qed

lemma nfs_call_bytes:
  assumes "\<forall>n. alloc_ok env n" "server_ok ns" "list_all valid_item args"
    "exchange env addr (call_bytes ns prog vers proc args) w = (reply, w')"
  shows "nfs_call env unreachable addr prog vers proc args (ns, w) =
    map_option (\<lambda>r. (r, (next_xid ns, w'))) (nfs_results unreachable reply)"
proof -
  from add_items_ok [OF assms(1) conjunct1 [OF init_ok] assms(3), of "\<lambda>i. 0"]
  obtain p where p: "add_items (alloc_ok env) (XDROutPacketInit (\<lambda>i. 0)) args = Some p" "xo_bytes p = encode args"
    by (auto simp: init_ok)
  with assms(4) have "exchange env addr (encode (rpc_header ns (ns_xid ns) prog vers proc) @ xo_bytes p) w = (reply, w')"
    by (simp add: call_bytes_def)
  from send_rpc_call_bytes [OF assms(1,2) this] p show ?thesis
    by (cases "nfs_results unreachable reply") (simp_all add: nfs_call_def)
qed

text \<open>The replies a server may send, by RFC 1057.\<close>

datatype rpc_reply =
    Rpc_Mismatch uint32 uint32 | Auth_Error uint32 uint32
  | Prog_Mismatch uint32 "uint8 list" uint32 uint32 | Accepted uint32 "uint8 list" uint32 "xdr_item list"

fun reply_items :: "uint32 \<Rightarrow> rpc_reply \<Rightarrow> xdr_item list" where
  "reply_items xid (Rpc_Mismatch low high) = [XInt xid, XInt 1, XInt 1, XInt 0, XInt low, XInt high]"
| "reply_items xid (Auth_Error reject st) = [XInt xid, XInt 1, XInt 1, XInt reject, XInt st]"
| "reply_items xid (Prog_Mismatch flavor verf low high) =
     [XInt xid, XInt 1, XInt 0, XInt flavor, XDynamic verf, XInt 2, XInt low, XInt high]"
| "reply_items xid (Accepted flavor verf st rs) = [XInt xid, XInt 1, XInt 0, XInt flavor, XDynamic verf, XInt st] @ rs"

text \<open>RFC 1057 bounds the verifier by 400 bytes; other rejections than a mismatch are authentication errors.\<close>

fun reply_ok :: "rpc_reply \<Rightarrow> bool" where
  "reply_ok (Rpc_Mismatch low high) = True"
| "reply_ok (Auth_Error reject st) = (reject \<noteq> 0)"
| "reply_ok (Prog_Mismatch flavor verf low high) = (length verf \<le> 400)"
| "reply_ok (Accepted flavor verf st rs) = (length verf \<le> 400 \<and> st \<noteq> 2)"

definition reply_bytes :: "uint32 \<Rightarrow> rpc_reply \<Rightarrow> uint8 list" where
  "reply_bytes xid rep = encode (reply_items xid rep)"

fun reply_results :: "rpc_reply \<Rightarrow> xdr_item list option" where
  "reply_results (Accepted flavor verf st rs) = (if st = 0 then Some rs else None)"
| "reply_results rep = None"

lemma is_successful_reply_rd:
  "reply_ok rep \<Longrightarrow> \<exists>pre rest. is_successful_reply (rd p (reply_items xid rep)) = Some (reply_results rep \<noteq> None, rd pre rest) \<and>
     (\<forall>rs. reply_results rep = Some rs \<longrightarrow> rest = rs)"
  by (cases rep) (auto simp: is_successful_reply_def)

lemma nfs_results_none [simp]: "nfs_results unreachable None = Some (Inl unreachable)"
  by (simp add: nfs_results_def)

lemma nfs_results_reply:
  assumes "reply_ok rep"
  shows "case reply_results rep of
      None \<Rightarrow> nfs_results unreachable (Some (reply_bytes xid rep)) = Some (Inl B_ERROR)
    | Some rs \<Rightarrow> (\<forall>status rs'. rs = XInt status # rs' \<longrightarrow>
        (\<exists>pre. nfs_results unreachable (Some (reply_bytes xid rep)) =
          Some (if status = 0 then Inr (rd pre rs') else Inl (map_nfs_to_system_error status))))"
  using is_successful_reply_rd [OF assms, of "[]" xid]
  by (auto simp: nfs_results_def reply_bytes_def rd_start split: option.splits)

section \<open>Attributes on the wire\<close>

record fattr =
  fa_type :: uint32
  fa_mode :: uint32
  fa_nlink :: uint32
  fa_uid :: uint32
  fa_gid :: uint32
  fa_size :: uint32
  fa_blocksize :: uint32
  fa_rdev :: uint32
  fa_blocks :: uint32
  fa_fsid :: uint32
  fa_fileid :: uint32
  fa_atime :: "uint32 \<times> uint32"
  fa_mtime :: "uint32 \<times> uint32"
  fa_ctime :: "uint32 \<times> uint32"

definition attr_items :: "fattr \<Rightarrow> xdr_item list" where
  "attr_items a = map XInt [fa_type a, fa_mode a, fa_nlink a, fa_uid a, fa_gid a, fa_size a, fa_blocksize a, fa_rdev a,
     fa_blocks a, fa_fsid a, fa_fileid a, fst (fa_atime a), snd (fa_atime a), fst (fa_mtime a), snd (fa_mtime a),
     fst (fa_ctime a), snd (fa_ctime a)]"

definition stat_of :: "fattr \<Rightarrow> file_stat" where
  "stat_of a = \<lparr>st_mode = fa_mode a, st_nlink = fa_nlink a, st_uid = fa_uid a, st_gid = fa_gid a, st_size = sint (fa_size a),
     st_blksize = fa_blocksize a, st_rdev = fa_rdev a, st_blocks = sint (fa_blocks a), st_dev = 0, st_ino = sint (fa_fileid a),
     st_atime = sint (fst (fa_atime a)), st_mtime = sint (fst (fa_mtime a)), st_ctime = sint (fst (fa_ctime a)),
     st_crtime = sint (fst (fa_mtime a))\<rparr>"

lemma get_nfs_attr_rd: "get_nfs_attr (rd pre (attr_items a @ vs)) = Some (stat_of a, rd (pre @ encode (attr_items a)) vs)"
  by (simp add: get_nfs_attr_def attr_items_def stat_of_def)


section \<open>What a server's answer means\<close>

text \<open>
  The answers to a call: none in time, a reply that refuses the call, a status other than \<open>NFS_OK\<close>, or
  results. \<open>answers\<close> says which datagrams are such an answer, whatever verifier they carry.
\<close>

datatype 'r served = Unreachable | Refused | Failed uint32 | Served 'r

fun answers :: "('r \<Rightarrow> xdr_item list) \<Rightarrow> 'r served \<Rightarrow> uint8 list option \<Rightarrow> bool" where
  "answers enc Unreachable reply = (reply = None)"
| "answers enc Refused reply =
     (\<exists>xid rep. reply_ok rep \<and> reply_results rep = None \<and> reply = Some (reply_bytes xid rep))"
| "answers enc (Failed st) reply =
     (st \<noteq> 0 \<and> (\<exists>xid flavor verf rs. length verf \<le> 400 \<and> reply = Some (reply_bytes xid (Accepted flavor verf 0 (XInt st # rs)))))"
| "answers enc (Served r) reply =
     (\<exists>xid flavor verf rs. length verf \<le> 400 \<and> reply = Some (reply_bytes xid (Accepted flavor verf 0 (XInt 0 # enc r @ rs))))"

fun outcome_of :: "status_t \<Rightarrow> ('r \<Rightarrow> 'a) \<Rightarrow> 'r served \<Rightarrow> status_t + 'a" where
  "outcome_of unreachable f Unreachable = Inl unreachable"
| "outcome_of unreachable f Refused = Inl B_ERROR"
| "outcome_of unreachable f (Failed st) = Inl (map_nfs_to_system_error st)"
| "outcome_of unreachable f (Served r) = Inr (f r)"

lemma map_error_ok [simp]: "map_nfs_to_system_error st = B_OK \<longleftrightarrow> st = 0"
  by (simp add: map_nfs_to_system_error_def)

lemma nfs_results_answer:
  assumes "answers enc srv reply"
  shows "\<exists>pre rest. nfs_results unreachable reply = Some (outcome_of unreachable (\<lambda>r. rd pre (enc r @ rest)) srv)"
proof (cases srv)
  case Refused
  with assms obtain xid rep where "reply_ok rep" "reply_results rep = None" "reply = Some (reply_bytes xid rep)" by auto
  with nfs_results_reply [of rep unreachable xid] Refused show ?thesis by simp
next
  case (Failed st)
  with assms obtain xid flavor verf rs where r: "st \<noteq> 0" "length verf \<le> 400"
    "reply = Some (reply_bytes xid (Accepted flavor verf 0 (XInt st # rs)))" by auto
  with nfs_results_reply [of "Accepted flavor verf 0 (XInt st # rs)" unreachable xid] Failed show ?thesis by simp
next
  case (Served r)
  with assms obtain xid flavor verf rs where r: "length verf \<le> 400"
    "reply = Some (reply_bytes xid (Accepted flavor verf 0 (XInt 0 # enc r @ rs)))" by auto
  with nfs_results_reply [of "Accepted flavor verf 0 (XInt 0 # enc r @ rs)" unreachable xid] Served show ?thesis by auto
qed (use assms in auto)

text \<open>
  In the outside world \<open>w\<close> the server at the address of the NFS service answers the procedure with
  \<open>srv\<close>, the world then being \<open>w'\<close>.
\<close>

definition serves ::
    "'w nfs_env \<Rightarrow> fs_nspace \<Rightarrow> uint32 \<Rightarrow> xdr_item list \<Rightarrow> ('r \<Rightarrow> xdr_item list) \<Rightarrow> 'r served \<Rightarrow> 'w \<Rightarrow> 'w \<Rightarrow> bool" where
  "serves env ns proc args enc srv w w' \<longleftrightarrow>
     (\<exists>reply. exchange env (ns_nfsAddr ns) (call_bytes ns NFS_PROGRAM 2 proc args) w = (reply, w') \<and> answers enc srv reply)"

definition client_ok :: "'w nfs_env \<Rightarrow> fs_nspace \<Rightarrow> bool" where
  "client_ok env ns \<longleftrightarrow> (\<forall>n. alloc_ok env n) \<and> server_ok ns"

lemma nfs_proc_serves:
  assumes "client_ok env ns" "list_all valid_item args" "serves env ns proc args enc srv w w'"
  shows "\<exists>pre rest. nfs_proc env unreachable proc args (ns, w) =
    Some (outcome_of unreachable (\<lambda>r. rd pre (enc r @ rest)) srv, (next_xid ns, w'))"
proof -
  from assms(3) obtain reply where
    r: "exchange env (ns_nfsAddr ns) (call_bytes ns NFS_PROGRAM 2 proc args) w = (reply, w')" "answers enc srv reply"
    unfolding serves_def by blast
  from nfs_results_answer [OF r(2)] obtain pre rest where
    "nfs_results unreachable reply = Some (outcome_of unreachable (\<lambda>r. rd pre (enc r @ rest)) srv)" by blast
  with nfs_call_bytes [OF _ _ assms(2) r(1)] assms(1) show ?thesis
    by (auto simp: nfs_proc_def client_ok_def)
qed

definition lookup_items :: "nfs_fhandle \<times> fattr \<Rightarrow> xdr_item list" where
  "lookup_items r = XFixed (fst r) # attr_items (snd r)"

fun served_all :: "('r \<Rightarrow> bool) \<Rightarrow> 'r served \<Rightarrow> bool" where
  "served_all P (Served r) = P r"
| "served_all P srv = True"

lemma lookup_serves:
  assumes "client_ok env ns" "0 \<notin> set name" "length name < 2 ^ 31"
    "serves env ns NFSPROC_LOOKUP [XFixed dir, XString name] lookup_items srv w w'"
    "served_all (\<lambda>r. length (fst r) = NFS_FHSIZE) srv"
  shows "nfs_lookup env dir name (ns, w) =
    Some (outcome_of EHOSTUNREACH (\<lambda>r. (fst r, stat_of (snd r))) srv, (next_xid ns, w'))"
proof -
  from nfs_proc_serves [OF assms(1) _ assms(4), of EHOSTUNREACH] assms(2,3) obtain pre rest where
    "nfs_proc env EHOSTUNREACH NFSPROC_LOOKUP [XFixed dir, XString name] (ns, w) =
      Some (outcome_of EHOSTUNREACH (\<lambda>r. rd pre (lookup_items r @ rest)) srv, (next_xid ns, w'))" by auto
  with assms(5) show ?thesis
    by (cases srv) (simp_all add: nfs_lookup_def lookup_items_def get_nfs_attr_rd)
qed

lemma getattr_serves:
  assumes "client_ok env ns" "serves env ns NFSPROC_GETATTR [XFixed fh] attr_items srv w w'"
  shows "nfs_getattr env fh (ns, w) = Some (outcome_of EHOSTUNREACH stat_of srv, (next_xid ns, w'))"
proof -
  from nfs_proc_serves [OF assms(1) _ assms(2), of EHOSTUNREACH] obtain pre rest where
    "nfs_proc env EHOSTUNREACH NFSPROC_GETATTR [XFixed fh] (ns, w) =
      Some (outcome_of EHOSTUNREACH (\<lambda>r. rd pre (attr_items r @ rest)) srv, (next_xid ns, w'))" by auto
  then show ?thesis by (cases srv) (simp_all add: nfs_getattr_def get_nfs_attr_rd)
qed

section \<open>Properties\<close>

lemma encode_aligned: "4 dvd length (encode vs)"
  by (induction vs) (auto intro: dvd_add item_bytes_aligned)

lemma padded_aligned: "4 dvd length bs \<Longrightarrow> padded bs = bs"
  by (auto simp: padded_def rounded_def elim!: dvdE)

text \<open>The credential of \<^verbatim>\<open>RPC_AUTH_SYS\<close>: stamp, machine name, uid, gid and no further groups.\<close>

definition credential :: "fs_nspace \<Rightarrow> uint8 list" where
  "credential ns = encode [XInt 0, XString (ns_server ns), XInt (ns_uid ns), XInt (ns_gid ns), XInt 0]"

definition call_header :: "fs_nspace \<Rightarrow> uint32 \<Rightarrow> uint32 \<Rightarrow> uint32 \<Rightarrow> xdr_item list" where
  "call_header ns prog vers proc =
     [XInt (ns_xid ns), XInt 0, XInt 2, XInt prog, XInt vers, XInt proc, XInt 1, XDynamic (credential ns), XInt 0, XDynamic []]"

lemma header_encodes: "encode (rpc_header ns (ns_xid ns) prog vers proc) = encode (call_header ns prog vers proc)"
proof -
  have l: "length (credential ns) = 4 + 4 + rounded (length (ns_server ns)) + 4 + 4 + 4"
    by (simp add: credential_def)
  have "padded (credential ns) = credential ns"
    by (rule padded_aligned) (unfold credential_def, rule encode_aligned)
  then have "item_bytes (XDynamic (credential ns)) =
      be32 (of_nat (4 + 4 + rounded (length (ns_server ns)) + 4 + 4 + 4)) @
      encode [XInt 0, XString (ns_server ns), XInt (ns_uid ns), XInt (ns_gid ns), XInt 0]"
    by (simp only: item_bytes.simps l) (simp only: credential_def)
  then show ?thesis by (simp only: rpc_header_def call_header_def encode_simps) simp
qed

text \<open>
  C32: every call on the wire is a well-formed RPC message: an XDR reader finds the transaction id,
  the call type, RPC version 2, the program, version and procedure, an \<^verbatim>\<open>AUTH_SYS\<close> credential whose
  length word covers exactly the stamp, server name, user and group it holds, an empty verifier, and
  then the bytes of the caller's packet; the transaction id advances by one.
\<close>

theorem rpc_call_well_formed:
  assumes "client_ok env ns" "xo_length packet \<le> xo_size packet"
  shows "\<exists>sent r. send_rpc_call env addr prog vers proc packet (ns, w) =
      Some (fst (exchange env addr sent w), (next_xid ns, snd (exchange env addr sent w))) \<and>
    get_items (map kind_of (call_header ns prog vers proc)) (XDRInPacketSetTo XDRInPacketInit sent 0) =
      Some (call_header ns prog vers proc, r) \<and>
    drop (xi_offset r) sent = packet_bytes packet"
proof -
  have ok: "xo_ok packet" using assms(2) by (simp add: xo_ok_def)
  let ?h = "call_header ns prog vers proc"
  let ?sent = "encode ?h @ packet_bytes packet"
  have len: "length (ns_server ns) < 2 ^ 31 - 32" using assms(1) by (simp add: client_ok_def server_ok_def)
  have "length (credential ns) < 2 ^ 31" using len by (simp add: credential_def rounded_def)
  then have v: "list_all readable_item ?h" by (simp add: call_header_def)
  have "send_rpc_call env addr prog vers proc packet (ns, w) =
      Some (fst (exchange env addr ?sent w), (next_xid ns, snd (exchange env addr ?sent w)))"
    using assms(1) by (intro send_rpc_call_bytes) (auto simp: client_ok_def header_encodes packet_bytes_ok [OF ok])
  moreover have "reading (XDRInPacketSetTo XDRInPacketInit ?sent 0) ?sent 0"
    by (simp add: reading_def XDRInPacketSetTo_def)
  then have "\<exists>r. get_items (map kind_of ?h) (XDRInPacketSetTo XDRInPacketInit ?sent 0) = Some (?h, r) \<and>
      reading r ?sent (length (encode ?h))"
    using xdr.gets_enc [OF v, of _ "[]" "packet_bytes packet"] by (simp add: get_items_gets encode_def)
  then obtain r where "get_items (map kind_of ?h) (XDRInPacketSetTo XDRInPacketInit ?sent 0) = Some (?h, r)"
    "xi_offset r = length (encode ?h)" by (auto simp: reading_def)
  ultimately show ?thesis by (intro exI [of _ ?sent] exI [of _ r]) simp
qed

text \<open>A volume and an environment, for examples.\<close>

definition sample_ns :: fs_nspace where
  "sample_ns = \<lparr>ns_nsid = 1, ns_nodes = [(1, \<lparr>node_mode = 0x4000, node_vnid = 5, node_fhandle = [7]\<rparr>)],
     ns_mountAddr = (1, 2), ns_nfsAddr = (1, 3), ns_xid = 0, ns_rootid = 5, ns_server = [97], ns_export = [47],
     ns_uid = 0, ns_gid = 0\<rparr>"

definition sample_env :: "(sockaddr_in \<Rightarrow> uint8 list \<Rightarrow> 'w \<Rightarrow> uint8 list option \<times> 'w) \<Rightarrow> 'w nfs_env" where
  "sample_env ex = \<lparr>exchange = ex, time_now = (\<lambda>w. 0), vfs = (\<lambda>c w. (B_OK, w)), uninit = 0, malloc = (\<lambda>w. (Some 9, w)),
     alloc_ok = (\<lambda>n. True), conf_allow_dir_open = True, conf_ls_root_parent = True\<rparr>"

lemma sample_ok: "client_ok (sample_env ex) sample_ns"
  by (simp add: client_ok_def server_ok_def sample_env_def sample_ns_def)

theorem rpc_call_well_formed_witness:
  "\<exists>sent r w'. send_rpc_call (sample_env (\<lambda>a b w. (None, b))) (1, 3) 100003 2 1 (XDROutPacketInit (\<lambda>i. 0)) (sample_ns, []) =
      Some (None, (next_xid sample_ns, sent)) \<and>
    get_items (map kind_of (call_header sample_ns 100003 2 1)) (XDRInPacketSetTo XDRInPacketInit sent 0) =
      Some (call_header sample_ns 100003 2 1, r)"
proof -
  have "xo_length (XDROutPacketInit (\<lambda>i. 0)) \<le> xo_size (XDROutPacketInit (\<lambda>i. 0))" by (simp add: XDROutPacketInit_def)
  from rpc_call_well_formed [OF sample_ok this, of "\<lambda>a b w. (None, b)" "(1, 3)" 100003 2 1 "[]"] show ?thesis
    by (auto simp: sample_env_def)
qed

text \<open>
  C33: a lookup and an attribute request return what the server answered, and nothing else: without
  a reply the host is unreachable, a refused call is a general error, a status other than \<^verbatim>\<open>NFS_OK\<close> its
  system error, never success, and results are the handle and attributes that were sent. Of the
  volume only the transaction id changes.
\<close>

theorem nfs_lookup_exact:
  assumes "client_ok env ns" "0 \<notin> set name" "length name < 2 ^ 31"
    "serves env ns NFSPROC_LOOKUP [XFixed dir, XString name] lookup_items found w w1"
    "served_all (\<lambda>r. length (fst r) = NFS_FHSIZE) found"
    "serves env ns NFSPROC_GETATTR [XFixed fh] attr_items attrs w w2"
  shows "nfs_lookup env dir name (ns, w) =
      Some (case found of Unreachable \<Rightarrow> Inl EHOSTUNREACH | Refused \<Rightarrow> Inl B_ERROR
        | Failed st \<Rightarrow> Inl (map_nfs_to_system_error st) | Served (h, a) \<Rightarrow> Inr (h, stat_of a), (next_xid ns, w1)) \<and>
    nfs_getattr env fh (ns, w) =
      Some (case attrs of Unreachable \<Rightarrow> Inl EHOSTUNREACH | Refused \<Rightarrow> Inl B_ERROR
        | Failed st \<Rightarrow> Inl (map_nfs_to_system_error st) | Served a \<Rightarrow> Inr (stat_of a), (next_xid ns, w2)) \<and>
    (\<forall>st. found = Failed st \<longrightarrow> map_nfs_to_system_error st \<noteq> B_OK)"
proof -
  have "found = Failed st \<Longrightarrow> st \<noteq> 0" for st using assms(4) by (auto simp: serves_def)
  then show ?thesis
    using lookup_serves [OF assms(1-5)] getattr_serves [OF assms(1,6)]
    by (cases found; cases attrs) (auto split: prod.splits)
qed

theorem nfs_lookup_exact_witness:
  "nfs_lookup (sample_env (\<lambda>a b w. (Some (reply_bytes 0 (Accepted 0 [] 0 [XInt 2])), w))) [7] [120] (sample_ns, ()) =
    Some (Inl ENOENT, (next_xid sample_ns, ()))"
proof -
  let ?env = "sample_env (\<lambda>a b w. (Some (reply_bytes 0 (Accepted 0 [] 0 [XInt 2])), w))"
  have s: "serves ?env sample_ns proc args enc (Failed 2) () ()" for proc args and enc :: "'r \<Rightarrow> xdr_item list"
    by (auto simp: serves_def sample_env_def intro!: exI [of _ 0] exI [of _ "[]"])
  from nfs_lookup_exact [OF sample_ok _ _ s _ s, of "[120]" "[7]" "[7]"] show ?thesis
    by (simp add: map_nfs_to_system_error_def)
qed

text \<open>A verifier longer than the 400 bytes of the local buffer is copied past its end.\<close>

lemma reply_verifier_overflow:
  assumes "400 < length verf" "length verf < 2 ^ 31"
  shows "nfs_results unreachable (Some (encode [XInt xid, XInt 1, XInt 0, XInt flavor, XDynamic verf, XInt 0])) = None"
  using assms by (simp only: nfs_results_def option.case rd_start is_successful_reply_def)
    (simp add: is_successful_reply_def)

end
