(* ===== verification/KeyedTable.thy ===== *)
theory KeyedTable
  imports Prelude
begin

text \<open>
  The contract of a table from keys to values in which the first entry of a key stays until it is
  removed. The node table of the NFS client and the hash table of the block cache keep it.
\<close>

text \<open>An operation on such a table, and what it does to the finite map the table stands for.\<close>

datatype ('k, 'v) table_op = Enter 'k 'v | Drop 'k

primrec map_op :: "('k, 'v) table_op \<Rightarrow> ('k \<rightharpoonup> 'v) \<Rightarrow> ('k \<rightharpoonup> 'v)" where
  "map_op (Enter k v) f = (if f k = None then f(k \<mapsto> v) else f)"
| "map_op (Drop k) f = f(k := None)"

lemma map_op_keeps: "f k = Some v \<Longrightarrow> op \<noteq> Drop k \<Longrightarrow> map_op op f k = Some v"
  by (cases op) auto

lemma map_ops_keep: "f k = Some v \<Longrightarrow> Drop k \<notin> set ops \<Longrightarrow> fold map_op ops f k = Some v"
proof (induction ops arbitrary: f)
  case (Cons op ops)
  then show ?case by (auto intro!: Cons.IH map_op_keeps)
qed simp

locale keyed_table =
  fixes ok :: "'t \<Rightarrow> bool"
    and lookup :: "'t \<Rightarrow> 'k \<Rightarrow> 'v option"
    and enter :: "'k \<Rightarrow> 'v \<Rightarrow> 't \<Rightarrow> 't"
    and drop_key :: "'k \<Rightarrow> 't \<Rightarrow> 't"
    and fits :: "'k \<Rightarrow> 'v \<Rightarrow> bool"
  assumes enter_ok: "ok t \<Longrightarrow> fits k v \<Longrightarrow> ok (enter k v t)"
    and enter_lookup: "ok t \<Longrightarrow> fits k v \<Longrightarrow> lookup (enter k v t) = map_op (Enter k v) (lookup t)"
    and drop_ok: "ok t \<Longrightarrow> ok (drop_key k t)"
    and drop_lookup: "ok t \<Longrightarrow> lookup (drop_key k t) = map_op (Drop k) (lookup t)"
begin

definition run_op :: "('k, 'v) table_op \<Rightarrow> 't \<Rightarrow> 't" where
  "run_op op t = (case op of Enter k v \<Rightarrow> enter k v t | Drop k \<Rightarrow> drop_key k t)"

definition op_fits :: "('k, 'v) table_op \<Rightarrow> bool" where
  "op_fits op = (case op of Enter k v \<Rightarrow> fits k v | Drop k \<Rightarrow> True)"

lemma run_op_refines: "ok t \<Longrightarrow> op_fits op \<Longrightarrow> ok (run_op op t) \<and> lookup (run_op op t) = map_op op (lookup t)"
  by (cases op) (simp_all add: run_op_def op_fits_def enter_ok enter_lookup drop_ok drop_lookup)

text \<open>Any sequence of operations does to the table what it does to the map.\<close>

lemma run_refines:
  "ok t \<Longrightarrow> list_all op_fits ops \<Longrightarrow> ok (fold run_op ops t) \<and> lookup (fold run_op ops t) = fold map_op ops (lookup t)"
  by (induction ops arbitrary: t) (auto simp: run_op_refines)

text \<open>A key keeps its value until it is dropped.\<close>

lemma run_keeps:
  "ok t \<Longrightarrow> list_all op_fits ops \<Longrightarrow> lookup t k = Some v \<Longrightarrow> Drop k \<notin> set ops \<Longrightarrow> lookup (fold run_op ops t) k = Some v"
  by (simp add: run_refines map_ops_keep)

end

end
