(* ===== verification/NfsVolume.thy ===== *)
theory NfsVolume
  imports NfsRpc KeyedTable
begin

text \<open>
  \<^verbatim>\<open>src/add-ons/kernel/file_systems/nfs/nfs_add_on.c\<close>, the upper half: the table of nodes the client
  knows, and the operations the VFS calls. An operation gets the contents of the nodes and cookies
  it is called with and returns the new contents of the cookie. The writes of an operation to
  its caller's buffer are returned as bytes. The semaphore of the table makes each of its functions
  atomic.
\<close>

section \<open>The table of nodes\<close>

definition find_node :: "int \<Rightarrow> (nat \<times> fs_node) list \<Rightarrow> (nat \<times> fs_node) option" where
  "find_node vnid nodes = List.find (\<lambda>(a, n). node_vnid n = vnid) nodes"

text \<open>A number without a node makes the code follow a null pointer.\<close>

definition handle_from_vnid :: "fs_nspace \<Rightarrow> int \<Rightarrow> nfs_fhandle option" where
  "handle_from_vnid ns vnid = map_option (\<lambda>(a, n). node_fhandle n) (find_node vnid (ns_nodes ns))"

text \<open>A node whose number is known already is freed.\<close>

definition insert_node :: "nat \<Rightarrow> fs_node \<Rightarrow> fs_nspace \<Rightarrow> fs_nspace" where
  "insert_node a node ns =
     (case find_node (node_vnid node) (ns_nodes ns) of
        Some known \<Rightarrow> ns
      | None \<Rightarrow> ns\<lparr>ns_nodes := (a, node) # ns_nodes ns\<rparr>)"

fun remove_first :: "('a \<Rightarrow> bool) \<Rightarrow> 'a list \<Rightarrow> 'a list" where
  "remove_first P [] = []"
| "remove_first P (x # xs) = (if P x then xs else x # remove_first P xs)"

definition remove_node :: "int \<Rightarrow> fs_nspace \<Rightarrow> fs_nspace" where
  "remove_node vnid ns = ns\<lparr>ns_nodes := remove_first (\<lambda>(a, n). node_vnid n = vnid) (ns_nodes ns)\<rparr>"

text \<open>The node the VFS gets with its type, and whether the semaphore is still held at the end.\<close>

definition fs_read_vnode :: "fs_nspace \<Rightarrow> int \<Rightarrow> bool \<Rightarrow> (status_t + nat \<times> uint32) \<times> bool" where
  "fs_read_vnode ns vnid r =
     (case find_node vnid (ns_nodes ns) of
        None \<Rightarrow> (Inl EINVAL, \<not> r)
      | Some (a, n) \<Rightarrow> (Inr (a, node_mode n), False))"

section \<open>Calls to the outside\<close>

definition do_vfs :: "'w nfs_env \<Rightarrow> vfs_call \<Rightarrow> 'w vol \<Rightarrow> (unit, 'w) outcome" where
  "do_vfs env call s =
     (case vfs env call (snd s) of (st, w) \<Rightarrow> Some (if st = B_OK then Inr () else Inl st, (fst s, w)))"

definition do_malloc :: "'w nfs_env \<Rightarrow> 'w vol \<Rightarrow> nat option \<times> 'w vol" where
  "do_malloc env s = (case malloc env (snd s) of (a, w) \<Rightarrow> (a, (fst s, w)))"

text \<open>A new node for what a lookup found, entered in the table.\<close>

definition enter_node :: "nat \<Rightarrow> nfs_fhandle \<Rightarrow> file_stat \<Rightarrow> 'w vol \<Rightarrow> 'w vol" where
  "enter_node a fh st s =
     (insert_node a \<lparr>node_mode = st_mode st, node_vnid = st_ino st, node_fhandle = fh\<rparr> (fst s), snd s)"

definition S_ISDIR :: "uint32 \<Rightarrow> bool" where "S_ISDIR m \<longleftrightarrow> m AND 0xF000 = 0x4000"
definition S_ISREG :: "uint32 \<Rightarrow> bool" where "S_ISREG m \<longleftrightarrow> m AND 0xF000 = 0x8000"
definition S_ISLNK :: "uint32 \<Rightarrow> bool" where "S_ISLNK m \<longleftrightarrow> m AND 0xF000 = 0xA000"

abbreviation "S_IFREG \<equiv> 0x8000 :: uint32"
abbreviation "S_IFDIR \<equiv> 0x4000 :: uint32"
abbreviation "S_IFLNK \<equiv> 0xA000 :: uint32"
abbreviation "O_EXCL \<equiv> 0x100 :: uint32"
abbreviation "O_CREAT \<equiv> 0x200 :: uint32"
abbreviation "O_TRUNC \<equiv> 0x400 :: uint32"
abbreviation "O_APPEND \<equiv> 0x800 :: uint32"

section \<open>Nodes and attributes\<close>

definition fs_walk :: "'w nfs_env \<Rightarrow> fs_node \<Rightarrow> uint8 list \<Rightarrow> 'w vol \<Rightarrow> (int, 'w) outcome" where
  "fs_walk env base file s =
     bindE
       (if file = [46] then Some (Inr (node_vnid base), s)
        else
          (let (a, s1) = do_malloc env s in
           bindE (nfs_lookup env (node_fhandle base) file s1) (\<lambda>(fh, st) s2.
             case a of None \<Rightarrow> None
             | Some a \<Rightarrow> Some (Inr (st_ino st), enter_node a fh st s2))))
       (\<lambda>vnid s3. bindE (do_vfs env (Get_Vnode vnid) s3) (\<lambda>u s4. Some (Inr vnid, s4)))"

definition fs_rstat :: "'w nfs_env \<Rightarrow> fs_node \<Rightarrow> 'w vol \<Rightarrow> (file_stat, 'w) outcome" where
  "fs_rstat env node s =
     bindE (nfs_getattr env (node_fhandle node) s) (\<lambda>st s1. Some (Inr (st\<lparr>st_dev := ns_nsid (fst s1)\<rparr>), s1))"

text \<open>The attributes the caller wants to set; the numbers are cut to 32 bits on the wire.\<close>

definition fs_wstat :: "'w nfs_env \<Rightarrow> fs_node \<Rightarrow> file_stat \<Rightarrow> uint32 \<Rightarrow> 'w vol \<Rightarrow> (unit, 'w) outcome" where
  "fs_wstat env node st what s =
     bindE (nfs_proc env EHOSTUNREACH NFSPROC_SETATTR
         [XFixed (node_fhandle node),
          XInt (if what AND 1 \<noteq> 0 then st_mode st else - 1),
          XInt (if what AND 2 \<noteq> 0 then st_uid st else - 1),
          XInt (if what AND 4 \<noteq> 0 then st_gid st else - 1),
          XInt (if what AND 8 \<noteq> 0 then word_of_int (st_size st) else - 1),
          XInt (if what AND 16 \<noteq> 0 then word_of_int (st_atime st) else - 1),
          XInt (if what AND 16 \<noteq> 0 then 0 else - 1),
          XInt (if what AND 32 \<noteq> 0 then word_of_int (st_mtime st) else - 1),
          XInt (if what AND 32 \<noteq> 0 then 0 else - 1)] s)
       (\<lambda>r s1. do_vfs env (Notify_Stat_Changed (node_vnid node) what) s1)"

record fs_info =
  fi_dev :: int
  fi_root :: int
  fi_block_size :: int
  fi_io_size :: int
  fi_total_blocks :: int
  fi_free_blocks :: int
  fi_total_nodes :: int
  fi_free_nodes :: int
  fi_volume_name :: "uint8 list"

text \<open>The name of the volume has room for 256 bytes.\<close>

definition fs_rfsstat :: "'w nfs_env \<Rightarrow> 'w vol \<Rightarrow> (fs_info, 'w) outcome" where
  "fs_rfsstat env s = do {
     rootHandle \<leftarrow> handle_from_vnid (fst s) (ns_rootid (fst s));
     bindE (nfs_proc env EHOSTUNREACH NFSPROC_STATFS [XFixed rootHandle] s) (\<lambda>r s1. do {
       (tsize, r1) \<leftarrow> XDRInPacketGetInt32 r;
       (bsize, r2) \<leftarrow> XDRInPacketGetInt32 r1;
       (blocks, r3) \<leftarrow> XDRInPacketGetInt32 r2;
       (bfree, r4) \<leftarrow> XDRInPacketGetInt32 r3;
       let name = [110, 102, 115, 58, 47, 47] @ ns_server (fst s1) @ ns_export (fst s1);
       if length name + 1 > 256 then None
       else Some (Inr \<lparr>fi_dev = ns_nsid (fst s1), fi_root = ns_rootid (fst s1), fi_block_size = sint bsize,
         fi_io_size = 8192, fi_total_blocks = sint blocks, fi_free_blocks = sint bfree,
         fi_total_nodes = 100, fi_free_nodes = 100, fi_volume_name = name\<rparr>, s1)
     })
   }"

section \<open>Files\<close>

record fs_file_cookie =
  ck_omode :: uint32
  ck_original_size :: int
  ck_st :: file_stat

text \<open>The cookie of a directory is a null pointer, here \<open>None\<close>.\<close>

definition fs_open :: "'w nfs_env \<Rightarrow> fs_node \<Rightarrow> uint32 \<Rightarrow> 'w vol \<Rightarrow> (fs_file_cookie option, 'w) outcome" where
  "fs_open env node omode s =
     bindE (nfs_getattr env (node_fhandle node) s) (\<lambda>st s1.
       if S_ISDIR (st_mode st) then
         (if conf_allow_dir_open env then Some (Inr None, s1) else Some (Inl EISDIR, s1))
       else
         (let (a, s2) = do_malloc env s1 in
          case a of None \<Rightarrow> None
          | Some a \<Rightarrow> Some (Inr (Some \<lparr>ck_omode = omode, ck_original_size = st_size st, ck_st = st\<rparr>), s2)))"

abbreviation NFS_MAXDATA :: nat where "NFS_MAXDATA \<equiv> 1024"

text \<open>
  One round of the loop of \<^verbatim>\<open>fs_read\<close>, for a buffer of \<open>max\<close> bytes of which \<open>done\<close> are filled: the
  attributes and bytes of the reply. An error of the copy ends the operation after the cookie was
  updated, the \<open>Inl\<close> of the inner result.
\<close>

definition fs_read_chunk ::
    "'w nfs_env \<Rightarrow> fs_node \<Rightarrow> (nat \<Rightarrow> caller_memory) \<Rightarrow> nat \<Rightarrow> int \<Rightarrow> nat \<Rightarrow> 'w vol \<Rightarrow>
     (file_stat \<times> (status_t + uint8 list), 'w) outcome" where
  "fs_read_chunk env node dst maxlen pos len_done s =
     (let count = min NFS_MAXDATA (maxlen - len_done) in
      bindE (nfs_proc env B_ERROR NFSPROC_READ
          [XFixed (node_fhandle node), XInt (word_of_int pos), XInt (of_nat count), XInt 0] s) (\<lambda>r s1. do {
        (st, r1) \<leftarrow> get_nfs_attr r;
        (got_bytes, err, r2) \<leftarrow> XDRInPacketGetDynamic r1 (dst len_done);
        case got_bytes of
          None \<Rightarrow> Some (Inr (st, Inl err), s1)
        | Some bs \<Rightarrow> if len_done + length bs \<le> maxlen then Some (Inr (st, Inr bs), s1) else None
      }))"

text \<open>
  The loop, with the position, the bytes delivered and the cookie's attributes. The loop ends when the buffer
  is full or the position has reached the size the server reports.
\<close>

partial_function (option) fs_read_loop ::
    "'w nfs_env \<Rightarrow> fs_node \<times> (nat \<Rightarrow> caller_memory) \<times> nat \<Rightarrow> int \<times> uint8 list \<times> file_stat \<times> 'w vol \<Rightarrow>
     (status_t \<times> uint8 list \<times> file_stat \<times> 'w vol) option" where
  "fs_read_loop env c x =
     (case c of (node, dst, maxlen) \<Rightarrow> case x of (pos, out, cst, s) \<Rightarrow>
        if length out < maxlen then
          Option.bind (fs_read_chunk env node dst maxlen pos (length out) s) (\<lambda>y.
            case y of
              (Inl e, s1) \<Rightarrow> Some (e, out, cst, s1)
            | (Inr (st, Inl e), s1) \<Rightarrow> Some (e, out, st, s1)
            | (Inr (st, Inr bs), s1) \<Rightarrow>
                (let pos1 = pos + int (length bs) in
                 if pos1 \<ge> st_size st then Some (B_OK, out @ bs, st, s1)
                 else fs_read_loop env c (pos1, out @ bs, st, s1)))
        else Some (B_OK, out, cst, s))"

text \<open>The status, the bytes delivered (their number is the new \<^verbatim>\<open>*len\<close>) and the cookie.\<close>

definition fs_read ::
    "'w nfs_env \<Rightarrow> fs_node \<Rightarrow> fs_file_cookie option \<Rightarrow> int \<Rightarrow> (nat \<Rightarrow> caller_memory) \<Rightarrow> nat \<Rightarrow> 'w vol \<Rightarrow>
     (status_t \<times> uint8 list \<times> fs_file_cookie option \<times> 'w vol) option" where
  "fs_read env node cookie pos dst maxlen s =
     (case cookie of
        None \<Rightarrow> Some (EISDIR, [], None, s)
      | Some ck \<Rightarrow>
          map_option (\<lambda>(st, out, cst, s1). (st, out, Some (ck\<lparr>ck_st := cst\<rparr>), s1))
            (fs_read_loop env (node, dst, maxlen) (pos, [], ck_st ck, s)))"

text \<open>The \<^verbatim>\<open>WRITE\<close> call and its reply.\<close>

definition write_call :: "'w nfs_env \<Rightarrow> xdr_out \<Rightarrow> 'w vol \<Rightarrow> (file_stat, 'w) outcome" where
  "write_call env call s = do {
     (reply, s1) \<leftarrow> send_rpc_call env (ns_nfsAddr (fst s)) NFS_PROGRAM 2 NFSPROC_WRITE call s;
     res \<leftarrow> nfs_results B_ERROR reply;
     bindE (Some (res, s1)) (\<lambda>r s2. do { (st, r1) \<leftarrow> get_nfs_attr r; Some (Inr st, s2) })
   }"

text \<open>One round of \<^verbatim>\<open>fs_write\<close>; \<open>src\<close> tells where the caller's bytes lie.\<close>

definition fs_write_chunk ::
    "'w nfs_env \<Rightarrow> fs_node \<Rightarrow> (nat \<Rightarrow> caller_memory) \<Rightarrow> uint8 list \<Rightarrow> int \<Rightarrow> nat \<Rightarrow> 'w vol \<Rightarrow> (file_stat, 'w) outcome" where
  "fs_write_chunk env node src data pos written s = do {
     let count = min NFS_MAXDATA (length data - written);
     p1 \<leftarrow> add_items (alloc_ok env) (XDROutPacketInit (\<lambda>i. 0))
       [XFixed (node_fhandle node), XInt 0, XInt (word_of_int (pos + int written)), XInt 0];
     (call, err) \<leftarrow> XDROutPacketAddDynamic (alloc_ok env) p1 (src written) (take count (drop written data));
     if err \<noteq> B_OK then Some (Inl err, s) else write_call env call s
   }"

function fs_write_loop ::
    "'w nfs_env \<Rightarrow> fs_node \<Rightarrow> (nat \<Rightarrow> caller_memory) \<Rightarrow> uint8 list \<Rightarrow> int \<Rightarrow> nat \<Rightarrow> file_stat \<Rightarrow> 'w vol \<Rightarrow>
     (status_t \<times> file_stat \<times> 'w vol) option" where
  "fs_write_loop env node src data pos written cst s =
     (if written < length data then
        (case fs_write_chunk env node src data pos written s of
           None \<Rightarrow> None
         | Some (Inl e, s1) \<Rightarrow> Some (e, cst, s1)
         | Some (Inr st, s1) \<Rightarrow>
             fs_write_loop env node src data pos (written + min NFS_MAXDATA (length data - written)) st s1)
      else Some (B_OK, cst, s))"
  by pat_completeness auto
termination by (relation "measure (\<lambda>(env, node, src, data, pos, written, cst, s). length data - written)") auto

declare fs_write_loop.simps [simp del]

definition fs_write ::
    "'w nfs_env \<Rightarrow> fs_node \<Rightarrow> fs_file_cookie option \<Rightarrow> int \<Rightarrow> (nat \<Rightarrow> caller_memory) \<Rightarrow> uint8 list \<Rightarrow> 'w vol \<Rightarrow>
     (status_t \<times> fs_file_cookie option \<times> 'w vol) option" where
  "fs_write env node cookie pos src data s =
     (case cookie of
        None \<Rightarrow> Some (EISDIR, None, s)
      | Some ck \<Rightarrow>
          (let pos1 = (if ck_omode ck AND O_APPEND \<noteq> 0 then pos + ck_original_size ck else pos) in
           map_option (\<lambda>(st, cst, s1). (st, Some (ck\<lparr>ck_st := cst\<rparr>), s1))
             (fs_write_loop env node src data pos1 0 (ck_st ck) s)))"


section \<open>Creating and removing entries\<close>

text \<open>A file handle and attributes from a reply.\<close>

definition reply_entry :: "xdr_in \<Rightarrow> 'w vol \<Rightarrow> (nfs_fhandle \<times> file_stat, 'w) outcome" where
  "reply_entry r s = do {
     (fhandle, status, r1) \<leftarrow> XDRInPacketGetFixed r Kernel_Address NFS_FHSIZE;
     if status \<noteq> B_OK then Some (Inl B_ERROR, s)
     else do { fh \<leftarrow> fhandle; (st, r2) \<leftarrow> get_nfs_attr r1; Some (Inr (fh, st), s) }
   }"

text \<open>Memory whose absence is reported, unlike that of most calls.\<close>

definition need_memory :: "'w nfs_env \<Rightarrow> 'w vol \<Rightarrow> (nat, 'w) outcome" where
  "need_memory env s = (case do_malloc env s of (None, s1) \<Rightarrow> Some (Inl B_NO_MEMORY, s1) | (Some a, s1) \<Rightarrow> Some (Inr a, s1))"

definition open_cookie :: "'w nfs_env \<Rightarrow> uint32 \<Rightarrow> file_stat \<Rightarrow> 'w vol \<Rightarrow> (fs_file_cookie, 'w) outcome" where
  "open_cookie env omode st s =
     bindE (need_memory env s) (\<lambda>c s1. Some (Inr \<lparr>ck_omode = omode, ck_original_size = st_size st, ck_st = st\<rparr>, s1))"

definition fs_create ::
    "'w nfs_env \<Rightarrow> fs_node \<Rightarrow> uint8 list \<Rightarrow> uint32 \<Rightarrow> uint32 \<Rightarrow> 'w vol \<Rightarrow> (fs_file_cookie \<times> int, 'w) outcome" where
  "fs_create env dir name omode perms s =
     (case nfs_lookup env (node_fhandle dir) name s of
        None \<Rightarrow> None
      | Some (Inr (fh, st), s1) \<Rightarrow>
          bindE (need_memory env s1) (\<lambda>a s2.
          bindE (do_vfs env (Get_Vnode (st_ino st)) (enter_node a fh st s2)) (\<lambda>u s3.
            if S_ISDIR (st_mode st) then Some (Inl EISDIR, s3)
            else if omode AND O_EXCL \<noteq> 0 then Some (Inl EEXIST, s3)
            else
              bindE (if omode AND O_TRUNC \<noteq> 0 then nfs_truncate_file env fh False s3 else Some (Inr None, s3)) (\<lambda>t s4.
              bindE (open_cookie env omode st s4) (\<lambda>ck s5. Some (Inr (ck, st_ino st), s5)))))
      | Some (Inl e, s1) \<Rightarrow>
          if e \<noteq> ENOENT then Some (Inl e, s1)
          else if omode AND O_CREAT = 0 then Some (Inl ENOENT, s1)
          else
            (let now = time_now env (snd s1) in
             bindE (nfs_proc env B_ERROR NFSPROC_CREATE
                 [XFixed (node_fhandle dir), XString name, XInt (perms OR S_IFREG), XInt (- 1), XInt (- 1), XInt 0,
                  XInt now, XInt 0, XInt now, XInt 0] s1) (\<lambda>r s2.
             bindE (reply_entry r s2) (\<lambda>(fh, st) s3.
             bindE (need_memory env s3) (\<lambda>a s4.
             bindE (open_cookie env omode st (enter_node a fh st s4)) (\<lambda>ck s5.
             bindE (do_vfs env (Publish_Vnode (st_ino st) a S_IFREG) s5) (\<lambda>u s6.
             bindE (do_vfs env (Notify_Entry_Created (node_vnid dir) name (st_ino st)) s6) (\<lambda>u s7.
               Some (Inr (ck, st_ino st), s7)))))))))"

text \<open>
  Removing a name, of a kind \<open>allowed\<close> or else with error \<open>wrong\<close>: \<^verbatim>\<open>fs_unlink\<close> and \<^verbatim>\<open>fs_rmdir\<close>
  take the same steps.
\<close>

definition remove_entry ::
    "(uint32 \<Rightarrow> bool) \<Rightarrow> status_t \<Rightarrow> uint32 \<Rightarrow> 'w nfs_env \<Rightarrow> fs_node \<Rightarrow> uint8 list \<Rightarrow> 'w vol \<Rightarrow> (unit, 'w) outcome" where
  "remove_entry allowed wrong proc env dir name s =
     bindE (nfs_lookup env (node_fhandle dir) name s) (\<lambda>(fh, st) s1.
     bindE (need_memory env s1) (\<lambda>a s2.
     bindE (do_vfs env (Get_Vnode (st_ino st)) (enter_node a fh st s2)) (\<lambda>u s3.
       if \<not> allowed (st_mode st) then Some (Inl wrong, s3)
       else
         bindE (do_vfs env (Remove_Vnode (st_ino st)) s3) (\<lambda>u s4.
         bindE (do_vfs env (Put_Vnode (st_ino st)) s4) (\<lambda>u s5.
         bindE (nfs_proc env EHOSTUNREACH proc [XFixed (node_fhandle dir), XString name] s5) (\<lambda>r s6.
           do_vfs env (Notify_Entry_Removed (node_vnid dir) name (st_ino st)) s6))))))"

definition fs_unlink :: "'w nfs_env \<Rightarrow> fs_node \<Rightarrow> uint8 list \<Rightarrow> 'w vol \<Rightarrow> (unit, 'w) outcome" where
  "fs_unlink = remove_entry (\<lambda>m. S_ISREG m \<or> S_ISLNK m) EISDIR NFSPROC_REMOVE"

definition fs_rmdir :: "'w nfs_env \<Rightarrow> fs_node \<Rightarrow> uint8 list \<Rightarrow> 'w vol \<Rightarrow> (unit, 'w) outcome" where
  "fs_rmdir = remove_entry S_ISDIR ENOTDIR NFSPROC_RMDIR"

definition fs_remove_vnode :: "fs_node \<Rightarrow> 'w vol \<Rightarrow> (unit, 'w) outcome" where
  "fs_remove_vnode node s = Some (Inr (), (remove_node (node_vnid node) (fst s), snd s))"

definition fs_mkdir :: "'w nfs_env \<Rightarrow> fs_node \<Rightarrow> uint8 list \<Rightarrow> uint32 \<Rightarrow> 'w vol \<Rightarrow> (unit, 'w) outcome" where
  "fs_mkdir env dir name perms s =
     (case nfs_lookup env (node_fhandle dir) name s of
        None \<Rightarrow> None
      | Some (Inr found, s1) \<Rightarrow> Some (Inl EEXIST, s1)
      | Some (Inl e, s1) \<Rightarrow>
          if e \<noteq> ENOENT then Some (Inl e, s1)
          else
            (let now = time_now env (snd s1) in
             bindE (nfs_proc env B_ERROR NFSPROC_MKDIR
                 [XFixed (node_fhandle dir), XString name, XInt (perms OR S_IFDIR), XInt (- 1), XInt (- 1), XInt (- 1),
                  XInt now, XInt 0, XInt now, XInt 0] s1) (\<lambda>r s2.
             bindE (reply_entry r s2) (\<lambda>(fh, st) s3.
             bindE (need_memory env s3) (\<lambda>a s4.
               do_vfs env (Notify_Entry_Created (node_vnid dir) name (st_ino st)) (enter_node a fh st s4))))))"

definition fs_rename ::
    "'w nfs_env \<Rightarrow> fs_node \<Rightarrow> uint8 list \<Rightarrow> fs_node \<Rightarrow> uint8 list \<Rightarrow> 'w vol \<Rightarrow> (unit, 'w) outcome" where
  "fs_rename env olddir oldname newdir newname s =
     (case nfs_lookup env (node_fhandle newdir) newname s of
        None \<Rightarrow> None
      | Some (found, s1) \<Rightarrow>
          bindE
            (case found of
               Inl e \<Rightarrow> Some (Inr (), s1)
             | Inr (fh, st) \<Rightarrow> if S_ISREG (st_mode st) then fs_unlink env newdir newname s1 else fs_rmdir env newdir newname s1)
            (\<lambda>u s2.
             bindE (nfs_lookup env (node_fhandle olddir) oldname s2) (\<lambda>(fh, st) s3.
             bindE (nfs_proc env EHOSTUNREACH NFSPROC_RENAME
                 [XFixed (node_fhandle olddir), XString oldname, XFixed (node_fhandle newdir), XString newname] s3) (\<lambda>r s4.
               do_vfs env (Notify_Entry_Moved (node_vnid olddir) oldname (node_vnid newdir) newname (st_ino st)) s4))))"

text \<open>The bytes written to the caller's buffer and the new \<^verbatim>\<open>*bufsize\<close>.\<close>

definition fs_readlink :: "'w nfs_env \<Rightarrow> fs_node \<Rightarrow> nat \<Rightarrow> 'w vol \<Rightarrow> (uint8 list \<times> nat, 'w) outcome" where
  "fs_readlink env node bufsize s =
     bindE (nfs_proc env EHOSTUNREACH NFSPROC_READLINK [XFixed (node_fhandle node)] s) (\<lambda>r s1. do {
       (got_bytes, err, r1) \<leftarrow> XDRInPacketGetDynamic r Kernel_Address;
       data \<leftarrow> got_bytes;
       if length data > 1024 then None else Some (Inr (take bufsize data, length data), s1)
     })"

text \<open>
  The call of \<^verbatim>\<open>fs_symlink\<close> and what follows: the status of the reply is ignored, and the mode of the
  new node is not written.
\<close>

definition symlink_call :: "'w nfs_env \<Rightarrow> fs_node \<Rightarrow> uint8 list \<Rightarrow> xdr_out \<Rightarrow> 'w vol \<Rightarrow> (unit, 'w) outcome" where
  "symlink_call env dir name call s1 = do {
     (reply, s2) \<leftarrow> send_rpc_call env (ns_nfsAddr (fst s1)) NFS_PROGRAM 2 NFSPROC_SYMLINK call s1;
     case reply of None \<Rightarrow> Some (Inl B_ERROR, s2)
     | Some buf \<Rightarrow> do {
         (ok, r) \<leftarrow> is_successful_reply (XDRInPacketSetTo XDRInPacketInit buf 0);
         if \<not> ok then Some (Inl B_ERROR, s2)
         else do {
           (status, r1) \<leftarrow> XDRInPacketGetInt32 r;
           bindE (nfs_lookup env (node_fhandle dir) name s2) (\<lambda>(fh, st) s3.
           bindE (need_memory env s3) (\<lambda>a s4.
             do_vfs env (Notify_Entry_Created (node_vnid dir) name (st_ino st))
               (insert_node a \<lparr>node_mode = uninit env, node_vnid = st_ino st, node_fhandle = fh\<rparr> (fst s4), snd s4)))
         }
       }
   }"

definition fs_symlink :: "'w nfs_env \<Rightarrow> fs_node \<Rightarrow> uint8 list \<Rightarrow> uint8 list \<Rightarrow> 'w vol \<Rightarrow> (unit, 'w) outcome" where
  "fs_symlink env dir name target s =
     (case nfs_lookup env (node_fhandle dir) name s of
        None \<Rightarrow> None
      | Some (Inr (fh, st), s1) \<Rightarrow> bindE (do_vfs env (Get_Vnode (st_ino st)) s1) (\<lambda>u s2. Some (Inl EEXIST, s2))
      | Some (Inl e, s1) \<Rightarrow>
          if e \<noteq> ENOENT then Some (Inl e, s1)
          else do {
            let now = time_now env (snd s1);
            call \<leftarrow> add_items (alloc_ok env) (XDROutPacketInit (\<lambda>i. 0))
              [XFixed (node_fhandle dir), XString name, XString target, XInt S_IFLNK, XInt (- 1), XInt (- 1), XInt (- 1),
               XInt now, XInt 0, XInt now, XInt 0];
            symlink_call env dir name call s1
          })"

section \<open>Directories\<close>

type_synonym nfs_cookie = "uint8 list"

definition fs_opendir :: "'w nfs_env \<Rightarrow> fs_node \<Rightarrow> 'w vol \<Rightarrow> (nfs_cookie, 'w) outcome" where
  "fs_opendir env node s =
     bindE (nfs_getattr env (node_fhandle node) s) (\<lambda>st s1.
       if \<not> S_ISDIR (st_mode st) then Some (Inl ENOTDIR, s1)
       else (case do_malloc env s1 of (None, s2) \<Rightarrow> None | (Some a, s2) \<Rightarrow> Some (Inr (replicate 4 0), s2)))"

definition fs_rewinddir :: "nfs_cookie \<Rightarrow> nfs_cookie" where
  "fs_rewinddir cookie = replicate 4 0"

record dirent =
  d_dev :: int
  d_pdev :: int
  d_ino :: int
  d_pino :: int
  d_reclen :: uint16
  d_name :: "uint8 list"

text \<open>The room left in the buffer, the cookie, and the entries written, whose number is \<^verbatim>\<open>*num\<close>.\<close>

record dir_fill =
  df_bufsize :: nat
  df_cookie :: nfs_cookie
  df_entries :: "dirent list"

text \<open>
  What is done for an entry that is listed: its node becomes known, and it is written if there is
  room. \<open>Inl\<close> is the status the operation ends with, \<open>Inr\<close> the reader to go on with.
\<close>

definition fs_readdir_add ::
    "'w nfs_env \<Rightarrow> fs_node \<Rightarrow> uint32 \<Rightarrow> int \<Rightarrow> uint8 list \<Rightarrow> nfs_cookie \<Rightarrow> xdr_in \<Rightarrow> dir_fill \<Rightarrow> 'w vol \<Rightarrow>
     ((status_t + xdr_in) \<times> dir_fill \<times> 'w vol) option" where
  "fs_readdir_add env node maxnum vnid name newCookie r d s =
     (case do_malloc env s of
        (None, s1) \<Rightarrow> None
      | (Some a, s1) \<Rightarrow>
          (case nfs_lookup env (node_fhandle node) name s1 of
             None \<Rightarrow> None
           | Some (Inl e, s2) \<Rightarrow> Some (Inl e, d, s2)
           | Some (Inr (fh, st), s2) \<Rightarrow>
               (let s3 = (insert_node a \<lparr>node_mode = st_mode st, node_vnid = vnid, node_fhandle = fh\<rparr> (fst s2), snd s2)
                in if df_bufsize d < 26 + length name + 1 then Some (Inl B_OK, d, s3)
                   else
                     (let entry = \<lparr>d_dev = ns_nsid (fst s3), d_pdev = ns_nsid (fst s3), d_ino = vnid,
                            d_pino = node_vnid node, d_reclen = of_nat (26 + length name + 1), d_name = name\<rparr>;
                          d1 = \<lparr>df_bufsize = df_bufsize d - unat (d_reclen entry), df_cookie = newCookie,
                            df_entries = df_entries d @ [entry]\<rparr>
                      in if length (df_entries d1) = unat maxnum then Some (Inl B_OK, d1, s3)
                         else Some (Inr r, d1, s3)))))"

text \<open>One entry of a reply.\<close>

definition fs_readdir_entry ::
    "'w nfs_env \<Rightarrow> fs_node \<Rightarrow> uint32 \<Rightarrow> xdr_in \<Rightarrow> dir_fill \<Rightarrow> 'w vol \<Rightarrow> ((status_t + xdr_in) \<times> dir_fill \<times> 'w vol) option" where
  "fs_readdir_entry env node maxnum r d s = do {
     (ino, r1) \<leftarrow> XDRInPacketGetInt32 r;
     (str, r2) \<leftarrow> XDRInPacketGetString (alloc_ok env) r1;
     let name = takeWhile (\<lambda>b. b \<noteq> 0) str;
     (ck, status, r3) \<leftarrow> XDRInPacketGetFixed r2 Kernel_Address 4;
     if status \<noteq> B_OK then Some (Inl B_ERROR, d, s)
     else do {
       newCookie \<leftarrow> ck;
       if conf_ls_root_parent env \<or> ns_rootid (fst s) \<noteq> node_vnid node \<or> name \<noteq> [46, 46] then
         fs_readdir_add env node maxnum (sint ino) name newCookie r3 d s
       else
         (let d1 = d\<lparr>df_cookie := newCookie\<rparr>
          in if length (df_entries d1) = unat maxnum then Some (Inl B_OK, d1, s) else Some (Inr r3, d1, s))
     }
   }"

partial_function (option) fs_readdir_entries ::
    "'w nfs_env \<Rightarrow> fs_node \<times> uint32 \<Rightarrow> xdr_in \<times> dir_fill \<times> 'w vol \<Rightarrow> ((status_t + xdr_in) \<times> dir_fill \<times> 'w vol) option" where
  "fs_readdir_entries env c x =
     (case x of (r, d, s) \<Rightarrow>
        Option.bind (XDRInPacketGetInt32 r) (\<lambda>(more, r1).
          if more = 1 then
            Option.bind (fs_readdir_entry env (fst c) (snd c) r1 d s) (\<lambda>y.
              case y of
                (Inl st, d1, s1) \<Rightarrow> Some (Inl st, d1, s1)
              | (Inr r2, d1, s1) \<Rightarrow> fs_readdir_entries env c (r2, d1, s1))
          else Some (Inr r1, d, s)))"

text \<open>Calls until the server reports the end or the operation has what it may return.\<close>

partial_function (option) fs_readdir_loop ::
    "'w nfs_env \<Rightarrow> fs_node \<times> uint32 \<Rightarrow> dir_fill \<times> 'w vol \<Rightarrow> (status_t \<times> dir_fill \<times> 'w vol) option" where
  "fs_readdir_loop env c x =
     (case x of (d, s) \<Rightarrow>
        Option.bind (nfs_proc env B_ERROR NFSPROC_READDIR
            [XFixed (node_fhandle (fst c)), XFixed (df_cookie d), XInt (min 6000 (snd c * 300))] s) (\<lambda>y.
          case y of
            (Inl e, s1) \<Rightarrow> Some (e, d, s1)
          | (Inr r, s1) \<Rightarrow>
              Option.bind (fs_readdir_entries env c (r, d, s1)) (\<lambda>z.
                case z of
                  (Inl st, d1, s2) \<Rightarrow> Some (st, d1, s2)
                | (Inr r1, d1, s2) \<Rightarrow>
                    Option.bind (XDRInPacketGetInt32 r1) (\<lambda>(eof, r2).
                      if eof = 0 then fs_readdir_loop env c (d1, s2) else Some (B_OK, d1, s2)))))"

definition fs_readdir ::
    "'w nfs_env \<Rightarrow> fs_node \<Rightarrow> nfs_cookie \<Rightarrow> nat \<Rightarrow> uint32 \<Rightarrow> 'w vol \<Rightarrow> (status_t \<times> dirent list \<times> nfs_cookie \<times> 'w vol) option" where
  "fs_readdir env node cookie bufsize num s =
     map_option (\<lambda>(st, d, s1). (st, df_entries d, df_cookie d, s1))
       (fs_readdir_loop env (node, num) (\<lparr>df_bufsize = bufsize, df_cookie = cookie, df_entries = []\<rparr>, s))"


section \<open>The node table as a map\<close>

definition table_ok :: "fs_nspace \<Rightarrow> bool" where
  "table_ok ns \<longleftrightarrow> distinct (map (\<lambda>(a, n). node_vnid n) (ns_nodes ns))"

definition known :: "fs_nspace \<Rightarrow> int \<Rightarrow> (nat \<times> fs_node) option" where
  "known ns vnid = find_node vnid (ns_nodes ns)"

lemma find_node_simps [simp]:
  "find_node v [] = None"
  "find_node v ((a, n) # xs) = (if node_vnid n = v then Some (a, n) else find_node v xs)"
  by (simp_all add: find_node_def)

lemma find_node_None: "find_node v xs = None \<longleftrightarrow> v \<notin> set (map (\<lambda>(a, n). node_vnid n) xs)"
  by (induction xs) (auto split: if_splits)

lemma find_node_vnid: "find_node v xs = Some (a, n) \<Longrightarrow> node_vnid n = v"
  by (induction xs) (auto split: if_splits)

lemma remove_first_find:
  "distinct (map (\<lambda>(a, n). node_vnid n) xs) \<Longrightarrow>
   find_node v (remove_first (\<lambda>(a, n). node_vnid n = u) xs) = (if v = u then None else find_node v xs)"
  by (induction xs) (auto simp: find_node_None)

lemma remove_first_set: "set (remove_first P xs) \<subseteq> set xs"
  by (induction xs) auto

lemma remove_first_distinct: "distinct (map f xs) \<Longrightarrow> distinct (map f (remove_first P xs))"
  by (induction xs) (use remove_first_set in fastforce)+

lemma insert_known: "known (insert_node a n ns) = map_op (Enter (node_vnid n) (a, n)) (known ns)"
  by (rule ext) (auto simp: known_def insert_node_def split: option.splits)

lemma insert_table_ok: "table_ok ns \<Longrightarrow> table_ok (insert_node a n ns)"
  by (auto simp: table_ok_def insert_node_def find_node_None split: option.splits)

lemma remove_known: "table_ok ns \<Longrightarrow> known (remove_node v ns) = map_op (Drop v) (known ns)"
  by (rule ext) (auto simp: known_def remove_node_def remove_first_find table_ok_def)

lemma remove_table_ok: "table_ok ns \<Longrightarrow> table_ok (remove_node v ns)"
  by (simp add: table_ok_def remove_node_def remove_first_distinct)

interpretation nt: keyed_table table_ok known "\<lambda>v (a, n). insert_node a n" remove_node "\<lambda>v (a, n). node_vnid n = v"
proof unfold_locales
  fix t v and x :: "nat \<times> fs_node" assume "table_ok t" "(\<lambda>(a, n). node_vnid n = v) x"
  then show "table_ok ((\<lambda>v (a, n). insert_node a n) v x t)"
    "known ((\<lambda>v (a, n). insert_node a n) v x t) = map_op (Enter v x) (known t)"
    by (auto simp: insert_table_ok insert_known split: prod.splits)
qed (auto simp: remove_known remove_table_ok)

text \<open>One operation on the table, as the client uses it.\<close>

fun table_step :: "(int, nat \<times> fs_node) table_op \<Rightarrow> fs_nspace \<Rightarrow> fs_nspace" where
  "table_step (Enter v (a, n)) ns = insert_node a n ns"
| "table_step (Drop v) ns = remove_node v ns"

lemma table_step_run: "table_step op ns = nt.run_op op ns"
  by (cases "(op, ns)" rule: table_step.cases) (simp_all add: nt.run_op_def)

text \<open>
  C10: any sequence of insertions and removals of nodes does to the table what it does to the map from
  node numbers to nodes, where an insertion under a known number changes nothing. The handle found for
  a number is that of its node, and stays so until the number is removed.
\<close>

theorem node_table_refines:
  assumes "table_ok ns" "\<forall>v a n. Enter v (a, n) \<in> set ops \<longrightarrow> node_vnid n = v"
  shows "table_ok (fold table_step ops ns) \<and> known (fold table_step ops ns) = fold map_op ops (known ns) \<and>
    (\<forall>v a n. known ns v = Some (a, n) \<and> Drop v \<notin> set ops \<longrightarrow>
      handle_from_vnid (fold table_step ops ns) v = Some (node_fhandle n))"
proof -
  have f: "list_all nt.op_fits ops"
    using assms(2) by (auto simp: list_all_iff nt.op_fits_def split: table_op.splits)
  have "table_step = nt.run_op" by (intro ext) (rule table_step_run)
  with nt.run_refines [OF assms(1) f] have r: "table_ok (fold table_step ops ns)"
    "known (fold table_step ops ns) = fold map_op ops (known ns)" by simp_all
  have "handle_from_vnid (fold table_step ops ns) v = Some (node_fhandle n)"
    if "known ns v = Some (a, n)" "Drop v \<notin> set ops" for v a n
    using map_ops_keep [of "known ns" v "(a, n)" ops] that r(2) by (simp add: handle_from_vnid_def known_def [symmetric])
  with r show ?thesis by blast
qed

theorem node_table_refines_witness:
  "\<exists>ns n. handle_from_vnid (fold table_step [Enter 5 (1, n), Enter 5 (2, n\<lparr>node_fhandle := []\<rparr>), Drop 6] ns) 5 =
     Some (node_fhandle n)"
proof -
  define n where "n = \<lparr>node_mode = 0, node_vnid = 5, node_fhandle = [7]\<rparr>"
  define ns where "ns = \<lparr>ns_nsid = 1, ns_nodes = [(1, n)], ns_mountAddr = (0, 0), ns_nfsAddr = (0, 0), ns_xid = 0,
    ns_rootid = 5, ns_server = [], ns_export = [], ns_uid = 0, ns_gid = 0\<rparr>"
  have "known ns 5 = Some (1, n)" "table_ok ns" by (simp_all add: ns_def n_def known_def table_ok_def)
  with node_table_refines [of ns "[Enter 5 (1, n), Enter 5 (2, n\<lparr>node_fhandle := []\<rparr>), Drop 6]"]
  have "handle_from_vnid (fold table_step [Enter 5 (1, n), Enter 5 (2, n\<lparr>node_fhandle := []\<rparr>), Drop 6] ns) 5 =
     Some (node_fhandle n)" by (auto simp: n_def)
  then show ?thesis by blast
qed


section \<open>What operations leave alone\<close>

text \<open>
  The volume after an operation: the settings are the same and every known node is still known, under
  the same number and with the same contents.
\<close>

definition same_settings :: "fs_nspace \<Rightarrow> fs_nspace \<Rightarrow> bool" where
  "same_settings ns ns' \<longleftrightarrow> ns'\<lparr>ns_nodes := [], ns_xid := 0\<rparr> = ns\<lparr>ns_nodes := [], ns_xid := 0\<rparr>"

definition grows :: "fs_nspace \<Rightarrow> fs_nspace \<Rightarrow> bool" where
  "grows ns ns' \<longleftrightarrow> same_settings ns ns' \<and> (table_ok ns \<longrightarrow> table_ok ns') \<and> known ns \<subseteq>\<^sub>m known ns'"

lemma grows_refl [simp]: "grows ns ns"
  by (simp add: grows_def same_settings_def)

lemma grows_trans: "grows a b \<Longrightarrow> grows b c \<Longrightarrow> grows a c"
  unfolding grows_def same_settings_def by (metis map_le_trans)

lemma grows_next_xid [simp]: "grows ns (next_xid ns)"
  by (simp add: grows_def same_settings_def next_xid_def table_ok_def known_def map_le_def)

lemma grows_insert [simp]: "grows ns (insert_node a n ns)"
proof -
  have "same_settings ns (insert_node a n ns)"
    by (auto simp: same_settings_def insert_node_def split: option.splits)
  then show ?thesis by (auto simp: grows_def insert_table_ok insert_known map_le_def)
qed

text \<open>A computation that only lets the volume grow, whatever it returns.\<close>

definition only_grows :: "('a \<times> 'w vol) option \<Rightarrow> fs_nspace \<Rightarrow> bool" where
  "only_grows m ns \<longleftrightarrow> (\<forall>x. m = Some x \<longrightarrow> grows ns (fst (snd x)))"

named_theorems growing "rules for what lets the volume grow"

lemma only_grows_None [growing]: "only_grows None ns"
  by (simp add: only_grows_def)

lemma only_grows_Some [growing]: "grows ns (fst s) \<Longrightarrow> only_grows (Some (r, s)) ns"
  by (simp add: only_grows_def)

lemma only_grows_bindE [growing]:
  assumes "only_grows m ns" "\<And>a s1. grows ns (fst s1) \<Longrightarrow> only_grows (k a s1) ns"
  shows "only_grows (bindE m k) ns"
proof (cases m)
  case (Some x)
  obtain y s1 where x: "x = (y, s1)" by (cases x)
  with assms(1) Some have g: "grows ns (fst s1)" by (simp add: only_grows_def)
  show ?thesis
  proof (cases y)
    case (Inl e)
    with Some x g show ?thesis by (auto intro: only_grows_Some)
  next
    case (Inr a)
    with Some x assms(2) [OF g, of a] show ?thesis by simp
  qed
qed (simp add: only_grows_None)

lemma only_grows_bind: "(\<And>x. m = Some x \<Longrightarrow> only_grows (k x) ns) \<Longrightarrow> only_grows (Option.bind m k) ns"
  by (cases m) (auto simp: only_grows_def)

lemma only_grows_if [growing]:
  "(b \<Longrightarrow> only_grows m ns) \<Longrightarrow> (\<not> b \<Longrightarrow> only_grows m' ns) \<Longrightarrow> only_grows (if b then m else m') ns"
  by simp

lemma only_grows_pair [growing]:
  "(\<And>a b. p = (a, b) \<Longrightarrow> only_grows (f a b) ns) \<Longrightarrow> only_grows (case p of (a, b) \<Rightarrow> f a b) ns"
  by (cases p) simp

lemma only_grows_option [growing]:
  "(x = None \<Longrightarrow> only_grows m ns) \<Longrightarrow> (\<And>a. x = Some a \<Longrightarrow> only_grows (f a) ns) \<Longrightarrow>
   only_grows (case x of None \<Rightarrow> m | Some a \<Rightarrow> f a) ns"
  by (cases x) simp_all

lemma only_grows_sum [growing]:
  "(\<And>a. x = Inl a \<Longrightarrow> only_grows (f a) ns) \<Longrightarrow> (\<And>a. x = Inr a \<Longrightarrow> only_grows (g a) ns) \<Longrightarrow>
   only_grows (case x of Inl a \<Rightarrow> f a | Inr a \<Rightarrow> g a) ns"
  by (cases x) simp_all

text \<open>Going on with a result whose computation only grows.\<close>

lemma only_grows_case [growing]:
  assumes "only_grows m ns" "\<And>r s1. grows ns (fst s1) \<Longrightarrow> only_grows (f (r, s1)) ns"
  shows "only_grows (case m of None \<Rightarrow> None | Some x \<Rightarrow> f x) ns"
proof (cases m)
  case (Some x)
  obtain y s1 where x: "x = (y, s1)" by (cases x)
  with assms(1) Some have "grows ns (fst s1)" by (simp add: only_grows_def)
  with Some x assms(2) [of s1 y] show ?thesis by simp
qed (simp add: only_grows_None)

lemma only_grows_bind_case:
  "only_grows m ns \<Longrightarrow> (\<And>r s1. grows ns (fst s1) \<Longrightarrow> only_grows (f (r, s1)) ns) \<Longrightarrow> only_grows (Option.bind m f) ns"
  using only_grows_case [of m ns f] by (cases m) auto

lemma malloc_fst: "do_malloc env s = (a, (ns, w)) \<Longrightarrow> ns = fst s"
  by (auto simp: do_malloc_def split: prod.splits)

lemma only_grows_vfs [growing]: "grows ns (fst s) \<Longrightarrow> only_grows (do_vfs env c s) ns"
  by (simp add: only_grows_def do_vfs_def split: prod.splits)

lemma only_grows_memory [growing]: "grows ns (fst s) \<Longrightarrow> only_grows (need_memory env s) ns"
  by (auto simp: only_grows_def need_memory_def do_malloc_def split: prod.splits option.splits)

lemma grows_enter [growing]: "grows ns (fst s) \<Longrightarrow> grows ns (fst (enter_node a fh st s))"
  by (simp add: enter_node_def grows_trans [OF _ grows_insert])

lemma grows_insert_trans [growing]: "grows ns ns' \<Longrightarrow> grows ns (insert_node a n ns')"
  by (rule grows_trans [OF _ grows_insert])

lemma only_grows_send [growing]: "grows ns (fst s) \<Longrightarrow> only_grows (send_rpc_call env addr prog vers proc p s) ns"
  by (cases s) (auto simp: only_grows_def send_rpc_call_def next_xid_def [symmetric] Let_def bind_eq_Some_conv
      grows_trans [OF _ grows_next_xid] case_prod_beta)

lemma only_grows_proc [growing]:
  assumes "grows ns (fst s)"
  shows "only_grows (nfs_proc env un proc args s) ns"
  unfolding nfs_proc_def nfs_call_def
  by (rule only_grows_bind, rule only_grows_bind_case [OF only_grows_send [OF assms]])
     (auto simp: only_grows_def bind_eq_Some_conv)

lemma only_grows_lookup [growing]: "grows ns (fst s) \<Longrightarrow> only_grows (nfs_lookup env dir name s) ns"
  unfolding nfs_lookup_def by (auto intro!: growing only_grows_bind dest!: malloc_fst)

lemma only_grows_getattr [growing]: "grows ns (fst s) \<Longrightarrow> only_grows (nfs_getattr env fh s) ns"
  unfolding nfs_getattr_def by (auto intro!: growing only_grows_bind dest!: malloc_fst)

lemma only_grows_truncate [growing]: "grows ns (fst s) \<Longrightarrow> only_grows (nfs_truncate_file env fh b s) ns"
  unfolding nfs_truncate_file_def Let_def by (auto intro!: growing only_grows_bind dest!: malloc_fst)

lemma only_grows_entry [growing]: "grows ns (fst s) \<Longrightarrow> only_grows (reply_entry r s) ns"
  unfolding reply_entry_def by (auto intro!: growing only_grows_bind dest!: malloc_fst)

lemma only_grows_cookie [growing]: "grows ns (fst s) \<Longrightarrow> only_grows (open_cookie env om st s) ns"
  unfolding open_cookie_def by (auto intro!: growing only_grows_bind dest!: malloc_fst)

text \<open>The operations.\<close>

lemma only_grows_walk: "only_grows (fs_walk env base name s) (fst s)"
  unfolding fs_walk_def Let_def by (auto intro!: growing only_grows_bind dest!: malloc_fst)

lemma only_grows_rstat: "only_grows (fs_rstat env node s) (fst s)"
  unfolding fs_rstat_def by (auto intro!: growing only_grows_bind dest!: malloc_fst)

lemma only_grows_wstat: "only_grows (fs_wstat env node st m s) (fst s)"
  unfolding fs_wstat_def by (auto intro!: growing only_grows_bind dest!: malloc_fst)

lemma only_grows_rfsstat: "only_grows (fs_rfsstat env s) (fst s)"
  unfolding fs_rfsstat_def Let_def by (auto intro!: growing only_grows_bind dest!: malloc_fst)

lemma only_grows_open: "only_grows (fs_open env node om s) (fst s)"
  unfolding fs_open_def Let_def by (auto intro!: growing only_grows_bind dest!: malloc_fst)

lemma only_grows_create: "only_grows (fs_create env dir name om pe s) (fst s)"
  unfolding fs_create_def Let_def by (auto intro!: growing only_grows_bind dest!: malloc_fst)

lemma only_grows_remove_entry [growing]: "grows ns (fst s) \<Longrightarrow> only_grows (remove_entry al wr pr env dir name s) ns"
  unfolding remove_entry_def by (auto intro!: growing only_grows_bind dest!: malloc_fst)

lemma only_grows_mkdir: "only_grows (fs_mkdir env dir name pe s) (fst s)"
  unfolding fs_mkdir_def Let_def by (auto intro!: growing only_grows_bind dest!: malloc_fst)

lemma only_grows_rename: "only_grows (fs_rename env od on nd nn s) (fst s)"
  unfolding fs_rename_def fs_unlink_def fs_rmdir_def by (auto intro!: growing only_grows_bind dest!: malloc_fst)

lemma only_grows_readlink: "only_grows (fs_readlink env node bs s) (fst s)"
  unfolding fs_readlink_def by (auto intro!: growing only_grows_bind dest!: malloc_fst)

lemma only_grows_symlink_call [growing]:
  assumes "grows ns (fst s)"
  shows "only_grows (symlink_call env dir name call s) ns"
  unfolding symlink_call_def
  by (rule only_grows_bind_case [OF only_grows_send [OF assms]])
    (auto intro!: growing only_grows_bind dest!: malloc_fst)

lemma only_grows_symlink: "only_grows (fs_symlink env dir name tg s) (fst s)"
  unfolding fs_symlink_def Let_def by (auto intro!: growing only_grows_bind dest!: malloc_fst)

lemma only_grows_opendir: "only_grows (fs_opendir env node s) (fst s)"
  unfolding fs_opendir_def by (auto intro!: growing only_grows_bind dest!: malloc_fst)


lemma only_grows_read_chunk [growing]: "grows ns (fst s) \<Longrightarrow> only_grows (fs_read_chunk env node dst mx pos ld s) ns"
  unfolding fs_read_chunk_def Let_def by (auto intro!: growing only_grows_bind)

lemma read_loop_grows:
  assumes "fs_read_loop env c x = Some y" "grows ns (fst (snd (snd (snd x))))"
  shows "grows ns (fst (snd (snd (snd y))))"
proof -
  have "grows ns (fst (snd (snd (snd x)))) \<longrightarrow> grows ns (fst (snd (snd (snd y))))"
  proof (rule fs_read_loop.raw_induct [of "\<lambda>env c x y. grows ns (fst (snd (snd (snd x)))) \<longrightarrow> grows ns (fst (snd (snd (snd y))))"
      "((env, c), x)" y, unfolded prod.case], rule impI)
    fix loop env c x y
    assume IH: "\<And>env c x y. loop env c x = Some y \<Longrightarrow> grows ns (fst (snd (snd (snd x)))) \<longrightarrow> grows ns (fst (snd (snd (snd y))))"
      and body: "(case c of (node, dst, maxlen) \<Rightarrow> case x of (pos, out, cst, s) \<Rightarrow>
          if length out < maxlen then
            Option.bind (fs_read_chunk env node dst maxlen pos (length out) s) (\<lambda>y.
              case y of
                (Inl e, s1) \<Rightarrow> Some (e, out, cst, s1)
              | (Inr (st, Inl e), s1) \<Rightarrow> Some (e, out, st, s1)
              | (Inr (st, Inr bs), s1) \<Rightarrow>
                  (let pos1 = pos + int (length bs) in
                   if pos1 \<ge> st_size st then Some (B_OK, out @ bs, st, s1)
                   else loop env c (pos1, out @ bs, st, s1)))
          else Some (B_OK, out, cst, s)) = Some y"
      and g0: "grows ns (fst (snd (snd (snd x))))"
    obtain node dst mx where c: "c = (node, dst, mx)" by (cases c)
    obtain pos out cst s where x: "x = (pos, out, cst, s)" by (cases x)
    have g: "grows ns (fst s)" using g0 x by simp
    show "grows ns (fst (snd (snd (snd y))))"
    proof (cases "length out < mx")
      case True
      with body c x obtain r s1 where ch: "fs_read_chunk env node dst mx pos (length out) s = Some (r, s1)"
        by (auto simp: bind_eq_Some_conv)
      have g1: "grows ns (fst s1)" using only_grows_read_chunk [OF g, of env node dst mx pos "length out"] ch
        by (simp add: only_grows_def)
      show ?thesis
      proof (cases r)
        case (Inl e)
        with True c x ch body g1 show ?thesis by auto
      next
        case (Inr z)
        obtain st q where z: "z = (st, q)" by (cases z)
        with Inr True c x ch body g1 IH [of env c] show ?thesis
          by (cases q) (fastforce simp: Let_def split: if_splits)+
      qed
    next
      case False
      with body c x g show ?thesis by auto
    qed
  qed (fact assms(1))
  with assms(2) show ?thesis by simp
qed

lemma only_grows_write_call [growing]:
  assumes "grows ns (fst s)"
  shows "only_grows (write_call env call s) ns"
  unfolding write_call_def
  by (rule only_grows_bind_case [OF only_grows_send [OF assms]]) (auto intro!: growing only_grows_bind)

lemma only_grows_write_chunk [growing]: "grows ns (fst s) \<Longrightarrow> only_grows (fs_write_chunk env node src data pos wr s) ns"
  unfolding fs_write_chunk_def Let_def by (auto intro!: growing only_grows_bind)

lemma write_loop_grows:
  "fs_write_loop env node src data pos wr cst s = Some y \<Longrightarrow> grows ns (fst s) \<Longrightarrow> grows ns (fst (snd (snd y)))"
proof (induction env node src data pos wr cst s rule: fs_write_loop.induct)
  case (1 env node src data pos wr cst s)
  show ?case
  proof (cases "wr < length data")
    case True
    with 1(2) obtain r s1 where ch: "fs_write_chunk env node src data pos wr s = Some (r, s1)"
      by (subst (asm) fs_write_loop.simps) (auto split: option.splits)
    have g1: "grows ns (fst s1)" using only_grows_write_chunk [OF 1(3), of env node src data pos wr] ch
      by (simp add: only_grows_def)
    show ?thesis
    proof (cases r)
      case (Inl e)
      with True ch 1(2) g1 show ?thesis by (subst (asm) fs_write_loop.simps) auto
    next
      case (Inr st)
      with True ch 1(2) have "fs_write_loop env node src data pos (wr + min NFS_MAXDATA (length data - wr)) st s1 = Some y"
        by (subst (asm) fs_write_loop.simps) simp
      with 1(1) [OF True, of "(r, s1)"] ch Inr g1 show ?thesis by auto
    qed
  next
    case False
    with 1(2,3) show ?thesis by (subst (asm) fs_write_loop.simps) auto
  qed
qed

lemma readdir_add_grows:
  assumes "fs_readdir_add env node mx v name ck r d s = Some (z, d1, s1)" "grows ns (fst s)"
  shows "grows ns (fst s1)"
proof -
  obtain a s2 where m: "do_malloc env s = (a, s2)" by (cases "do_malloc env s")
  with assms(2) malloc_fst [of env s a "fst s2" "snd s2"] have g2: "grows ns (fst s2)" by simp
  from assms(1) m obtain a' where a': "a = Some a'" by (cases a) (auto simp: fs_readdir_add_def)
  with assms(1) m obtain q s3 where l: "nfs_lookup env (node_fhandle node) name s2 = Some (q, s3)"
    by (cases "nfs_lookup env (node_fhandle node) name s2") (auto simp: fs_readdir_add_def)
  with only_grows_lookup [OF g2, of env "node_fhandle node" name] have g3: "grows ns (fst s3)"
    by (simp add: only_grows_def)
  show ?thesis
  proof (cases q)
    case (Inl e)
    with assms(1) m a' l g3 show ?thesis by (auto simp: fs_readdir_add_def)
  next
    case (Inr x)
    with assms(1) m a' l g3 show ?thesis
      by (cases x) (auto simp: fs_readdir_add_def Let_def intro: grows_insert_trans split: if_splits)
  qed
qed

lemma readdir_entry_grows:
  assumes "fs_readdir_entry env node mx r d s = Some (z, d1, s1)" "grows ns (fst s)"
  shows "grows ns (fst s1)"
  using assms readdir_add_grows [OF _ assms(2), where ?s1.0 = s1]
  by (auto simp: fs_readdir_entry_def Let_def bind_eq_Some_conv simp del: split_paired_All split_paired_Ex split: if_splits)


lemma readdir_entries_grows:
  assumes "fs_readdir_entries env c x = Some y" "grows ns (fst (snd (snd x)))"
  shows "grows ns (fst (snd (snd y)))"
proof -
  have "grows ns (fst (snd (snd x))) \<longrightarrow> grows ns (fst (snd (snd y)))"
  proof (rule fs_readdir_entries.raw_induct [of "\<lambda>env c x y. grows ns (fst (snd (snd x))) \<longrightarrow> grows ns (fst (snd (snd y)))"
      "((env, c), x)" y, unfolded prod.case], rule impI)
    fix loop env c x y
    assume IH: "\<And>env c x y. loop env c x = Some y \<Longrightarrow> grows ns (fst (snd (snd x))) \<longrightarrow> grows ns (fst (snd (snd y)))"
      and body: "(case x of (r, d, s) \<Rightarrow>
        Option.bind (XDRInPacketGetInt32 r) (\<lambda>(more, r1).
          if more = 1 then
            Option.bind (fs_readdir_entry env (fst c) (snd c) r1 d s) (\<lambda>y.
              case y of
                (Inl st, d1, s1) \<Rightarrow> Some (Inl st, d1, s1)
              | (Inr r2, d1, s1) \<Rightarrow> loop env c (r2, d1, s1))
          else Some (Inr r1, d, s))) = Some y"
      and g0: "grows ns (fst (snd (snd x)))"
    obtain r d s where x: "x = (r, d, s)" by (cases x)
    from body x obtain more r1 where i: "XDRInPacketGetInt32 r = Some (more, r1)" by (auto simp: bind_eq_Some_conv)
    show "grows ns (fst (snd (snd y)))"
    proof (cases "more = 1")
      case True
      with body x i obtain z d1 s1 where e: "fs_readdir_entry env (fst c) (snd c) r1 d s = Some (z, d1, s1)"
        by (auto simp: bind_eq_Some_conv)
      with readdir_entry_grows [OF e] g0 x have g1: "grows ns (fst s1)" by simp
      with True body x i e IH [of env c] show ?thesis by (cases z) fastforce+
    next
      case False
      with body x i g0 show ?thesis by auto
    qed
  qed (fact assms(1))
  with assms(2) show ?thesis by simp
qed

lemma readdir_loop_grows:
  assumes "fs_readdir_loop env c x = Some y" "grows ns (fst (snd x))"
  shows "grows ns (fst (snd (snd y)))"
proof -
  have "grows ns (fst (snd x)) \<longrightarrow> grows ns (fst (snd (snd y)))"
  proof (rule fs_readdir_loop.raw_induct [of "\<lambda>env c x y. grows ns (fst (snd x)) \<longrightarrow> grows ns (fst (snd (snd y)))"
      "((env, c), x)" y, unfolded prod.case], rule impI)
    fix loop env c x y
    assume IH: "\<And>env c x y. loop env c x = Some y \<Longrightarrow> grows ns (fst (snd x)) \<longrightarrow> grows ns (fst (snd (snd y)))"
      and body: "(case x of (d, s) \<Rightarrow>
        Option.bind (nfs_proc env B_ERROR NFSPROC_READDIR
            [XFixed (node_fhandle (fst c)), XFixed (df_cookie d), XInt (min 6000 (snd c * 300))] s) (\<lambda>y.
          case y of
            (Inl e, s1) \<Rightarrow> Some (e, d, s1)
          | (Inr r, s1) \<Rightarrow>
              Option.bind (fs_readdir_entries env c (r, d, s1)) (\<lambda>z.
                case z of
                  (Inl st, d1, s2) \<Rightarrow> Some (st, d1, s2)
                | (Inr r1, d1, s2) \<Rightarrow>
                    Option.bind (XDRInPacketGetInt32 r1) (\<lambda>(eof, r2).
                      if eof = 0 then loop env c (d1, s2) else Some (B_OK, d1, s2))))) = Some y"
      and g0: "grows ns (fst (snd x))"
    obtain d s where x: "x = (d, s)" by (cases x)
    with body obtain q s1 where p: "nfs_proc env B_ERROR NFSPROC_READDIR
            [XFixed (node_fhandle (fst c)), XFixed (df_cookie d), XInt (min 6000 (snd c * 300))] s = Some (q, s1)"
      by (auto simp: bind_eq_Some_conv)
    have g1: "grows ns (fst s1)"
      using only_grows_proc [of ns s env B_ERROR NFSPROC_READDIR
        "[XFixed (node_fhandle (fst c)), XFixed (df_cookie d), XInt (min 6000 (snd c * 300))]"] p g0 x
      by (simp add: only_grows_def)
    show "grows ns (fst (snd (snd y)))"
    proof (cases q)
      case (Inl e)
      with body x p g1 show ?thesis by auto
    next
      case (Inr r)
      with body x p obtain z d1 s2 where e: "fs_readdir_entries env c (r, d, s1) = Some (z, d1, s2)"
        by (auto simp: bind_eq_Some_conv)
      with readdir_entries_grows [OF e] g1 have "grows ns (fst s2)" by simp
      with Inr body x p e IH [of env c] show ?thesis
        by (cases z) (fastforce simp: bind_eq_Some_conv split: if_splits)+
    qed
  qed (fact assms(1))
  with assms(2) show ?thesis by simp
qed

section \<open>All operations\<close>

text \<open>The operations of the volume and its nodes, as the VFS calls them.\<close>

datatype nfs_op =
    Op_Walk fs_node "uint8 list" | Op_Rstat fs_node | Op_Wstat fs_node file_stat uint32 | Op_Rfsstat
  | Op_Open fs_node uint32 | Op_Read fs_node "fs_file_cookie option" int "nat \<Rightarrow> caller_memory" nat
  | Op_Write fs_node "fs_file_cookie option" int "nat \<Rightarrow> caller_memory" "uint8 list"
  | Op_Create fs_node "uint8 list" uint32 uint32 | Op_Unlink fs_node "uint8 list" | Op_Rmdir fs_node "uint8 list"
  | Op_Mkdir fs_node "uint8 list" uint32 | Op_Rename fs_node "uint8 list" fs_node "uint8 list"
  | Op_Readlink fs_node nat | Op_Symlink fs_node "uint8 list" "uint8 list" | Op_Opendir fs_node
  | Op_Readdir fs_node nfs_cookie nat uint32 | Op_Remove_Vnode fs_node

primrec do_op :: "'w nfs_env \<Rightarrow> nfs_op \<Rightarrow> 'w vol \<Rightarrow> 'w vol option" where
  "do_op env (Op_Walk base name) s = map_option snd (fs_walk env base name s)"
| "do_op env (Op_Rstat node) s = map_option snd (fs_rstat env node s)"
| "do_op env (Op_Wstat node st m) s = map_option snd (fs_wstat env node st m s)"
| "do_op env Op_Rfsstat s = map_option snd (fs_rfsstat env s)"
| "do_op env (Op_Open node om) s = map_option snd (fs_open env node om s)"
| "do_op env (Op_Read node ck pos dst mx) s = map_option (\<lambda>(st, out, ck, s). s) (fs_read env node ck pos dst mx s)"
| "do_op env (Op_Write node ck pos src data) s = map_option (\<lambda>(st, ck, s). s) (fs_write env node ck pos src data s)"
| "do_op env (Op_Create dir name om pe) s = map_option snd (fs_create env dir name om pe s)"
| "do_op env (Op_Unlink dir name) s = map_option snd (fs_unlink env dir name s)"
| "do_op env (Op_Rmdir dir name) s = map_option snd (fs_rmdir env dir name s)"
| "do_op env (Op_Mkdir dir name pe) s = map_option snd (fs_mkdir env dir name pe s)"
| "do_op env (Op_Rename od on nd nn) s = map_option snd (fs_rename env od on nd nn s)"
| "do_op env (Op_Readlink node bs) s = map_option snd (fs_readlink env node bs s)"
| "do_op env (Op_Symlink dir name tg) s = map_option snd (fs_symlink env dir name tg s)"
| "do_op env (Op_Opendir node) s = map_option snd (fs_opendir env node s)"
| "do_op env (Op_Readdir node ck bs num) s = map_option (\<lambda>(st, en, ck, s). s) (fs_readdir env node ck bs num s)"
| "do_op env (Op_Remove_Vnode node) s = map_option snd (fs_remove_vnode node s)"

primrec do_ops :: "'w nfs_env \<Rightarrow> nfs_op list \<Rightarrow> 'w vol \<Rightarrow> 'w vol option" where
  "do_ops env [] s = Some s"
| "do_ops env (op # ops) s = Option.bind (do_op env op s) (do_ops env ops)"

lemma only_growsD: "only_grows m ns \<Longrightarrow> map_option snd m = Some s' \<Longrightarrow> grows ns (fst s')"
  by (auto simp: only_grows_def)

lemmas ops_grow =
  only_grows_walk only_grows_rstat only_grows_wstat only_grows_rfsstat only_grows_open only_grows_create
  only_grows_mkdir only_grows_rename only_grows_readlink only_grows_symlink only_grows_opendir

lemma do_op_grows:
  assumes "do_op env op s = Some s'" "\<And>node. op \<noteq> Op_Remove_Vnode node"
  shows "grows (fst s) (fst s')"
proof (cases op)
  case (Op_Read node ck pos dst mx)
  with assms(1) show ?thesis
    by (cases ck) (auto simp: fs_read_def dest: read_loop_grows [where ns = "fst s"])
next
  case (Op_Write node ck pos src data)
  with assms(1) show ?thesis
    by (cases ck) (auto simp: fs_write_def Let_def dest: write_loop_grows [where ns = "fst s"])
next
  case (Op_Readdir node ck bs num)
  with assms(1) show ?thesis by (auto simp: fs_readdir_def dest: readdir_loop_grows [where ns = "fst s"])
next
  case (Op_Unlink dir name)
  with assms(1) only_growsD [OF only_grows_remove_entry [OF grows_refl]] show ?thesis by (simp add: fs_unlink_def)
next
  case (Op_Rmdir dir name)
  with assms(1) only_growsD [OF only_grows_remove_entry [OF grows_refl]] show ?thesis by (simp add: fs_rmdir_def)
qed (use assms in \<open>auto intro: only_growsD [OF ops_grow(1)] only_growsD [OF ops_grow(2)] only_growsD [OF ops_grow(3)]
  only_growsD [OF ops_grow(4)] only_growsD [OF ops_grow(5)] only_growsD [OF ops_grow(6)] only_growsD [OF ops_grow(7)]
  only_growsD [OF ops_grow(8)] only_growsD [OF ops_grow(9)] only_growsD [OF ops_grow(10)] only_growsD [OF ops_grow(11)]
  simp del: map_option_eq_Some\<close>)

lemma grows_known: "grows ns ns' \<Longrightarrow> known ns v = Some x \<Longrightarrow> known ns' v = Some x"
  unfolding grows_def map_le_def by (metis domI)

text \<open>One operation: what it leaves of the table.\<close>

lemma do_op_keeps:
  assumes "do_op env op s = Some s'"
  shows "same_settings (fst s) (fst s') \<and> (table_ok (fst s) \<longrightarrow> table_ok (fst s') \<and>
    (\<forall>v x. known (fst s) v = Some x \<and> (\<forall>node. op = Op_Remove_Vnode node \<longrightarrow> node_vnid node \<noteq> v) \<longrightarrow>
      known (fst s') v = Some x))"
proof (cases "\<exists>node. op = Op_Remove_Vnode node")
  case True
  then obtain node where op: "op = Op_Remove_Vnode node" by blast
  with assms have s': "s' = (remove_node (node_vnid node) (fst s), snd s)" by (auto simp: fs_remove_vnode_def)
  have "same_settings (fst s) (fst s')" by (simp add: s' same_settings_def remove_node_def)
  with op s' show ?thesis by (auto simp: remove_table_ok remove_known)
next
  case False
  with do_op_grows [OF assms] have "grows (fst s) (fst s')" by blast
  then have "\<forall>v x. known (fst s) v = Some x \<longrightarrow> known (fst s') v = Some x" using grows_known by blast
  with \<open>grows (fst s) (fst s')\<close> show ?thesis unfolding grows_def by blast
qed

text \<open>
  C9: whatever the server and the VFS answer, every sequence of operations leaves the settings of the
  volume alone and keeps the node numbers of the table distinct, and a node the VFS has not asked to
  remove stays known under its number, with its handle: the pointers the VFS holds stay valid.
\<close>

theorem nfs_nodes_stay_known:
  assumes "table_ok ns" "do_ops env ops (ns, w) = Some (ns', w')"
  shows "same_settings ns ns' \<and> table_ok ns' \<and>
    (\<forall>v a n. known ns v = Some (a, n) \<and> (\<forall>node. Op_Remove_Vnode node \<in> set ops \<longrightarrow> node_vnid node \<noteq> v) \<longrightarrow>
      known ns' v = Some (a, n) \<and> handle_from_vnid ns' v = Some (node_fhandle n))"
  using assms
proof (induction ops arbitrary: ns w)
  case Nil
  then show ?case by (auto simp: same_settings_def handle_from_vnid_def known_def)
next
  case (Cons op ops)
  then obtain s1 where s1: "do_op env op (ns, w) = Some s1" "do_ops env ops s1 = Some (ns', w')"
    by (auto simp: bind_eq_Some_conv)
  obtain ns1 w1 where p: "s1 = (ns1, w1)" by (cases s1)
  from do_op_keeps [OF s1(1)] Cons.prems(1) p have k: "same_settings ns ns1" "table_ok ns1"
    "\<forall>v x. known ns v = Some x \<and> (\<forall>node. op = Op_Remove_Vnode node \<longrightarrow> node_vnid node \<noteq> v) \<longrightarrow> known ns1 v = Some x"
    by simp_all
  from Cons.IH [OF k(2)] s1(2) p k(1,3) show ?case by (simp add: same_settings_def)
qed


lemma sample_table_ok: "table_ok sample_ns"
  by (simp add: sample_ns_def table_ok_def)

theorem nfs_nodes_stay_known_witness:
  "\<exists>ns' w'. do_ops (sample_env (\<lambda>a b w. (None, w))) [Op_Walk \<lparr>node_mode = 0, node_vnid = 5, node_fhandle = [7]\<rparr> [46],
     Op_Remove_Vnode \<lparr>node_mode = 0, node_vnid = 6, node_fhandle = [8]\<rparr>] (sample_ns, ()) = Some (ns', w') \<and>
   handle_from_vnid ns' 5 = Some [7]"
proof -
  let ?ops = "[Op_Walk \<lparr>node_mode = 0, node_vnid = 5, node_fhandle = [7]\<rparr> [46],
     Op_Remove_Vnode \<lparr>node_mode = 0, node_vnid = 6, node_fhandle = [8]\<rparr>]"
  have r: "do_ops (sample_env (\<lambda>a b w. (None, w))) ?ops (sample_ns, ()) = Some (sample_ns, ())"
    by (simp add: fs_walk_def fs_remove_vnode_def do_vfs_def sample_env_def sample_ns_def remove_node_def)
  have "known sample_ns 5 = Some (1, \<lparr>node_mode = 0x4000, node_vnid = 5, node_fhandle = [7]\<rparr>)"
    by (simp add: known_def sample_ns_def)
  with nfs_nodes_stay_known [OF sample_table_ok r] r show ?thesis by fastforce
qed

section \<open>Reading from a server\<close>

text \<open>
  The server answers every \<^verbatim>\<open>READ\<close> of the handle from \<open>content\<close>, with attributes \<open>a\<close>, whatever the
  transaction id of the call and the state of the world.
\<close>

definition read_items :: "fattr \<times> uint8 list \<Rightarrow> xdr_item list" where
  "read_items r = attr_items (fst r) @ [XDynamic (snd r)]"

definition reads_file :: "'w nfs_env \<Rightarrow> fs_nspace \<Rightarrow> nfs_fhandle \<Rightarrow> fattr \<Rightarrow> uint8 list \<Rightarrow> bool" where
  "reads_file env ns fh a content \<longleftrightarrow>
     (\<forall>x w pos cnt. \<exists>w'. serves env (ns\<lparr>ns_xid := x\<rparr>) NFSPROC_READ [XFixed fh, XInt pos, XInt cnt, XInt 0] read_items
       (Served (a, take (unat cnt) (drop (unat pos) content))) w w')"

definition at_xid :: "fs_nspace \<Rightarrow> uint32 \<Rightarrow> fs_nspace" where
  "at_xid ns x = ns\<lparr>ns_xid := x\<rparr>"

lemma at_xid_next [simp]: "next_xid (at_xid ns x) = at_xid ns (x + 1)"
  by (simp add: next_xid_def at_xid_def)

lemma at_xid_ok [simp]: "client_ok env (at_xid ns x) = client_ok env ns"
  by (simp add: client_ok_def server_ok_def at_xid_def)

lemma at_xid_id: "at_xid ns (ns_xid ns) = ns"
  by (simp add: at_xid_def)

lemma unat_pos: "0 \<le> pos \<Longrightarrow> pos < 2 ^ 32 \<Longrightarrow> unat (word_of_int pos :: uint32) = nat pos"
  by (simp add: unsigned_of_int take_bit_int_eq_self)

lemma read_chunk_serves:
  assumes "client_ok env ns" "reads_file env ns (node_fhandle node) a content" "dst ld \<noteq> User_Address False"
    "0 \<le> pos" "pos < 2 ^ 32" "ld < mx"
  shows "\<exists>w'. fs_read_chunk env node dst mx pos ld (at_xid ns x, w) =
    Some (Inr (stat_of a, Inr (take (min NFS_MAXDATA (mx - ld)) (drop (nat pos) content))), (at_xid ns (x + 1), w'))"
proof -
  let ?n = "min NFS_MAXDATA (mx - ld)"
  let ?bs = "take ?n (drop (nat pos) content)"
  let ?args = "[XFixed (node_fhandle node), XInt (word_of_int pos), XInt (of_nat ?n), XInt 0]"
  have n: "unat (of_nat ?n :: uint32) = ?n" by (rule unat_small) simp
  obtain w' where "serves env (at_xid ns x) NFSPROC_READ ?args read_items
       (Served (a, take (unat (of_nat ?n :: uint32)) (drop (unat (word_of_int pos :: uint32)) content))) w w'"
    using assms(2) unfolding reads_file_def at_xid_def by blast
  then have s: "serves env (at_xid ns x) NFSPROC_READ ?args read_items (Served (a, ?bs)) w w'"
    using n unat_pos [OF assms(4,5)] by simp
  obtain pre rest where p: "nfs_proc env B_ERROR NFSPROC_READ ?args (at_xid ns x, w) =
      Some (Inr (rd pre (read_items (a, ?bs) @ rest)), (at_xid ns (x + 1), w'))"
    using nfs_proc_serves [OF _ _ s, of B_ERROR] assms(1) by auto
  have "length ?bs < 2 ^ 31" "ld + length ?bs \<le> mx" using assms(6) by auto
  then show ?thesis using p assms(3)
    by (simp add: fs_read_chunk_def Let_def read_items_def get_nfs_attr_rd)
qed

lemma read_loop_serves:
  assumes "client_ok env ns" "reads_file env ns (node_fhandle node) a content" "\<forall>n. dst n \<noteq> User_Address False"
    "fa_size a = of_nat (length content)" "length content < 2 ^ 31"
  shows "0 \<le> pos \<Longrightarrow> pos < 2 ^ 32 \<Longrightarrow>
    \<exists>x' w'. fs_read_loop env (node, dst, mx) (pos, out, cst, (at_xid ns x, w)) =
      Some (B_OK, out @ take (mx - length out) (drop (nat pos) content),
        if length out < mx then stat_of a else cst, (at_xid ns x', w'))"
proof (induction "mx - length out" arbitrary: pos out cst x w rule: less_induct)
  case less
  have sz: "st_size (stat_of a) = int (length content)" using assms(4,5) by (simp add: stat_of_def sint_small)
  show ?case
  proof (cases "length out < mx")
    case False
    then show ?thesis by (subst fs_read_loop.simps) auto
  next
    case True
    let ?n = "min NFS_MAXDATA (mx - length out)"
    define bs where "bs = take ?n (drop (nat pos) content)"
    obtain w' where ch: "fs_read_chunk env node dst mx pos (length out) (at_xid ns x, w) =
        Some (Inr (stat_of a, Inr bs), (at_xid ns (x + 1), w'))"
      using read_chunk_serves [OF assms(1,2) _ less.prems True, of dst] assms(3) unfolding bs_def by blast
    show ?thesis
    proof (cases "pos + int (length bs) \<ge> int (length content)")
      case end_reached: True
      have "take (mx - length out) (drop (nat pos) content) = bs"
      proof -
        have "length (drop (nat pos) content) \<le> ?n"
        proof (rule ccontr)
          assume "\<not> length (drop (nat pos) content) \<le> ?n"
          then have "length bs = ?n" "nat pos + ?n < length content" unfolding bs_def by auto
          with end_reached less.prems(1) show False by linarith
        qed
        then show ?thesis unfolding bs_def by simp
      qed
      with True ch end_reached sz show ?thesis by (subst fs_read_loop.simps) (auto simp: Let_def)
    next
      case more: False
      have lb: "length bs = ?n" using more less.prems unfolding bs_def by auto
      have p1: "0 \<le> pos + int (length bs)" "pos + int (length bs) < 2 ^ 32" using more less.prems(1) assms(5) by auto
      have dec: "mx - length (out @ bs) < mx - length out" using True lb by auto
      obtain x' w'' where r: "fs_read_loop env (node, dst, mx) (pos + int (length bs), out @ bs, stat_of a, (at_xid ns (x + 1), w')) =
          Some (B_OK, (out @ bs) @ take (mx - length (out @ bs)) (drop (nat (pos + int (length bs))) content),
            if length (out @ bs) < mx then stat_of a else stat_of a, (at_xid ns x', w''))"
        using less.hyps [OF dec p1, of "stat_of a" "x + 1" w'] by auto
      have "bs @ take (mx - length (out @ bs)) (drop (nat (pos + int (length bs))) content) =
          take (mx - length out) (drop (nat pos) content)"
      proof -
        have "mx - length out = ?n + (mx - length (out @ bs))" using True lb by auto
        moreover have "nat (pos + int (length bs)) = nat pos + ?n" using less.prems(1) lb by auto
        moreover have "take (?n + (mx - length (out @ bs))) (drop (nat pos) content) =
            bs @ take (mx - length (out @ bs)) (drop ?n (drop (nat pos) content))"
          unfolding bs_def by (rule take_add)
        ultimately show ?thesis by (simp only: drop_drop add.commute [of ?n "nat pos"])
      qed
      note rest = this
      have "\<not> st_size (stat_of a) \<le> pos + int (length bs)" using more sz by simp
      with True ch have "fs_read_loop env (node, dst, mx) (pos, out, cst, (at_xid ns x, w)) =
          fs_read_loop env (node, dst, mx) (pos + int (length bs), out @ bs, stat_of a, (at_xid ns (x + 1), w'))"
        by (subst fs_read_loop.simps) (simp add: Let_def)
      with r rest True show ?thesis by auto
    qed
  qed
qed

text \<open>
  C3: reading a file of less than \<open>2^31\<close> bytes at a position below \<open>2^32\<close>, from a server that
  answers every \<^verbatim>\<open>READ\<close> from the file's contents, returns: the caller gets exactly the bytes of the
  file from the position on, as many as its buffer holds or the file has, in rounds of 1024, and the
  cookie the server's attributes. The nodes and settings are as before.
\<close>

theorem fs_read_exact:
  assumes "client_ok env ns" "reads_file env ns (node_fhandle node) a content" "\<forall>n. dst n \<noteq> User_Address False"
    "fa_size a = of_nat (length content)" "length content < 2 ^ 31" "0 \<le> pos" "pos < 2 ^ 32" "0 < mx"
  shows "\<exists>x w'. fs_read env node (Some ck) pos dst mx (ns, w) =
    Some (B_OK, take mx (drop (nat pos) content), Some (ck\<lparr>ck_st := stat_of a\<rparr>), (ns\<lparr>ns_xid := x\<rparr>, w'))"
  using read_loop_serves [OF assms(1-7), of mx "[]" "ck_st ck" "ns_xid ns" w] assms(8)
  by (auto simp: fs_read_def at_xid_id) (auto simp: at_xid_def)


text \<open>A server with one file, which finds the position and count at the end of the call.\<close>

definition sample_reader :: "fattr \<Rightarrow> uint8 list \<Rightarrow> sockaddr_in \<Rightarrow> uint8 list \<Rightarrow> 'w \<Rightarrow> uint8 list option \<times> 'w" where
  "sample_reader a content addr b w =
     (let pos = from_be32 (take 4 (drop (length b - 12) b)); cnt = from_be32 (take 4 (drop (length b - 8) b))
      in (Some (reply_bytes 0 (Accepted 0 [] 0 (XInt 0 # read_items (a, take (unat cnt) (drop (unat pos) content))))), w))"

lemma sample_reader_reads: "reads_file (sample_env (sample_reader a content)) ns fh a content"
proof -
  have k: "\<exists>w'. serves (sample_env (sample_reader a content)) (at_xid ns x) NFSPROC_READ [XFixed fh, XInt pos, XInt cnt, XInt 0]
      read_items (Served (a, take (unat cnt) (drop (unat pos) content))) w w'" for x w pos cnt
  proof -
    obtain pre where b: "call_bytes (at_xid ns x) NFS_PROGRAM 2 NFSPROC_READ [XFixed fh, XInt pos, XInt cnt, XInt 0] =
        pre @ be32 pos @ be32 cnt @ be32 0" by (simp add: call_bytes_def)
    have "sample_reader a content (ns_nfsAddr ns) (pre @ be32 pos @ be32 cnt @ be32 0) w =
        (Some (reply_bytes 0 (Accepted 0 [] 0 (XInt 0 # read_items (a, take (unat cnt) (drop (unat pos) content)) @ []))), w)"
      by (simp add: sample_reader_def Let_def from_be32_be32)
    moreover have "answers read_items (Served (a, take (unat cnt) (drop (unat pos) content)))
        (Some (reply_bytes 0 (Accepted 0 [] 0 (XInt 0 # read_items (a, take (unat cnt) (drop (unat pos) content)) @ []))))"
      by (metis answers.simps(4) list.size(3) zero_le)
    ultimately show ?thesis unfolding serves_def b by (auto simp: sample_env_def at_xid_def)
  qed
  show ?thesis unfolding reads_file_def by (intro allI) (rule k [unfolded at_xid_def])
qed

definition sample_attr :: "uint32 \<Rightarrow> fattr" where
  "sample_attr sz = \<lparr>fa_type = 1, fa_mode = 0x81A4, fa_nlink = 1, fa_uid = 0, fa_gid = 0, fa_size = sz, fa_blocksize = 512,
     fa_rdev = 0, fa_blocks = 1, fa_fsid = 1, fa_fileid = 6, fa_atime = (0, 0), fa_mtime = (0, 0), fa_ctime = (0, 0)\<rparr>"

theorem fs_read_exact_witness:
  "\<exists>ck x w'. fs_read (sample_env (sample_reader (sample_attr 5) [1, 2, 3, 4, 5]))
      \<lparr>node_mode = 0x81A4, node_vnid = 6, node_fhandle = replicate 32 8\<rparr> (Some ck) 2 (\<lambda>n. Kernel_Address) 2 (sample_ns, ()) =
    Some (B_OK, [3, 4], Some (ck\<lparr>ck_st := stat_of (sample_attr 5)\<rparr>), (sample_ns\<lparr>ns_xid := x\<rparr>, w'))"
proof -
  have sz: "fa_size (sample_attr 5) = of_nat (length [1, 2, 3, 4, 5 :: uint8])" by (simp add: sample_attr_def)
  obtain x w' where r: "fs_read (sample_env (sample_reader (sample_attr 5) [1, 2, 3, 4, 5]))
      \<lparr>node_mode = 0x81A4, node_vnid = 6, node_fhandle = replicate 32 8\<rparr>
      (Some \<lparr>ck_omode = 0, ck_original_size = 5, ck_st = stat_of (sample_attr 0)\<rparr>) 2 (\<lambda>n. Kernel_Address) 2 (sample_ns, ()) =
    Some (B_OK, take 2 (drop (nat 2) [1, 2, 3, 4, 5]),
      Some (\<lparr>ck_omode = 0, ck_original_size = 5, ck_st = stat_of (sample_attr 0)\<rparr>\<lparr>ck_st := stat_of (sample_attr 5)\<rparr>),
      (sample_ns\<lparr>ns_xid := x\<rparr>, w'))"
    using fs_read_exact [OF sample_ok sample_reader_reads _ sz, of "\<lambda>n. Kernel_Address" 2 2
        "\<lparr>node_mode = 0x81A4, node_vnid = 6, node_fhandle = replicate 32 8\<rparr>"
        "\<lparr>ck_omode = 0, ck_original_size = 5, ck_st = stat_of (sample_attr 0)\<rparr>" "()"] by fastforce
  moreover have "take 2 (drop (nat 2) [1, 2, 3, 4, 5 :: uint8]) = [3, 4]" by code_simp
  ultimately show ?thesis by metis
qed

text \<open>
  A server that reports a size of \<open>2^31\<close> bytes or more: the size is read as a negative number, and the
  read ends after its first round however much the caller asked for.
\<close>

lemma fs_read_large_file:
  assumes "client_ok env ns" "reads_file env ns (node_fhandle node) a content" "\<forall>n. dst n \<noteq> User_Address False"
    "sint (fa_size a) < 0" "0 \<le> pos" "pos < 2 ^ 32" "0 < mx"
  shows "\<exists>x w'. fs_read env node (Some ck) pos dst mx (ns, w) =
    Some (B_OK, take (min NFS_MAXDATA mx) (drop (nat pos) content), Some (ck\<lparr>ck_st := stat_of a\<rparr>), (ns\<lparr>ns_xid := x\<rparr>, w'))"
proof -
  have dst0: "dst 0 \<noteq> User_Address False" using assms(3) by blast
  obtain w' where ch: "fs_read_chunk env node dst mx pos 0 (at_xid ns (ns_xid ns), w) =
      Some (Inr (stat_of a, Inr (take (min NFS_MAXDATA (mx - 0)) (drop (nat pos) content))), (at_xid ns (ns_xid ns + 1), w'))"
    using read_chunk_serves [of env ns node a content dst 0 pos mx "ns_xid ns" w] assms dst0 by blast
  have "st_size (stat_of a) < 0" using assms(4) by (simp add: stat_of_def)
  with ch assms(5,7) show ?thesis unfolding at_xid_id
    by (subst fs_read_def, subst fs_read_loop.simps) (auto simp: Let_def at_xid_def)
qed

text \<open>A server that claims more bytes but sends none is asked for them without end.\<close>

lemma fs_read_stuck:
  assumes "\<And>s. \<exists>s1. fs_read_chunk env node dst mx pos 0 s = Some (Inr (st, Inr []), s1)" "pos < st_size st" "0 < mx"
  shows "fs_read env node (Some ck) pos dst mx s = None"
proof -
  have "\<not> (c = (node, dst, mx) \<and> (\<exists>cst s. x = (pos, [], cst, s)))" if "fs_read_loop env c x = Some y" for c x y
  proof -
    have "env' = env \<longrightarrow> \<not> (c = (node, dst, mx) \<and> (\<exists>cst s. x = (pos, [], cst, s)))" if "fs_read_loop env' c x = Some y" for env'
    proof (rule fs_read_loop.raw_induct [of "\<lambda>env' c x y. env' = env \<longrightarrow> \<not> (c = (node, dst, mx) \<and> (\<exists>cst s. x = (pos, [], cst, s)))"
          "((env', c), x)" y, unfolded prod.case], intro impI notI)
      fix loop env' c x y
      assume IH: "\<And>env' c x y. loop env' c x = Some y \<Longrightarrow> env' = env \<longrightarrow> \<not> (c = (node, dst, mx) \<and> (\<exists>cst s. x = (pos, [], cst, s)))"
        and body: "(case c of (node, dst, maxlen) \<Rightarrow> case x of (pos, out, cst, s) \<Rightarrow>
        if length out < maxlen then
          Option.bind (fs_read_chunk env' node dst maxlen pos (length out) s) (\<lambda>y.
            case y of
              (Inl e, s1) \<Rightarrow> Some (e, out, cst, s1)
            | (Inr (st, Inl e), s1) \<Rightarrow> Some (e, out, st, s1)
            | (Inr (st, Inr bs), s1) \<Rightarrow>
                (let pos1 = pos + int (length bs) in
                 if pos1 \<ge> st_size st then Some (B_OK, out @ bs, st, s1)
                 else loop env' c (pos1, out @ bs, st, s1)))
        else Some (B_OK, out, cst, s)) = Some y"
        and e: "env' = env" and cx: "c = (node, dst, mx) \<and> (\<exists>cst s. x = (pos, [], cst, s))"
      from cx obtain cst s where x: "x = (pos, [], cst, s)" by blast
      from assms(1) obtain s1 where "fs_read_chunk env node dst mx pos 0 s = Some (Inr (st, Inr []), s1)" by blast
      with body e cx x assms(2,3) have "loop env (node, dst, mx) (pos, [], st, s1) = Some y" by (simp add: Let_def)
      from IH [OF this] show False by simp
    qed (fact that)
    with that show ?thesis by blast
  qed
  then have "fs_read_loop env (node, dst, mx) (pos, [], ck_st ck, s) = None"
    by (cases "fs_read_loop env (node, dst, mx) (pos, [], ck_st ck, s)") blast+
  then show ?thesis by (simp add: fs_read_def)
qed


section \<open>Writing to a server\<close>

text \<open>A file after a write of \<open>bs\<close> at a position; a gap before it reads as zeros.\<close>

definition splice :: "uint8 list \<Rightarrow> nat \<Rightarrow> uint8 list \<Rightarrow> uint8 list" where
  "splice c pos bs = take pos (c @ replicate (pos - length c) 0) @ bs @ drop (pos + length bs) c"

lemma splice_splice: "splice (splice c pos bs) (pos + length bs) ds = splice c pos (bs @ ds)"
proof -
  have "length (take pos (c @ replicate (pos - length c) 0)) = pos" by simp
  then show ?thesis by (simp add: splice_def ac_simps)
qed

text \<open>
  The server applies every \<^verbatim>\<open>WRITE\<close> of the handle to the file it keeps in the world, and answers with
  some attributes.
\<close>

definition writes_file :: "'w nfs_env \<Rightarrow> fs_nspace \<Rightarrow> nfs_fhandle \<Rightarrow> ('w \<Rightarrow> uint8 list) \<Rightarrow> bool" where
  "writes_file env ns fh held \<longleftrightarrow>
     (\<forall>x w pos bs. length bs \<le> NFS_MAXDATA \<longrightarrow>
       (\<exists>w' a. serves env (ns\<lparr>ns_xid := x\<rparr>) NFSPROC_WRITE [XFixed fh, XInt 0, XInt pos, XInt 0, XDynamic bs] attr_items
          (Served a) w w' \<and> held w' = splice (held w) (unat pos) bs))"

lemma write_chunk_serves:
  assumes "client_ok env ns" "writes_file env ns (node_fhandle node) held" "src wr \<noteq> User_Address False"
    "0 \<le> pos" "pos + int wr < 2 ^ 32"
  shows "\<exists>w' a. fs_write_chunk env node src data pos wr (at_xid ns x, w) = Some (Inr (stat_of a), (at_xid ns (x + 1), w')) \<and>
    held w' = splice (held w) (nat pos + wr) (take (min NFS_MAXDATA (length data - wr)) (drop wr data))"
proof -
  define bs where "bs = take (min NFS_MAXDATA (length data - wr)) (drop wr data)"
  let ?head = "[XFixed (node_fhandle node), XInt 0, XInt (word_of_int (pos + int wr)), XInt 0]"
  have ok: "\<forall>n. alloc_ok env n" "server_ok (at_xid ns x)"
    using assms(1) by (simp_all add: client_ok_def server_ok_def at_xid_def)
  have "length bs \<le> NFS_MAXDATA" by (simp add: bs_def)
  then obtain w' a where s: "serves env (at_xid ns x) NFSPROC_WRITE (?head @ [XDynamic bs]) attr_items (Served a) w w'"
    "held w' = splice (held w) (unat (word_of_int (pos + int wr) :: uint32)) bs"
    using assms(2) unfolding writes_file_def at_xid_def by fastforce
  then obtain reply where
    e: "exchange env (ns_nfsAddr (at_xid ns x)) (call_bytes (at_xid ns x) NFS_PROGRAM 2 NFSPROC_WRITE (?head @ [XDynamic bs])) w =
      (reply, w')" "answers attr_items (Served a) reply" unfolding serves_def by blast
  obtain p where p: "add_items (alloc_ok env) (XDROutPacketInit (\<lambda>i. 0)) ?head = Some p" "xo_ok p" "xo_bytes p = encode ?head"
    using add_items_ok [OF ok(1) conjunct1 [OF init_ok], of ?head "\<lambda>i. 0"] by (auto simp: init_ok)
  obtain q where q: "XDROutPacketAddDynamic (alloc_ok env) p (src wr) bs = Some (q, B_OK)"
    "xo_bytes q = encode (?head @ [XDynamic bs])"
    using add_dynamic_ok [OF ok(1) p(2) assms(3), of bs] p(3) by (auto simp: padded_def)
  have "exchange env (ns_nfsAddr (at_xid ns x))
      (encode (rpc_header (at_xid ns x) (ns_xid (at_xid ns x)) NFS_PROGRAM 2 NFSPROC_WRITE) @ xo_bytes q) w = (reply, w')"
    using e(1) q(2) by (simp only: call_bytes_def)
  from send_rpc_call_bytes [OF ok this] have
    c: "send_rpc_call env (ns_nfsAddr (at_xid ns x)) NFS_PROGRAM 2 NFSPROC_WRITE q (at_xid ns x, w) =
      Some (reply, (at_xid ns (x + 1), w'))" by simp
  obtain pre rest where "nfs_results B_ERROR reply = Some (Inr (rd pre (attr_items a @ rest)))"
    using nfs_results_answer [OF e(2), of B_ERROR] by auto
  with c have "write_call env q (at_xid ns x, w) = Some (Inr (stat_of a), (at_xid ns (x + 1), w'))"
    by (simp add: write_call_def get_nfs_attr_rd)
  with p(1) q(1) have "fs_write_chunk env node src data pos wr (at_xid ns x, w) = Some (Inr (stat_of a), (at_xid ns (x + 1), w'))"
    by (simp add: fs_write_chunk_def bs_def Let_def del: add_items.simps)
  moreover have "unat (word_of_int (pos + int wr) :: uint32) = nat pos + wr"
    using assms(4,5) by (subst unat_pos) auto
  ultimately show ?thesis using s(2) bs_def by auto
qed

lemma write_loop_serves:
  assumes "client_ok env ns" "writes_file env ns (node_fhandle node) held" "\<forall>n. src n \<noteq> User_Address False"
    "0 \<le> pos" "pos + int (length data) \<le> 2 ^ 32"
  shows "wr \<le> length data \<Longrightarrow> \<exists>cst' x' w'. fs_write_loop env node src data pos wr cst (at_xid ns x, w) =
      Some (B_OK, cst', (at_xid ns x', w')) \<and>
    (wr < length data \<longrightarrow> held w' = splice (held w) (nat pos + wr) (drop wr data)) \<and> (wr = length data \<longrightarrow> w' = w)"
proof (induction "length data - wr" arbitrary: wr cst x w rule: less_induct)
  case less
  show ?case
  proof (cases "wr < length data")
    case False
    with less.prems show ?thesis by (subst fs_write_loop.simps) auto
  next
    case True
    let ?n = "min NFS_MAXDATA (length data - wr)"
    have "pos + int wr < 2 ^ 32" using True assms(5) by linarith
    from write_chunk_serves [of env ns node held src wr pos data x w] assms(1-4) this obtain w1 a where
      ch: "fs_write_chunk env node src data pos wr (at_xid ns x, w) = Some (Inr (stat_of a), (at_xid ns (x + 1), w1))"
      "held w1 = splice (held w) (nat pos + wr) (take ?n (drop wr data))" by blast
    have dec: "length data - (wr + ?n) < length data - wr" and le: "wr + ?n \<le> length data" using True by auto
    obtain cst' x' w' where r: "fs_write_loop env node src data pos (wr + ?n) (stat_of a) (at_xid ns (x + 1), w1) =
        Some (B_OK, cst', (at_xid ns x', w'))"
      "wr + ?n < length data \<longrightarrow> held w' = splice (held w1) (nat pos + (wr + ?n)) (drop (wr + ?n) data)"
      "wr + ?n = length data \<longrightarrow> w' = w1"
      using less.hyps [OF dec le, of "stat_of a" "x + 1" w1] by blast
    have n: "length (take ?n (drop wr data)) = ?n" by simp
    have "held w' = splice (held w) (nat pos + wr) (drop wr data)"
    proof (cases "wr + ?n < length data")
      case t: True
      with r(2) ch(2) splice_splice [of "held w" "nat pos + wr" "take ?n (drop wr data)" "drop (wr + ?n) data"] n
      have "held w' = splice (held w) (nat pos + wr) (take ?n (drop wr data) @ drop (wr + ?n) data)"
        by (simp only: add.assoc)
      moreover have "take ?n (drop wr data) @ drop (wr + ?n) data = drop wr data"
        by (metis append_take_drop_id drop_drop add.commute)
      ultimately show ?thesis by simp
    next
      case f: False
      then have "?n = length data - wr" using le by linarith
      with r(3) ch(2) le f show ?thesis by simp
    qed
    with True ch(1) r(1) show ?thesis by (subst fs_write_loop.simps) auto
  qed
qed

text \<open>
  C5: writing bytes at a position that ends within \<open>2^32\<close>, to a server that applies every
  \<^verbatim>\<open>WRITE\<close>, succeeds after enough rounds of 1024, and the server's file then holds exactly those bytes
  at the position and is otherwise as before. A file opened for appending is written at the position plus its
  size when it was opened.
\<close>

theorem fs_write_exact:
  assumes "client_ok env ns" "writes_file env ns (node_fhandle node) held" "\<forall>n. src n \<noteq> User_Address False"
    "start = (if ck_omode ck AND O_APPEND \<noteq> 0 then pos + ck_original_size ck else pos)"
    "0 \<le> start" "start + int (length data) \<le> 2 ^ 32" "data \<noteq> []"
  shows "\<exists>ck' x w'. fs_write env node (Some ck) pos src data (ns, w) = Some (B_OK, Some ck', (ns\<lparr>ns_xid := x\<rparr>, w')) \<and>
    ck'\<lparr>ck_st := ck_st ck\<rparr> = ck \<and> held w' = splice (held w) (nat start) data"
proof -
  obtain cst' x' w' where "fs_write_loop env node src data start 0 (ck_st ck) (at_xid ns (ns_xid ns), w) =
      Some (B_OK, cst', (at_xid ns x', w'))" "held w' = splice (held w) (nat start) data"
    using write_loop_serves [OF assms(1-3,5,6), of 0 "ck_st ck" "ns_xid ns" w] assms(7) by auto
  then show ?thesis
    by (intro exI [of _ "ck\<lparr>ck_st := cst'\<rparr>"] exI [of _ x'] exI [of _ w'])
      (simp add: fs_write_def Let_def assms(4) [symmetric] at_xid_id, simp add: at_xid_def)
qed


text \<open>A server whose world is one file: it reads the call with an XDR reader.\<close>

definition write_kinds :: "nat \<Rightarrow> xdr_kind list" where
  "write_kinds n = [KInt, KInt, KInt, KInt, KInt, KInt, KInt, KDynamic, KInt, KDynamic, KFixed n, KInt, KInt, KInt, KDynamic]"

definition sample_writer :: "nat \<Rightarrow> sockaddr_in \<Rightarrow> uint8 list \<Rightarrow> uint8 list \<Rightarrow> uint8 list option \<times> uint8 list" where
  "sample_writer n addr b c =
     (case get_items (write_kinds n) (XDRInPacketSetTo XDRInPacketInit b 0) of
        Some ([i1, i2, i3, i4, i5, i6, i7, i8, i9, i10, fh, i11, XInt pos, i12, XDynamic bs], r) \<Rightarrow>
          (Some (reply_bytes 0 (Accepted 0 [] 0 (XInt 0 # attr_items (sample_attr 0)))), splice c (unat pos) bs)
      | _ \<Rightarrow> (None, c))"

lemma sample_writer_writes:
  assumes "server_ok ns"
  shows "writes_file (sample_env (sample_writer (length fh))) ns fh (\<lambda>c. c)"
proof -
  have k: "\<exists>w' a. serves (sample_env (sample_writer (length fh))) (at_xid ns x) NFSPROC_WRITE
      [XFixed fh, XInt 0, XInt pos, XInt 0, XDynamic bs] attr_items (Served a) w w' \<and> w' = splice w (unat pos) bs"
    if "length bs \<le> NFS_MAXDATA" for x w pos and bs :: "uint8 list"
  proof -
    let ?args = "[XFixed fh, XInt 0, XInt pos, XInt 0, XDynamic bs]"
    let ?all = "call_header (at_xid ns x) NFS_PROGRAM 2 NFSPROC_WRITE @ ?args"
    have b: "call_bytes (at_xid ns x) NFS_PROGRAM 2 NFSPROC_WRITE ?args = encode ?all"
      by (simp only: call_bytes_def header_encodes encode_simps)
    have "length (ns_server ns) < 2 ^ 31 - 32" using assms by (simp add: server_ok_def)
    then have "length (credential (at_xid ns x)) < 2 ^ 31" by (simp add: credential_def rounded_def at_xid_def)
    then have v: "list_all readable_item ?all" using that by (simp add: call_header_def)
    have "reading (XDRInPacketSetTo XDRInPacketInit (encode ?all) 0) (encode ?all) 0"
      by (simp add: reading_def XDRInPacketSetTo_def)
    then obtain r where "get_items (map kind_of ?all) (XDRInPacketSetTo XDRInPacketInit (encode ?all) 0) = Some (?all, r)"
      using xdr.gets_enc [OF v, of _ "[]" "[]"] by (auto simp: get_items_gets encode_def)
    moreover have "map kind_of ?all = write_kinds (length fh)" by (simp add: call_header_def write_kinds_def)
    ultimately have g: "get_items (write_kinds (length fh)) (XDRInPacketSetTo XDRInPacketInit (encode ?all) 0) = Some (?all, r)"
      by (simp only:)
    have "sample_writer (length fh) (ns_nfsAddr ns) (encode ?all) w =
        (Some (reply_bytes 0 (Accepted 0 [] 0 (XInt 0 # attr_items (sample_attr 0) @ []))), splice w (unat pos) bs)"
      unfolding sample_writer_def g option.case prod.case by (simp add: call_header_def)
    moreover have "answers attr_items (Served (sample_attr 0))
        (Some (reply_bytes 0 (Accepted 0 [] 0 (XInt 0 # attr_items (sample_attr 0) @ []))))"
      by (metis answers.simps(4) list.size(3) zero_le)
    moreover have "exchange (sample_env (sample_writer (length fh))) (ns_nfsAddr (at_xid ns x)) (encode ?all) w =
        sample_writer (length fh) (ns_nfsAddr ns) (encode ?all) w"
      by (simp only: sample_env_def nfs_env.select_convs) (simp add: at_xid_def)
    ultimately have "serves (sample_env (sample_writer (length fh))) (at_xid ns x) NFSPROC_WRITE ?args attr_items
        (Served (sample_attr 0)) w (splice w (unat pos) bs)" unfolding serves_def b by metis
    then show ?thesis by blast
  qed
  show ?thesis unfolding writes_file_def by (intro allI impI) (rule k [unfolded at_xid_def])
qed

theorem fs_write_exact_witness:
  "\<exists>ck ck' x w'. fs_write (sample_env (sample_writer 3)) \<lparr>node_mode = 0, node_vnid = 6, node_fhandle = [1, 2, 3]\<rparr>
      (Some ck) 1 (\<lambda>n. Kernel_Address) [8, 9] (sample_ns, [4, 5, 6, 7]) =
    Some (B_OK, Some ck', (sample_ns\<lparr>ns_xid := x\<rparr>, w')) \<and> w' = [4, 8, 9, 7]"
proof -
  let ?ck = "\<lparr>ck_omode = 0, ck_original_size = 4, ck_st = stat_of (sample_attr 4)\<rparr>"
  have c: "client_ok (sample_env (sample_writer 3)) sample_ns" by (rule sample_ok)
  have w: "writes_file (sample_env (sample_writer 3)) sample_ns
      (node_fhandle \<lparr>node_mode = 0, node_vnid = 6, node_fhandle = [1, 2, 3]\<rparr>) (\<lambda>c. c)"
  proof -
    have "length [1, 2, 3 :: uint8] = 3" by simp
    with sample_writer_writes [of sample_ns "[1, 2, 3]"] c show ?thesis by (simp only: client_ok_def fs_node.select_convs)
  qed
  have s: "splice [4, 5, 6, 7] (nat 1) [8, 9] = [4, 8, 9, 7]" by code_simp
  obtain ck' x w' where
    "fs_write (sample_env (sample_writer 3)) \<lparr>node_mode = 0, node_vnid = 6, node_fhandle = [1, 2, 3]\<rparr>
      (Some ?ck) 1 (\<lambda>n. Kernel_Address) [8, 9] (sample_ns, [4, 5, 6, 7]) =
    Some (B_OK, Some ck', (sample_ns\<lparr>ns_xid := x\<rparr>, w'))" "w' = splice [4, 5, 6, 7] (nat 1) [8, 9]"
    using fs_write_exact [OF c w, of "\<lambda>n. Kernel_Address" 1 ?ck 1 "[8, 9]" "[4, 5, 6, 7]"] by fastforce
  with s show ?thesis by metis
qed

section \<open>Consequences for the callers\<close>

text \<open>Asked for an unknown node, the volume answers with its semaphore still held.\<close>

lemma fs_read_vnode_keeps_semaphore: "known ns vnid = None \<Longrightarrow> fs_read_vnode ns vnid False = (Inl EINVAL, True)"
  by (simp add: fs_read_vnode_def known_def)

text \<open>A node inserted under a known number is freed: its address is not in the table afterwards.\<close>

lemma insert_node_frees:
  "known ns (node_vnid n) = Some x \<Longrightarrow> a \<notin> fst ` set (ns_nodes ns) \<Longrightarrow> a \<notin> fst ` set (ns_nodes (insert_node a n ns))"
  by (simp add: known_def insert_node_def)

text \<open>A link of more than 1024 bytes is copied past the end of the local buffer.\<close>

lemma fs_readlink_overflow:
  assumes "nfs_proc env EHOSTUNREACH NFSPROC_READLINK [XFixed (node_fhandle node)] s = Some (Inr (rd pre (XDynamic bs # rest)), s1)"
    "1024 < length bs" "length bs < 2 ^ 31"
  shows "fs_readlink env node bufsize s = None"
  using assms by (simp add: fs_readlink_def)

end
