(* ===== verification/RpcClient.thy ===== *)
theory RpcClient
  imports PendingCalls Xdr
begin

text \<open>
  The threads of the NFS client, \<^verbatim>\<open>send_rpc_call\<close> and \<^verbatim>\<open>postoffice_func\<close> of
  \<^verbatim>\<open>src/add-ons/kernel/file_systems/nfs/nfs_add_on.c\<close>: any number of threads that wait for a reply and
  the post office that receives datagrams and wakes them. A thread is known by the address of its pending
  call. Every step is a section of the code that runs under one lock or touches one shared word, with the
  accesses to the thread's own memory around it; they interleave freely. A thread that stays in its retransmission loop makes no step; it leaves the
  loop with the semaphore or, at any moment, by its last time-out.
\<close>

section \<open>The state\<close>

text \<open>
  Where a thread with a call is: before the call is in the list, in the loop of \<^verbatim>\<open>acquire_sem_etc\<close>, after
  it with the semaphore or without it, and after the removal of its call that followed a time-out, with
  whether the call was found. Threads that have only drawn a transaction id for an address have no call
  yet; they are in the list \<open>rs_drawn\<close>.
\<close>

datatype phase = Armed | Sent | Got | Late | Clean bool

text \<open>The post office: receiving, with a call it removed and the datagram for it, with the buffer stored; or using freed memory.\<close>

datatype post = Receiving | Delivering nat "uint8 list" | Stored nat | Fault

record rpc_system =
  rs_calls :: pending_calls
  rs_sems :: "sem_id \<Rightarrow> nat option"
  rs_xid :: uint32
  rs_drawn :: "(uint32 \<times> sockaddr_in) list"
  rs_senders :: "nat \<Rightarrow> (phase \<times> uint32 \<times> sockaddr_in) option"
  rs_post :: post
  rs_received :: "(sockaddr_in \<times> uint8 list) list"
  rs_returned :: "(uint32 \<times> sockaddr_in \<times> uint8 list option) list"

text \<open>The transaction id in a datagram.\<close>

definition reply_xid :: "uint8 list \<Rightarrow> uint32" where
  "reply_xid b = from_be32 (take 4 b)"

definition rpc_start :: rpc_system where
  "rpc_start = \<lparr>rs_calls = RPCPendingCallsInit Map.empty, rs_sems = Map.empty, rs_xid = 0, rs_drawn = [],
     rs_senders = Map.empty,
     rs_post = Receiving, rs_received = [], rs_returned = []\<rparr>"

section \<open>The sections of the code\<close>

text \<open>A thread draws its transaction id, with \<^verbatim>\<open>atomic_add\<close>.\<close>

definition draw_xid :: "sockaddr_in \<Rightarrow> rpc_system \<Rightarrow> rpc_system" where
  "draw_xid addr s = s\<lparr>rs_xid := rs_xid s + 1, rs_drawn := (rs_xid s, addr) # rs_drawn s\<rparr>"

text \<open>Its call gets memory and a semaphore, from the pool or \<open>new\<close> with count zero, under the lock of the pool.\<close>

definition arm_call :: "nat \<Rightarrow> sem_id \<Rightarrow> uint32 \<Rightarrow> sockaddr_in \<Rightarrow> rpc_system \<Rightarrow> rpc_system option" where
  "arm_call c new x a s =
     (if (x, a) \<in> set (rs_drawn s) then
        map_option (\<lambda>calls1.
          s\<lparr>rs_calls := calls1, rs_drawn := remove1 (x, a) (rs_drawn s), rs_senders := (rs_senders s)(c \<mapsto> (Armed, x, a)),
            rs_sems := (if fPoolCount (fCallPool (rs_calls s)) = 0 then (rs_sems s)(new \<mapsto> 0) else rs_sems s)\<rparr>)
          (take_call c new (rs_calls s) x a)
      else None)"

text \<open>It enters its call in the list, under the lock of the list.\<close>

definition enter_call :: "nat \<Rightarrow> rpc_system \<Rightarrow> rpc_system option" where
  "enter_call c s =
     (case rs_senders s c of
        Some (Armed, x, a) \<Rightarrow>
          Some (s\<lparr>rs_calls := link_call c (rs_calls s), rs_senders := (rs_senders s)(c \<mapsto> (Sent, x, a))\<rparr>)
      | _ \<Rightarrow> None)"

text \<open>The thread's call, through its own pointer.\<close>

definition own_call :: "rpc_system \<Rightarrow> nat \<Rightarrow> pending_call option" where
  "own_call s c = calls (rs_calls s) c"

definition acquire_call :: "nat \<Rightarrow> rpc_system \<Rightarrow> rpc_system option" where
  "acquire_call c s =
     (case (rs_senders s c, own_call s c) of
        (Some (Sent, x, a), Some k) \<Rightarrow>
          (case rs_sems s (call_sem k) of
             Some (Suc n) \<Rightarrow>
               Some (s\<lparr>rs_sems := (rs_sems s)(call_sem k \<mapsto> n), rs_senders := (rs_senders s)(c \<mapsto> (Got, x, a))\<rparr>)
           | _ \<Rightarrow> None)
      | _ \<Rightarrow> None)"

definition free_call :: "nat \<Rightarrow> pending_calls \<Rightarrow> pending_calls" where
  "free_call c p = p\<lparr>calls := (calls p)(c := None)\<rparr>"

text \<open>The thread that was woken gives its semaphore back, frees its call and returns the buffer.\<close>

definition finish_call :: "nat \<Rightarrow> rpc_system \<Rightarrow> rpc_system option" where
  "finish_call c s =
     (case (rs_senders s c, own_call s c) of
        (Some (Got, x, a), Some k) \<Rightarrow>
          map_option (\<lambda>pool. s\<lparr>rs_calls := free_call c ((rs_calls s)\<lparr>fCallPool := pool\<rparr>),
              rs_senders := (rs_senders s)(c := None), rs_returned := (x, a, call_buffer k) # rs_returned s\<rparr>)
            (SemaphorePoolPut True (\<lambda>i. 0) (fCallPool (rs_calls s)) (call_sem k))
      | _ \<Rightarrow> None)"

definition time_out :: "nat \<Rightarrow> rpc_system \<Rightarrow> rpc_system option" where
  "time_out c s =
     (case rs_senders s c of
        Some (Sent, x, a) \<Rightarrow> Some (s\<lparr>rs_senders := (rs_senders s)(c \<mapsto> (Late, x, a))\<rparr>)
      | _ \<Rightarrow> None)"

text \<open>After the time-out: looking for a call by transaction id and address.\<close>

definition withdraw_call :: "bool \<Rightarrow> nat \<Rightarrow> rpc_system \<Rightarrow> rpc_system option" where
  "withdraw_call conf c s =
     (case rs_senders s c of
        Some (Late, x, a) \<Rightarrow>
          map_option (\<lambda>(found, calls1).
            s\<lparr>rs_calls := calls1, rs_senders := (rs_senders s)(c \<mapsto> (Clean (found \<noteq> None), x, a))\<rparr>)
            (RPCPendingCallsFindAndRemovePendingCall conf (rs_calls s) x a)
      | _ \<Rightarrow> None)"

text \<open>A call that was found has an unused semaphore; that of a call that was not is deleted.\<close>

definition clean_call :: "nat \<Rightarrow> rpc_system \<Rightarrow> rpc_system option" where
  "clean_call c s =
     (case (rs_senders s c, own_call s c) of
        (Some (Clean found, x, a), Some k) \<Rightarrow>
          (if found then
             map_option (\<lambda>pool. s\<lparr>rs_calls := free_call c ((rs_calls s)\<lparr>fCallPool := pool\<rparr>),
                 rs_senders := (rs_senders s)(c := None), rs_returned := (x, a, None) # rs_returned s\<rparr>)
               (SemaphorePoolPut True (\<lambda>i. 0) (fCallPool (rs_calls s)) (call_sem k))
           else
             Some (s\<lparr>rs_calls := free_call c (rs_calls s), rs_sems := (rs_sems s)(call_sem k := None),
                 rs_senders := (rs_senders s)(c := None), rs_returned := (x, a, None) # rs_returned s\<rparr>))
      | _ \<Rightarrow> None)"

text \<open>The post office removes the call a datagram answers, if there is one; short datagrams are dropped.\<close>

definition receive :: "bool \<Rightarrow> sockaddr_in \<Rightarrow> uint8 list \<Rightarrow> rpc_system \<Rightarrow> rpc_system option" where
  "receive conf from_addr b s =
     (if rs_post s = Receiving then
        (if length b < 4 then Some s
         else
           map_option (\<lambda>(found, calls1).
             s\<lparr>rs_calls := calls1, rs_received := (from_addr, b) # rs_received s,
               rs_post := (case found of None \<Rightarrow> Receiving | Some c \<Rightarrow> Delivering c b)\<rparr>)
             (RPCPendingCallsFindAndRemovePendingCall conf (rs_calls s) (reply_xid b) from_addr))
      else None)"

text \<open>It stores a copy of the datagram in the call, and then releases the call's semaphore.\<close>

definition store_reply :: "rpc_system \<Rightarrow> rpc_system option" where
  "store_reply s =
     (case rs_post s of
        Delivering c b \<Rightarrow>
          (case own_call s c of
             None \<Rightarrow> Some (s\<lparr>rs_post := Fault\<rparr>)
           | Some k \<Rightarrow> Some (s\<lparr>rs_post := Stored c,
               rs_calls := (rs_calls s)\<lparr>calls := (calls (rs_calls s))(c \<mapsto> k\<lparr>call_buffer := Some b\<rparr>)\<rparr>\<rparr>))
      | _ \<Rightarrow> None)"

definition wake_sender :: "rpc_system \<Rightarrow> rpc_system option" where
  "wake_sender s =
     (case rs_post s of
        Stored c \<Rightarrow>
          (case own_call s c of
             None \<Rightarrow> Some (s\<lparr>rs_post := Fault\<rparr>)
           | Some k \<Rightarrow> Some (s\<lparr>rs_post := Receiving,
               rs_sems := (case rs_sems s (call_sem k) of None \<Rightarrow> rs_sems s | Some n \<Rightarrow> (rs_sems s)(call_sem k \<mapsto> n + 1))\<rparr>))
      | _ \<Rightarrow> None)"

section \<open>Interleavings\<close>

text \<open>The call the post office works on.\<close>

definition post_call :: "rpc_system \<Rightarrow> nat option" where
  "post_call s = (case rs_post s of Delivering c b \<Rightarrow> Some c | Stored c \<Rightarrow> Some c | _ \<Rightarrow> None)"

text \<open>
  A step of some thread. A new call gets memory and a semaphore that are not in use, and a transaction id
  no other thread has, which takes fewer than \<open>2^32\<close> calls at a time. Memory is available. With \<open>careful\<close> only those runs
  are considered in which no thread withdraws a call at the moment the post office is delivering to it.
\<close>

inductive rpc_step :: "bool \<Rightarrow> bool \<Rightarrow> rpc_system \<Rightarrow> rpc_system \<Rightarrow> bool" for conf careful where
  draw: "(\<And>c' ph x a. rs_senders s c' = Some (ph, x, a) \<Longrightarrow> x \<noteq> rs_xid s) \<Longrightarrow>
    (\<And>x a. (x, a) \<in> set (rs_drawn s) \<Longrightarrow> x \<noteq> rs_xid s) \<Longrightarrow> rpc_step conf careful s (draw_xid addr s)"
| arm: "arm_call c new x a s = Some s' \<Longrightarrow> own_call s c = None \<Longrightarrow> rs_sems s new = None \<Longrightarrow> rpc_step conf careful s s'"
| enter: "enter_call c s = Some s' \<Longrightarrow> rpc_step conf careful s s'"
| acquire: "acquire_call c s = Some s' \<Longrightarrow> rpc_step conf careful s s'"
| finish: "finish_call c s = Some s' \<Longrightarrow> rpc_step conf careful s s'"
| late: "time_out c s = Some s' \<Longrightarrow> rpc_step conf careful s s'"
| withdraw: "withdraw_call conf c s = Some s' \<Longrightarrow> (careful \<Longrightarrow> post_call s \<noteq> Some c) \<Longrightarrow> rpc_step conf careful s s'"
| clean: "clean_call c s = Some s' \<Longrightarrow> rpc_step conf careful s s'"
| receive: "receive conf from_addr b s = Some s' \<Longrightarrow> rpc_step conf careful s s'"
| store_reply: "store_reply s = Some s' \<Longrightarrow> rpc_step conf careful s s'"
| wake: "wake_sender s = Some s' \<Longrightarrow> rpc_step conf careful s s'"

inductive rpc_reach :: "bool \<Rightarrow> bool \<Rightarrow> rpc_system \<Rightarrow> bool" for conf careful where
  init: "rpc_reach conf careful rpc_start"
| step: "rpc_reach conf careful s \<Longrightarrow> rpc_step conf careful s s' \<Longrightarrow> rpc_reach conf careful s'"

section \<open>The invariant\<close>

text \<open>A datagram that was received and answers a call with this transaction id to this address.\<close>

definition answers_call :: "bool \<Rightarrow> (sockaddr_in \<times> uint8 list) list \<Rightarrow> uint32 \<Rightarrow> sockaddr_in \<Rightarrow> uint8 list \<Rightarrow> bool" where
  "answers_call conf received x a b \<longleftrightarrow> (\<exists>from_addr. (from_addr, b) \<in> set received \<and> reply_xid b = x \<and> (conf \<or> from_addr = a))"

lemma answers_mono: "answers_call conf rec x a b \<Longrightarrow> set rec \<subseteq> set rec' \<Longrightarrow> answers_call conf rec' x a b"
  by (auto simp: answers_call_def)

text \<open>What the post office has to do with a call.\<close>

datatype view = Not_Mine | Has "uint8 list" | Full

definition view :: "rpc_system \<Rightarrow> nat \<Rightarrow> view" where
  "view s c = (case rs_post s of Delivering c' b \<Rightarrow> if c' = c then Has b else Not_Mine
     | Stored c' \<Rightarrow> if c' = c then Full else Not_Mine | _ \<Rightarrow> Not_Mine)"

text \<open>The call of a thread, by the thread's phase, whether it is in the list, and the count of its semaphore.\<close>

fun call_ok :: "(uint8 list \<Rightarrow> bool) \<Rightarrow> phase \<Rightarrow> bool \<Rightarrow> view \<Rightarrow> nat option \<Rightarrow> uint8 list option \<Rightarrow> bool" where
  "call_ok good Armed listed v n buf = (\<not> listed \<and> v = Not_Mine \<and> n = Some 0)"
| "call_ok good Got listed v n buf = (\<not> listed \<and> v = Not_Mine \<and> n = Some 0 \<and> (\<exists>b. buf = Some b \<and> good b))"
| "call_ok good (Clean found) listed v n buf = (\<not> listed \<and> v = Not_Mine \<and> n \<noteq> None \<and> (found \<longrightarrow> n = Some 0))"
| "call_ok good ph listed v n buf =
     (if listed then v = Not_Mine \<and> n = Some 0
      else (case v of Has b \<Rightarrow> n = Some 0 \<and> good b | Full \<Rightarrow> n = Some 0 \<and> (\<exists>b. buf = Some b \<and> good b)
        | Not_Mine \<Rightarrow> n = Some 1 \<and> (\<exists>b. buf = Some b \<and> good b)))"

text \<open>The call of a thread without its link in the list.\<close>

definition own :: "rpc_system \<Rightarrow> nat \<Rightarrow> pending_call option" where
  "own s c = unlinked (own_call s c)"

abbreviation pool_sems :: "rpc_system \<Rightarrow> sem_id list" where
  "pool_sems s \<equiv> pooled (fCallPool (rs_calls s))"

definition sender_ok :: "bool \<Rightarrow> rpc_system \<Rightarrow> nat list \<Rightarrow> nat \<Rightarrow> phase \<times> uint32 \<times> sockaddr_in \<Rightarrow> bool" where
  "sender_ok conf s xs c e = (case e of (ph, x, a) \<Rightarrow>
     (\<exists>k. own s c = Some k \<and> call_xid k = x \<and> call_addr k = a \<and> call_sem k \<notin> set (pool_sems s) \<and>
       call_ok (answers_call conf (rs_received s) x a) ph (c \<in> set xs) (view s c) (rs_sems s (call_sem k)) (call_buffer k)))"

definition apart :: "rpc_system \<Rightarrow> bool" where
  "apart s \<longleftrightarrow> (\<forall>c c' k k'. rs_senders s c \<noteq> None \<and> rs_senders s c' \<noteq> None \<and> c \<noteq> c' \<and> own s c = Some k \<and> own s c' = Some k' \<longrightarrow>
     call_sem k \<noteq> call_sem k' \<and> call_xid k \<noteq> call_xid k')"

definition rpc_inv :: "bool \<Rightarrow> rpc_system \<Rightarrow> nat list \<Rightarrow> bool" where
  "rpc_inv conf s xs \<longleftrightarrow>
     waiting (rs_calls s) xs \<and> pool_ok (fCallPool (rs_calls s)) \<and> distinct (pool_sems s) \<and>
     (\<forall>sem \<in> set (pool_sems s). rs_sems s sem = Some 0) \<and>
     (\<forall>c e. rs_senders s c = Some e \<longrightarrow> sender_ok conf s xs c e) \<and>
     (\<forall>c \<in> set xs. rs_senders s c \<noteq> None) \<and>
     (\<forall>c. post_call s = Some c \<longrightarrow> rs_senders s c \<noteq> None) \<and>
     apart s \<and> rs_post s \<noteq> Fault \<and>
     (\<forall>(x, a, r) \<in> set (rs_returned s). \<forall>b. r = Some b \<longrightarrow> answers_call conf (rs_received s) x a b)"

lemma call_ok_mono: "call_ok good ph l v n buf \<Longrightarrow> (\<And>b. good b \<Longrightarrow> good' b) \<Longrightarrow> call_ok good' ph l v n buf"
  by (cases ph) (auto split: view.splits if_splits)

text \<open>What a step does not touch stays as it is.\<close>

lemma sender_ok_frame:
  assumes "sender_ok conf s xs c e" "own s' c = own s c" "c \<in> set xs' \<longleftrightarrow> c \<in> set xs" "view s' c = view s c"
    "\<And>k. own s c = Some k \<Longrightarrow> rs_sems s' (call_sem k) = rs_sems s (call_sem k)"
    "\<And>k. own s c = Some k \<Longrightarrow> call_sem k \<notin> set (pool_sems s) \<Longrightarrow> call_sem k \<notin> set (pool_sems s')"
    "set (rs_received s) \<subseteq> set (rs_received s')"
  shows "sender_ok conf s' xs' c e"
proof -
  obtain ph x a where e: "e = (ph, x, a)" by (cases e)
  with assms(1) obtain k where k: "own s c = Some k" "call_xid k = x" "call_addr k = a" "call_sem k \<notin> set (pool_sems s)"
    "call_ok (answers_call conf (rs_received s) x a) ph (c \<in> set xs) (view s c) (rs_sems s (call_sem k)) (call_buffer k)"
    by (auto simp: sender_ok_def)
  have "call_ok (answers_call conf (rs_received s') x a) ph (c \<in> set xs) (view s c) (rs_sems s (call_sem k)) (call_buffer k)"
    by (rule call_ok_mono [OF k(5)]) (rule answers_mono [OF _ assms(7)])
  with e k assms(2-6) show ?thesis by (auto simp: sender_ok_def)
qed

lemma rpc_invI:
  assumes "waiting (rs_calls s) xs" "pool_ok (fCallPool (rs_calls s))" "distinct (pool_sems s)"
    "\<And>sem. sem \<in> set (pool_sems s) \<Longrightarrow> rs_sems s sem = Some 0"
    "\<And>c ph x a. rs_senders s c = Some (ph, x, a) \<Longrightarrow> sender_ok conf s xs c (ph, x, a)"
    "\<And>c. c \<in> set xs \<Longrightarrow> rs_senders s c \<noteq> None" "\<And>c. post_call s = Some c \<Longrightarrow> rs_senders s c \<noteq> None"
    "apart s" "rs_post s \<noteq> Fault"
    "\<And>x a b. (x, a, Some b) \<in> set (rs_returned s) \<Longrightarrow> answers_call conf (rs_received s) x a b"
  shows "rpc_inv conf s xs"
  unfolding rpc_inv_def using assms by (intro conjI ballI allI impI) (auto simp del: not_None_eq)

lemma rpc_invD:
  assumes "rpc_inv conf s xs"
  shows "waiting (rs_calls s) xs" "pool_ok (fCallPool (rs_calls s))" "distinct (pool_sems s)"
    "\<And>sem. sem \<in> set (pool_sems s) \<Longrightarrow> rs_sems s sem = Some 0"
    "\<And>c e. rs_senders s c = Some e \<Longrightarrow> sender_ok conf s xs c e"
    "\<And>c. c \<in> set xs \<Longrightarrow> rs_senders s c \<noteq> None" "\<And>c. post_call s = Some c \<Longrightarrow> rs_senders s c \<noteq> None"
    "apart s" "rs_post s \<noteq> Fault"
    "\<And>x a b. (x, a, Some b) \<in> set (rs_returned s) \<Longrightarrow> answers_call conf (rs_received s) x a b"
  using assms unfolding rpc_inv_def by blast+

lemma inv_init: "rpc_inv conf rpc_start []"
  using waiting_init [of Map.empty] pool_init
  by (simp add: rpc_inv_def rpc_start_def RPCPendingCallsInit_def apart_def post_call_def)

lemma own_call_own: "own_call s c = Some k \<Longrightarrow> own s c = Some (k\<lparr>next_call := None\<rparr>)"
  by (simp add: own_def unlinked_def)

text \<open>Two calls of threads are apart if the step changed neither.\<close>

lemma apartI:
  assumes "apart s" "\<And>c'. rs_senders s' c' \<noteq> None \<Longrightarrow> rs_senders s c' \<noteq> None"
    "\<And>c' k'. own s' c' = Some k' \<Longrightarrow> rs_senders s' c' \<noteq> None \<Longrightarrow> \<exists>k. own s c' = Some k \<and> call_sem k' = call_sem k \<and> call_xid k' = call_xid k"
  shows "apart s'"
  unfolding apart_def
proof (intro allI impI, elim conjE)
  fix c c' k k' assume a: "rs_senders s' c \<noteq> None" "rs_senders s' c' \<noteq> None" "c \<noteq> c'" "own s' c = Some k" "own s' c' = Some k'"
  from assms(3) [OF a(4,1)] assms(3) [OF a(5,2)] obtain l l' where
    "own s c = Some l" "call_sem k = call_sem l" "call_xid k = call_xid l"
    "own s c' = Some l'" "call_sem k' = call_sem l'" "call_xid k' = call_xid l'" by blast
  with assms(1) assms(2) [OF a(1)] assms(2) [OF a(2)] a(3) show "call_sem k \<noteq> call_sem k' \<and> call_xid k \<noteq> call_xid k'"
    unfolding apart_def by metis
qed

text \<open>The thread's own time-out.\<close>

lemma time_out_inv:
  assumes inv: "rpc_inv conf s xs" and step: "time_out c s = Some s'"
  shows "rpc_inv conf s' xs"
proof -
  note d = rpc_invD [OF inv]
  from step obtain x a where e: "rs_senders s c = Some (Sent, x, a)" and
    s': "s' = s\<lparr>rs_senders := (rs_senders s)(c \<mapsto> (Late, x, a))\<rparr>"
    by (auto simp: time_out_def split: option.splits prod.splits phase.splits)
  have same: "own s' = own s" "view s' = view s" "post_call s' = post_call s"
    by (simp_all add: s' own_def own_call_def view_def post_call_def fun_eq_iff)
  show ?thesis
  proof (rule rpc_invI)
    fix c' ph x' a' assume c': "rs_senders s' c' = Some (ph, x', a')"
    show "sender_ok conf s' xs c' (ph, x', a')"
    proof (cases "c' = c")
      case True
      with c' d(5) [OF e] same show ?thesis by (auto simp: s' sender_ok_def)
    next
      case False
      with c' have "rs_senders s c' = Some (ph, x', a')" by (simp add: s')
      from d(5) [OF this] show ?thesis by (rule sender_ok_frame) (simp_all add: same, simp_all add: s')
    qed
  next
    show "apart s'" by (rule apartI [OF d(8)]) (use same e in \<open>auto simp: s' split: if_splits\<close>)
  qed (use d(1-4) d(6) d(7) d(9) d(10) same in \<open>auto simp: s' simp del: not_None_eq\<close>)
qed


lemma apart_sem:
  "apart s \<Longrightarrow> rs_senders s c = Some e \<Longrightarrow> rs_senders s c' = Some e' \<Longrightarrow> c' \<noteq> c \<Longrightarrow> own s c = Some k \<Longrightarrow> own s c' = Some k' \<Longrightarrow>
   call_sem k' \<noteq> call_sem k \<and> call_xid k' \<noteq> call_xid k"
  unfolding apart_def by blast

lemma own_callD: "own_call s c = Some k \<Longrightarrow> \<exists>l. own s c = Some l \<and> call_sem l = call_sem k \<and> call_xid l = call_xid k \<and>
    call_addr l = call_addr k \<and> call_buffer l = call_buffer k"
  by (simp add: own_def unlinked_def)

lemma ownD: "own s c = Some l \<Longrightarrow> \<exists>k. own_call s c = Some k \<and> call_sem k = call_sem l \<and> call_xid k = call_xid l \<and>
    call_addr k = call_addr l \<and> call_buffer k = call_buffer l"
  by (auto simp: own_def unlinked_def)

lemma call_ok_sem: "call_ok good ph l v n buf \<Longrightarrow> n \<noteq> None"
  by (cases ph) (auto split: if_splits view.splits)

lemma acquire_inv:
  assumes inv: "rpc_inv conf s xs" and step: "acquire_call c s = Some s'"
  shows "rpc_inv conf s' xs"
proof -
  note d = rpc_invD [OF inv]
  from step obtain x a k n where e: "rs_senders s c = Some (Sent, x, a)" and k: "own_call s c = Some k"
    and n: "rs_sems s (call_sem k) = Some (Suc n)" and
    s': "s' = s\<lparr>rs_sems := (rs_sems s)(call_sem k \<mapsto> n), rs_senders := (rs_senders s)(c \<mapsto> (Got, x, a))\<rparr>"
    by (auto simp: acquire_call_def split: option.splits prod.splits phase.splits nat.splits)
  from own_callD [OF k] obtain l where l: "own s c = Some l" "call_sem l = call_sem k" by blast
  have same: "own s' = own s" "view s' = view s" "post_call s' = post_call s"
    by (simp_all add: s' own_def own_call_def view_def post_call_def fun_eq_iff)
  have ok: "call_ok (answers_call conf (rs_received s) x a) Sent (c \<in> set xs) (view s c) (Some (Suc n)) (call_buffer l)"
    "call_xid l = x" "call_addr l = a" "call_sem l \<notin> set (pool_sems s)"
    using d(5) [OF e] l n by (auto simp: sender_ok_def simp del: call_ok.simps)
  then have n0: "n = 0" "call_ok (answers_call conf (rs_received s) x a) Got (c \<in> set xs) (view s c) (Some 0) (call_buffer l)"
    by (auto split: if_splits view.splits)
  show ?thesis
  proof (rule rpc_invI)
    fix c' ph x' a' assume c': "rs_senders s' c' = Some (ph, x', a')"
    show "sender_ok conf s' xs c' (ph, x', a')"
    proof (cases "c' = c")
      case True
      with c' l ok n0 same show ?thesis by (auto simp: s' sender_ok_def)
    next
      case False
      with c' have c'': "rs_senders s c' = Some (ph, x', a')" by (simp add: s')
      from d(5) [OF this] show ?thesis
        by (rule sender_ok_frame) (use apart_sem [OF d(8) e c'' False l(1)] l(2) in \<open>auto simp: same, auto simp: s'\<close>)
    qed
  next
    fix sem assume "sem \<in> set (pool_sems s')"
    with d(4) ok(4) l(2) show "rs_sems s' sem = Some 0" by (auto simp: s')
  next
    show "apart s'" by (rule apartI [OF d(8)]) (use same e in \<open>auto simp: s' split: if_splits\<close>)
  qed (use d(1-3) d(6) d(7) d(9) d(10) same in \<open>auto simp: s' simp del: not_None_eq\<close>)
qed

text \<open>Giving the semaphore of a call back and freeing the call.\<close>

lemma waiting_free: "waiting p xs \<Longrightarrow> c \<notin> set xs \<Longrightarrow> waiting (free_call c p) xs"
  by (auto simp: waiting_def free_call_def path_link_other)

lemma waiting_pool: "waiting (p\<lparr>fCallPool := q\<rparr>) xs = waiting p xs"
  by (simp add: waiting_def)

lemma return_sem_inv:
  assumes inv: "rpc_inv conf s xs" and e: "rs_senders s c = Some (ph, x, a)" and l: "own s c = Some l" "call_sem l = sem"
    and c: "c \<notin> set xs" "view s c = Not_Mine" "rs_sems s sem = Some 0" "sem \<notin> set (pool_sems s)"
    and p: "SemaphorePoolPut True (\<lambda>i. 0) (fCallPool (rs_calls s)) sem = Some pool"
    and r: "\<And>b. r = Some b \<Longrightarrow> answers_call conf (rs_received s) x a b"
    and s': "s' = s\<lparr>rs_calls := free_call c ((rs_calls s)\<lparr>fCallPool := pool\<rparr>),
              rs_senders := (rs_senders s)(c := None), rs_returned := (x, a, r) # rs_returned s\<rparr>"
  shows "rpc_inv conf s' xs"
proof -
  note d = rpc_invD [OF inv]
  from pool_put [OF d(2), of "\<lambda>i. 0" sem] p have pool: "pool_ok pool" "pooled pool = pool_sems s @ [sem]" by auto
  have ow: "own s' c' = own s c'" if "c' \<noteq> c" for c' using that by (simp add: s' own_def own_call_def free_call_def)
  have same: "view s' = view s" "post_call s' = post_call s" by (simp_all add: s' view_def post_call_def fun_eq_iff)
  have ps: "pool_sems s' = pool_sems s @ [sem]" using pool by (simp add: s' free_call_def)
  show ?thesis
  proof (rule rpc_invI)
    show "waiting (rs_calls s') xs" using d(1) c(1) by (simp add: s' waiting_free waiting_pool)
    show "pool_ok (fCallPool (rs_calls s'))" using pool by (simp add: s' free_call_def)
    show "distinct (pool_sems s')" using d(3) c(4) by (simp add: ps)
    show "rs_sems s' sem' = Some 0" if "sem' \<in> set (pool_sems s')" for sem'
      using that d(4) c(3) unfolding ps by (auto simp: s')
  next
    fix c' ph' x' a' assume c': "rs_senders s' c' = Some (ph', x', a')"
    then have ne: "c' \<noteq> c" and c'': "rs_senders s c' = Some (ph', x', a')" by (auto simp: s' split: if_splits)
    show "sender_ok conf s' xs c' (ph', x', a')"
    proof (rule sender_ok_frame [OF d(5) [OF c'']])
      fix k' assume k': "own s c' = Some k'"
      show "call_sem k' \<notin> set (pool_sems s) \<Longrightarrow> call_sem k' \<notin> set (pool_sems s')"
        using apart_sem [OF d(8) e c'' ne l(1) k'] l(2) unfolding ps by simp
      show "rs_sems s' (call_sem k') = rs_sems s (call_sem k')" by (simp add: s')
    qed (simp_all add: ow [OF ne] same, simp add: s')
  next
    show "apart s'" by (rule apartI [OF d(8)]) (use ow in \<open>auto simp: s' split: if_splits\<close>)
    show "rs_senders s' c' \<noteq> None" if "c' \<in> set xs" for c' using d(6) [OF that] that c(1) by (auto simp: s')
    show "rs_senders s' c' \<noteq> None" if "post_call s' = Some c'" for c'
    proof -
      from that same have "post_call s = Some c'" by simp
      with c(2) have "c' \<noteq> c" by (auto simp: post_call_def view_def split: post.splits if_splits)
      with d(7) [OF \<open>post_call s = Some c'\<close>] show ?thesis by (simp add: s')
    qed
    show "rs_post s' \<noteq> Fault" using d(9) by (simp add: s')
    show "answers_call conf (rs_received s') x' a' b" if "(x', a', Some b) \<in> set (rs_returned s')" for x' a' b
      using that d(10) [of x' a' b] r [of b] by (auto simp: s')
  qed
qed

lemma finish_inv:
  assumes inv: "rpc_inv conf s xs" and step: "finish_call c s = Some s'"
  shows "rpc_inv conf s' xs"
proof -
  note d = rpc_invD [OF inv]
  from step obtain x a k pool where e: "rs_senders s c = Some (Got, x, a)" and k: "own_call s c = Some k"
    and p: "SemaphorePoolPut True (\<lambda>i. 0) (fCallPool (rs_calls s)) (call_sem k) = Some pool"
    and s': "s' = s\<lparr>rs_calls := free_call c ((rs_calls s)\<lparr>fCallPool := pool\<rparr>),
              rs_senders := (rs_senders s)(c := None), rs_returned := (x, a, call_buffer k) # rs_returned s\<rparr>"
    by (auto simp: finish_call_def split: option.splits prod.splits phase.splits)
  from own_callD [OF k] obtain l where l: "own s c = Some l" "call_sem l = call_sem k" "call_buffer l = call_buffer k" by blast
  from d(5) [OF e] l have ok: "c \<notin> set xs" "view s c = Not_Mine" "rs_sems s (call_sem k) = Some 0"
    "call_sem k \<notin> set (pool_sems s)" "\<exists>b. call_buffer k = Some b \<and> answers_call conf (rs_received s) x a b"
    by (auto simp: sender_ok_def)
  show ?thesis by (rule return_sem_inv [OF inv e l(1,2) ok(1-4) p _ s']) (use ok(5) in auto)
qed

lemma clean_inv:
  assumes inv: "rpc_inv conf s xs" and step: "clean_call c s = Some s'"
  shows "rpc_inv conf s' xs"
proof -
  note d = rpc_invD [OF inv]
  from step obtain x a k found where e: "rs_senders s c = Some (Clean found, x, a)" and k: "own_call s c = Some k"
    by (auto simp: clean_call_def split: option.splits prod.splits phase.splits)
  from own_callD [OF k] obtain l where l: "own s c = Some l" "call_sem l = call_sem k" by blast
  from d(5) [OF e] l have ok: "c \<notin> set xs" "view s c = Not_Mine" "call_sem k \<notin> set (pool_sems s)"
    "found \<Longrightarrow> rs_sems s (call_sem k) = Some 0" by (auto simp: sender_ok_def)
  show ?thesis
  proof (cases found)
    case True
    with step e k obtain pool where p: "SemaphorePoolPut True (\<lambda>i. 0) (fCallPool (rs_calls s)) (call_sem k) = Some pool"
      and s': "s' = s\<lparr>rs_calls := free_call c ((rs_calls s)\<lparr>fCallPool := pool\<rparr>),
              rs_senders := (rs_senders s)(c := None), rs_returned := (x, a, None) # rs_returned s\<rparr>"
      by (auto simp: clean_call_def)
    from ok True show ?thesis by (intro return_sem_inv [OF inv e l _ _ _ _ p _ s']) auto
  next
    case False
    with step e k have s': "s' = s\<lparr>rs_calls := free_call c (rs_calls s), rs_sems := (rs_sems s)(call_sem k := None),
                 rs_senders := (rs_senders s)(c := None), rs_returned := (x, a, None) # rs_returned s\<rparr>"
      by (auto simp: clean_call_def)
    have ow: "own s' c' = own s c'" if "c' \<noteq> c" for c' using that by (simp add: s' own_def own_call_def free_call_def)
    have same: "view s' = view s" "post_call s' = post_call s" "pool_sems s' = pool_sems s"
      by (simp_all add: s' view_def post_call_def fun_eq_iff free_call_def)
    show ?thesis
    proof (rule rpc_invI)
      show "waiting (rs_calls s') xs" using d(1) ok(1) by (simp add: s' waiting_free)
      show "pool_ok (fCallPool (rs_calls s'))" using d(2) by (simp add: s' free_call_def)
      show "distinct (pool_sems s')" using d(3) by (simp add: same)
      show "rs_sems s' sem = Some 0" if "sem \<in> set (pool_sems s')" for sem
        using that d(4) ok(3) unfolding same by (auto simp: s')
    next
      fix c' ph' x' a' assume c': "rs_senders s' c' = Some (ph', x', a')"
      then have ne: "c' \<noteq> c" and c'': "rs_senders s c' = Some (ph', x', a')" by (auto simp: s' split: if_splits)
      from d(5) [OF c''] show "sender_ok conf s' xs c' (ph', x', a')"
        by (rule sender_ok_frame) (use apart_sem [OF d(8) e c'' ne l(1)] l(2) ne in \<open>auto simp: ow same, auto simp: s'\<close>)
    next
      show "apart s'" by (rule apartI [OF d(8)]) (use ow in \<open>auto simp: s' split: if_splits\<close>)
      show "rs_senders s' c' \<noteq> None" if "c' \<in> set xs" for c' using d(6) [OF that] that ok(1) by (auto simp: s')
      show "rs_senders s' c' \<noteq> None" if "post_call s' = Some c'" for c'
      proof -
        from that same have "post_call s = Some c'" by simp
        with ok(2) have "c' \<noteq> c" by (auto simp: post_call_def view_def split: post.splits if_splits)
        with d(7) [OF \<open>post_call s = Some c'\<close>] show ?thesis by (simp add: s')
      qed
      show "rs_post s' \<noteq> Fault" using d(9) by (simp add: s')
      show "answers_call conf (rs_received s') x' a' b" if "(x', a', Some b) \<in> set (rs_returned s')" for x' a' b
        using that d(10) [of x' a' b] by (auto simp: s')
    qed
  qed
qed


text \<open>Only the thread's own call has its transaction id.\<close>

lemma find_own:
  assumes inv: "rpc_inv conf s xs" and e: "rs_senders s c = Some (ph, x, a)"
  shows "if c \<in> set xs then
      \<exists>as bs p. xs = as @ c # bs \<and> RPCPendingCallsFindAndRemovePendingCall conf (rs_calls s) x a = Some (Some c, p) \<and>
        waiting p (as @ bs) \<and> fCallPool p = fCallPool (rs_calls s) \<and> (\<forall>y. unlinked (calls p y) = unlinked (calls (rs_calls s) y))
    else RPCPendingCallsFindAndRemovePendingCall conf (rs_calls s) x a = Some (None, rs_calls s)"
proof -
  note d = rpc_invD [OF inv]
  from d(5) [OF e] obtain l where l: "own s c = Some l" "call_xid l = x" "call_addr l = a" by (auto simp: sender_ok_def)
  have other: "\<not> call_matches conf x a (the (calls (rs_calls s) y))" if y: "y \<in> set xs" "y \<noteq> c" for y
  proof -
    from d(6) [OF y(1)] obtain e' where e': "rs_senders s y = Some e'" by blast
    obtain ph' x' a' where "e' = (ph', x', a')" by (cases e')
    with d(5) [OF e'] obtain l' where l': "own s y = Some l'" by (auto simp: sender_ok_def)
    from apart_sem [OF d(8) e e' y(2) l(1) l'] ownD [OF l'] l(2) show ?thesis
      by (auto simp: call_matches_def own_call_def)
  qed
  show ?thesis
  proof (cases "c \<in> set xs")
    case True
    then obtain as bs where s: "xs = as @ c # bs" by (auto simp: in_set_conv_decomp)
    from d(1) have "distinct xs" by (simp add: waiting_def)
    with s other have no: "\<forall>y\<in>set as. \<not> call_matches conf x a (the (calls (rs_calls s) y))" by auto
    from ownD [OF l(1)] l(2,3) have "call_matches conf x a (the (calls (rs_calls s) c))"
      by (auto simp: call_matches_def own_call_def)
    from find_some [OF d(1) [unfolded s] no this] obtain p where
      "RPCPendingCallsFindAndRemovePendingCall conf (rs_calls s) x a = Some (Some c, p)" "waiting p (as @ bs)"
      "fCallPool p = fCallPool (rs_calls s)" "\<forall>y. unlinked (calls p y) = unlinked (calls (rs_calls s) y)" by blast
    with True s show ?thesis by auto
  next
    case False
    with other have "\<forall>y\<in>set xs. \<not> call_matches conf x a (the (calls (rs_calls s) y))" by metis
    from find_none [OF d(1) this] False show ?thesis by simp
  qed
qed

lemma withdraw_inv:
  assumes inv: "rpc_inv conf s xs" and step: "withdraw_call conf c s = Some s'" and away: "post_call s \<noteq> Some c"
  shows "\<exists>xs'. rpc_inv conf s' xs'"
proof -
  note d = rpc_invD [OF inv]
  from step obtain x a found p where e: "rs_senders s c = Some (Late, x, a)"
    and f: "RPCPendingCallsFindAndRemovePendingCall conf (rs_calls s) x a = Some (found, p)"
    and s': "s' = s\<lparr>rs_calls := p, rs_senders := (rs_senders s)(c \<mapsto> (Clean (found \<noteq> None), x, a))\<rparr>"
    by (auto simp: withdraw_call_def split: option.splits prod.splits phase.splits)
  have same: "view s' = view s" "post_call s' = post_call s" by (simp_all add: s' view_def post_call_def fun_eq_iff)
  from d(5) [OF e] obtain l where l: "own s c = Some l" "call_xid l = x" "call_addr l = a" "call_sem l \<notin> set (pool_sems s)"
    "call_ok (answers_call conf (rs_received s) x a) Late (c \<in> set xs) (view s c) (rs_sems s (call_sem l)) (call_buffer l)"
    by (auto simp: sender_ok_def simp del: call_ok.simps)
  define xs' where "xs' = remove1 c xs"
  have dist: "distinct xs" using d(1) by (simp add: waiting_def)
  have nm: "view s c = Not_Mine" using away by (auto simp: view_def post_call_def split: post.splits)
  have p: "waiting p xs'" "fCallPool p = fCallPool (rs_calls s)" "\<forall>y. unlinked (calls p y) = unlinked (calls (rs_calls s) y)"
    "found \<noteq> None \<longleftrightarrow> c \<in> set xs"
    using find_own [OF inv e] f d(1) dist unfolding xs'_def by (auto simp: remove1_append remove1_idem split: if_splits)
  have ow: "own s' = own s" using p(3) by (simp add: s' own_def own_call_def fun_eq_iff)
  have set': "set xs' = set xs - {c}" using dist by (simp add: xs'_def)
  have "rpc_inv conf s' xs'"
  proof (rule rpc_invI)
    fix c' ph' x' a' assume c': "rs_senders s' c' = Some (ph', x', a')"
    show "sender_ok conf s' xs' c' (ph', x', a')"
    proof (cases "c' = c")
      case True
      have "call_ok (answers_call conf (rs_received s) x a) (Clean (found \<noteq> None)) False Not_Mine
          (rs_sems s (call_sem l)) (call_buffer l)"
        using l(5) nm p(4) by (auto split: if_splits)
      with True c' l(1-4) nm ow p(2) same(1) set' show ?thesis
        by (auto simp: sender_ok_def s')
    next
      case False
      with c' have c'': "rs_senders s c' = Some (ph', x', a')" by (simp add: s')
      from d(5) [OF c''] show ?thesis
        by (rule sender_ok_frame) (simp_all add: ow same set' False, simp_all add: s' p(2))
    qed
  next
    show "apart s'" by (rule apartI [OF d(8)]) (use ow e in \<open>auto simp: s' split: if_splits\<close>)
  qed (use d(2-4) d(6) d(7) d(9) d(10) same p(1,2) set' in \<open>auto simp: s' simp del: not_None_eq\<close>)
  then show ?thesis by blast
qed

lemma receive_inv:
  assumes inv: "rpc_inv conf s xs" and step: "receive conf from_addr b s = Some s'"
  shows "\<exists>xs'. rpc_inv conf s' xs'"
proof (cases "length b < 4")
  case True
  with step inv show ?thesis by (auto simp: receive_def split: if_splits)
next
  case False
  note d = rpc_invD [OF inv]
  let ?m = "\<lambda>y. call_matches conf (reply_xid b) from_addr (the (calls (rs_calls s) y))"
  from step False obtain found p where rc: "rs_post s = Receiving"
    and f: "RPCPendingCallsFindAndRemovePendingCall conf (rs_calls s) (reply_xid b) from_addr = Some (found, p)"
    and s': "s' = s\<lparr>rs_calls := p, rs_received := (from_addr, b) # rs_received s,
        rs_post := (case found of None \<Rightarrow> Receiving | Some c \<Rightarrow> Delivering c b)\<rparr>"
    by (auto simp: receive_def split: if_splits)
  have v: "view s y = Not_Mine" for y using rc by (simp add: view_def)
  have sub: "set (rs_received s) \<subseteq> set (rs_received s')" by (auto simp: s')
  show ?thesis
  proof (cases "\<exists>y\<in>set xs. ?m y")
    case False
    with find_none [OF d(1)] f have n: "found = None" "p = rs_calls s" by auto
    have same: "own s' = own s" "view s' = view s" "post_call s' = post_call s"
      using n rc by (simp_all add: s' own_def own_call_def view_def post_call_def fun_eq_iff)
    have "rpc_inv conf s' xs"
    proof (rule rpc_invI)
      fix c' ph' x' a' assume c': "rs_senders s' c' = Some (ph', x', a')"
      then have "rs_senders s c' = Some (ph', x', a')" by (simp add: s')
      from d(5) [OF this] show "sender_ok conf s' xs c' (ph', x', a')"
        by (rule sender_ok_frame) (use sub in \<open>simp_all add: same\<close>, simp_all add: s' n)
    next
      show "apart s'" by (rule apartI [OF d(8)]) (use same in \<open>auto simp: s'\<close>)
      show "answers_call conf (rs_received s') x' a' b'" if "(x', a', Some b') \<in> set (rs_returned s')" for x' a' b'
        using answers_mono [OF d(10) [of x' a' b'] sub] that by (simp add: s')
    qed (use d(1-4) d(6) d(7) d(9) same n rc in \<open>auto simp: s' simp del: not_None_eq\<close>)
    then show ?thesis by blast
  next
    case True
    then obtain c where "List.find ?m xs = Some c" by (metis find_None_iff not_Some_eq)
    from find_split [OF this] obtain as bs where sp: "xs = as @ c # bs" "?m c" "\<forall>y\<in>set as. \<not> ?m y" by blast
    from find_some [OF d(1) [unfolded sp(1)] sp(3,2)] f have n: "found = Some c" "waiting p (as @ bs)"
      "fCallPool p = fCallPool (rs_calls s)" "\<forall>y. unlinked (calls p y) = unlinked (calls (rs_calls s) y)" by auto
    have ow: "own s' = own s" using n(4) by (simp add: s' own_def own_call_def fun_eq_iff)
    have dist: "distinct xs" using d(1) by (simp add: waiting_def)
    have set': "set (as @ bs) = set xs - {c}" using dist sp(1) by auto
    have v': "view s' y = (if y = c then Has b else Not_Mine)" for y by (simp add: s' n(1) view_def)
    have cx: "c \<in> set xs" using sp(1) by simp
    have "rpc_inv conf s' (as @ bs)"
    proof (rule rpc_invI)
      fix c' ph' x' a' assume c': "rs_senders s' c' = Some (ph', x', a')"
      then have c'': "rs_senders s c' = Some (ph', x', a')" by (simp add: s')
      show "sender_ok conf s' (as @ bs) c' (ph', x', a')"
      proof (cases "c' = c")
        case True
        from d(5) [OF c''] obtain l where l: "own s c' = Some l" "call_xid l = x'" "call_addr l = a'" "call_sem l \<notin> set (pool_sems s)"
          "call_ok (answers_call conf (rs_received s) x' a') ph' True Not_Mine (rs_sems s (call_sem l)) (call_buffer l)"
          using cx True v by (auto simp: sender_ok_def simp del: call_ok.simps)
        from ownD [OF l(1)] l(2,3) sp(2) True have "reply_xid b = x'" "conf \<or> from_addr = a'"
          by (auto simp: call_matches_def own_call_def prod_eq_iff)
        then have "answers_call conf (rs_received s') x' a' b"
          unfolding answers_call_def s' by (intro exI [of _ from_addr]) simp
        with l(5) have "call_ok (answers_call conf (rs_received s') x' a') ph' False (Has b) (rs_sems s (call_sem l)) (call_buffer l)"
          by (cases ph') auto
        with l(1-4) True ow n(3) v' set' show ?thesis by (auto simp: sender_ok_def s' simp del: call_ok.simps)
      next
        case False
        from d(5) [OF c''] show ?thesis
          by (rule sender_ok_frame) (use sub set' in \<open>simp_all add: ow v v' False\<close>, simp_all add: s' n(3))
      qed
    next
      show "apart s'" by (rule apartI [OF d(8)]) (use ow in \<open>auto simp: s'\<close>)
      show "answers_call conf (rs_received s') x' a' b'" if "(x', a', Some b') \<in> set (rs_returned s')" for x' a' b'
        using answers_mono [OF d(10) [of x' a' b'] sub] that by (simp add: s')
      show "rs_senders s' c' \<noteq> None" if "c' \<in> set (as @ bs)" for c'
      proof -
        from that set' have "c' \<in> set xs" by blast
        from d(6) [OF this] show ?thesis by (simp add: s')
      qed
      show "rs_senders s' c' \<noteq> None" if "post_call s' = Some c'" for c'
        using d(6) [OF cx] that n(1) by (simp add: s' post_call_def)
    qed (use d(2-4) n in \<open>auto simp: s'\<close>)
    then show ?thesis by blast
  qed
qed


lemma store_reply_inv:
  assumes inv: "rpc_inv conf s xs" and step: "store_reply s = Some s'"
  shows "rpc_inv conf s' xs"
proof -
  note d = rpc_invD [OF inv]
  from step obtain c b where post: "rs_post s = Delivering c b" by (auto simp: store_reply_def split: post.splits)
  then have "rs_senders s c \<noteq> None" by (intro d(7)) (simp add: post_call_def)
  then obtain ph x a where e: "rs_senders s c = Some (ph, x, a)" by auto
  have vc: "view s c = Has b" by (simp add: view_def post)
  from d(5) [OF e] vc obtain l where l: "own s c = Some l" "call_xid l = x" "call_addr l = a" "call_sem l \<notin> set (pool_sems s)"
    "call_ok (answers_call conf (rs_received s) x a) ph (c \<in> set xs) (Has b) (rs_sems s (call_sem l)) (call_buffer l)"
    by (auto simp: sender_ok_def simp del: call_ok.simps)
  from l(5) have cx: "c \<notin> set xs" by (cases ph) (auto split: if_splits)
  from ownD [OF l(1)] obtain k where k: "own_call s c = Some k" "call_sem k = call_sem l" "call_xid k = call_xid l" "call_addr k = call_addr l"
    by blast
  with step post have s': "s' = s\<lparr>rs_post := Stored c,
      rs_calls := (rs_calls s)\<lparr>calls := (calls (rs_calls s))(c \<mapsto> k\<lparr>call_buffer := Some b\<rparr>)\<rparr>\<rparr>"
    by (simp add: store_reply_def)
  have ow: "own s' y = (if y = c then Some (l\<lparr>call_buffer := Some b\<rparr>) else own s y)" for y
    using k(1) l(1) by (auto simp: s' own_def own_call_def unlinked_def)
  have v': "view s' y = (if y = c then Full else view s y)" for y by (simp add: s' view_def post)
  have pc: "post_call s' = post_call s" by (simp add: s' post_call_def post)
  have ps: "pool_sems s' = pool_sems s" by (simp add: s')
  show ?thesis
  proof (rule rpc_invI)
    show "waiting (rs_calls s') xs" using d(1) cx by (auto simp: s' waiting_def path_link_other)
    fix c' ph' x' a' assume c': "rs_senders s' c' = Some (ph', x', a')"
    then have c'': "rs_senders s c' = Some (ph', x', a')" by (simp add: s')
    show "sender_ok conf s' xs c' (ph', x', a')"
    proof (cases "c' = c")
      case True
      from l(5) cx have "call_ok (answers_call conf (rs_received s) x a) ph False Full (rs_sems s (call_sem l)) (Some b)"
        by (cases ph) auto
      moreover have "rs_received s' = rs_received s" "rs_sems s' = rs_sems s" by (simp_all add: s')
      ultimately show ?thesis using True c'' e l(1-4) cx ps by (simp add: sender_ok_def ow v' del: call_ok.simps)
    next
      case False
      from d(5) [OF c''] show ?thesis
        by (rule sender_ok_frame) (simp_all add: ow v' ps False, simp_all add: s')
    qed
  next
    show "apart s'" by (rule apartI [OF d(8)]) (use ow l(1) in \<open>auto simp: s' split: if_splits\<close>)
  qed (use d(2-4) d(6) d(7) d(10) pc in \<open>auto simp: s' simp del: not_None_eq\<close>)
qed

lemma wake_sender_inv:
  assumes inv: "rpc_inv conf s xs" and step: "wake_sender s = Some s'"
  shows "rpc_inv conf s' xs"
proof -
  note d = rpc_invD [OF inv]
  from step obtain c where post: "rs_post s = Stored c" by (auto simp: wake_sender_def split: post.splits)
  then have "rs_senders s c \<noteq> None" by (intro d(7)) (simp add: post_call_def)
  then obtain ph x a where e: "rs_senders s c = Some (ph, x, a)" by auto
  have vc: "view s c = Full" by (simp add: view_def post)
  from d(5) [OF e] vc obtain l where l: "own s c = Some l" "call_xid l = x" "call_addr l = a" "call_sem l \<notin> set (pool_sems s)"
    "call_ok (answers_call conf (rs_received s) x a) ph (c \<in> set xs) Full (rs_sems s (call_sem l)) (call_buffer l)"
    by (auto simp: sender_ok_def simp del: call_ok.simps)
  from l(5) have ok: "c \<notin> set xs" "rs_sems s (call_sem l) = Some 0"
    "call_ok (answers_call conf (rs_received s) x a) ph False Not_Mine (Some 1) (call_buffer l)"
    by (cases ph; auto split: if_splits)+
  from ownD [OF l(1)] obtain k where k: "own_call s c = Some k" "call_sem k = call_sem l" by blast
  with step post ok(2) have s': "s' = s\<lparr>rs_post := Receiving, rs_sems := (rs_sems s)(call_sem l \<mapsto> 1)\<rparr>"
    by (simp add: wake_sender_def)
  have ow: "own s' = own s" by (simp add: s' own_def own_call_def fun_eq_iff)
  have v': "view s' y = (if y = c then Not_Mine else view s y)" for y by (simp add: s' view_def post)
  show ?thesis
  proof (rule rpc_invI)
    fix c' ph' x' a' assume c': "rs_senders s' c' = Some (ph', x', a')"
    then have c'': "rs_senders s c' = Some (ph', x', a')" by (simp add: s')
    show "sender_ok conf s' xs c' (ph', x', a')"
    proof (cases "c' = c")
      case True
      have "rs_received s' = rs_received s" "rs_sems s' (call_sem l) = Some 1" "pool_sems s' = pool_sems s" by (simp_all add: s')
      with True c'' e l(1-4) ok show ?thesis by (simp add: sender_ok_def ow v' del: call_ok.simps)
    next
      case False
      show ?thesis
      proof (rule sender_ok_frame [OF d(5) [OF c'']])
        fix k' assume "own s c' = Some k'"
        from apart_sem [OF d(8) e c'' False l(1) this] show "rs_sems s' (call_sem k') = rs_sems s (call_sem k')" by (simp add: s')
      qed (simp_all add: ow v' False, simp_all add: s')
    qed
  next
    fix sem assume "sem \<in> set (pool_sems s')"
    with d(4) l(4) show "rs_sems s' sem = Some 0" by (auto simp: s')
  next
    show "apart s'" by (rule apartI [OF d(8)]) (use ow in \<open>auto simp: s'\<close>)
  qed (use d(1-3) d(6) d(10) in \<open>auto simp: s' post_call_def simp del: not_None_eq\<close>)
qed

lemma arm_inv:
  assumes inv: "rpc_inv conf s xs" and step: "arm_call c new xid addr s = Some s'"
    and fresh: "own_call s c = None" "rs_sems s new = None" "\<And>c' ph x a. rs_senders s c' = Some (ph, x, a) \<Longrightarrow> x \<noteq> xid"
  shows "rpc_inv conf s' xs"
proof -
  note d = rpc_invD [OF inv]
  have c0: "calls (rs_calls s) c = None" using fresh(1) by (simp add: own_call_def)
  from pool_get [OF d(2), of new] obtain sem pool where g: "SemaphorePoolGet new (fCallPool (rs_calls s)) = Some (sem, pool)"
    "pool_ok pool" "if pool_sems s = [] then sem = new \<and> pool = fCallPool (rs_calls s) else pool_sems s = pooled pool @ [sem]"
    by blast
  define k where "k = \<lparr>next_call = None, call_sem = sem, call_addr = addr, call_xid = xid, call_buffer = None\<rparr>"
  from take_call_ok [OF d(1,2) c0, of new xid addr] g(1) obtain p where
    p: "take_call c new (rs_calls s) xid addr = Some p" "waiting p xs" "c \<notin> set xs" "fCallPool p = pool"
      "calls p = (calls (rs_calls s))(c \<mapsto> k)" unfolding k_def by fastforce
  have empty: "fPoolCount (fCallPool (rs_calls s)) = 0 \<longleftrightarrow> pool_sems s = []" using d(2) by (auto simp: pooled_def pool_ok_def)
  from step p(1) have s': "s' = s\<lparr>rs_calls := p, rs_drawn := remove1 (xid, addr) (rs_drawn s),
         rs_senders := (rs_senders s)(c \<mapsto> (Armed, xid, addr)),
         rs_sems := (if pool_sems s = [] then (rs_sems s)(new \<mapsto> 0) else rs_sems s)\<rparr>"
    by (simp add: arm_call_def empty split: if_splits)
  have cn: "rs_senders s c = None"
  proof (rule ccontr)
    assume "rs_senders s c \<noteq> None"
    then obtain e where "rs_senders s c = Some e" by blast
    with d(5) [OF this] obtain l where "own s c = Some l" by (cases e) (auto simp: sender_ok_def)
    with ownD [OF this] fresh(1) show False by simp
  qed
  have sem0: "rs_sems s' sem = Some 0" "sem \<notin> set (pooled pool)"
    using g(3) d(3) d(4) by (auto simp: s' split: if_splits)
  have keep: "rs_sems s' z = rs_sems s z" if "rs_sems s z \<noteq> None" for z using that fresh(2) by (auto simp: s')
  have ps: "pool_sems s' = pooled pool" "set (pooled pool) \<subseteq> set (pool_sems s)"
    using g(3) by (auto simp: s' p(4) split: if_splits)
  have ow: "own s' y = (if y = c then Some k else own s y)" for y
    by (simp add: s' own_def own_call_def p(5) unlinked_def k_def)
  have same: "view s' = view s" "post_call s' = post_call s" by (simp_all add: s' view_def post_call_def fun_eq_iff)
  have vc: "view s c = Not_Mine" using d(7) [of c] cn by (auto simp: view_def post_call_def split: post.splits)
  have other: "call_sem k' \<noteq> sem" "call_xid k' \<noteq> xid" "rs_sems s (call_sem k') \<noteq> None"
    if e: "rs_senders s c' = Some e" "own s c' = Some k'" for c' e k'
  proof -
    obtain ph x a where ea: "e = (ph, x, a)" by (cases e)
    from d(5) [OF e(1)] e(2) ea have k': "call_xid k' = x" "call_sem k' \<notin> set (pool_sems s)"
      "call_ok (answers_call conf (rs_received s) x a) ph (c' \<in> set xs) (view s c') (rs_sems s (call_sem k')) (call_buffer k')"
      by (auto simp: sender_ok_def simp del: call_ok.simps)
    from call_ok_sem [OF k'(3)] show n: "rs_sems s (call_sem k') \<noteq> None" .
    from fresh(3) [of c' ph x a] e(1) ea k'(1) show "call_xid k' \<noteq> xid" by simp
    show "call_sem k' \<noteq> sem" using g(3) n fresh(2) k'(2) by (auto split: if_splits)
  qed
  show ?thesis
  proof (rule rpc_invI)
    show "waiting (rs_calls s') (xs)" using p(2) by (simp add: s')
    show "pool_ok (fCallPool (rs_calls s'))" using g(2) by (simp add: s' p(4))
    show "distinct (pool_sems s')" using g(3) d(3) unfolding ps by (auto split: if_splits)
    show "rs_sems s' z = Some 0" if "z \<in> set (pool_sems s')" for z
      using that ps d(4) [of z] keep [of z] by auto
  next
    fix c' ph' x' a' assume c': "rs_senders s' c' = Some (ph', x', a')"
    show "sender_ok conf s' (xs) c' (ph', x', a')"
    proof (cases "c' = c")
      case True
      with c' have "ph' = Armed" "x' = xid" "a' = addr" by (simp_all add: s')
      moreover have "own s' c = Some k" by (simp add: ow)
      ultimately show ?thesis using True sem0 vc p(3) by (simp add: sender_ok_def same ps k_def)
    next
      case False
      with c' have c'': "rs_senders s c' = Some (ph', x', a')" by (simp add: s')
      show ?thesis
      proof (rule sender_ok_frame [OF d(5) [OF c'']])
        fix k' assume "own s c' = Some k'"
        from other(3) [OF c'' this] show "rs_sems s' (call_sem k') = rs_sems s (call_sem k')" by (rule keep)
      qed (use False ps in \<open>auto simp: ow same\<close>, simp add: s')
    qed
  next
    show "apart s'"
      unfolding apart_def
    proof (intro allI impI, elim conjE)
      fix y y' l l' assume y: "rs_senders s' y \<noteq> None" "rs_senders s' y' \<noteq> None" "y \<noteq> y'" "own s' y = Some l" "own s' y' = Some l'"
      have old: "rs_senders s z \<noteq> None" "own s z = Some m"
        if "rs_senders s' z \<noteq> None" "own s' z = Some m" "z \<noteq> c" for z m
        using that(2,3) that(1) by (simp_all add: ow) (simp add: s')
      have o: "call_sem m \<noteq> sem \<and> call_xid m \<noteq> xid" if z: "rs_senders s' z \<noteq> None" "own s' z = Some m" "z \<noteq> c" for z m
      proof -
        from old(1) [OF z] obtain e where "rs_senders s z = Some e" by blast
        from other(1,2) [OF this old(2) [OF z]] show ?thesis by blast
      qed
      show "call_sem l \<noteq> call_sem l' \<and> call_xid l \<noteq> call_xid l'"
      proof (cases "y = c \<or> y' = c")
        case True
        with o [OF y(1,4)] o [OF y(2,5)] y(3-5) show ?thesis by (auto simp: ow k_def)
      next
        case False
        then have "y \<noteq> c" "y' \<noteq> c" by simp_all
        with d(8) y(3) old [OF y(1,4)] old [OF y(2,5)] show ?thesis unfolding apart_def by blast
      qed
    qed
    show "rs_senders s' c' \<noteq> None" if "c' \<in> set (xs)" for c' using that d(6) [of c'] by (auto simp: s')
    show "rs_senders s' c' \<noteq> None" if "post_call s' = Some c'" for c' using d(7) [of c'] that same by (auto simp: s')
    show "rs_post s' \<noteq> Fault" using d(9) by (simp add: s')
    show "answers_call conf (rs_received s') x' a' b" if "(x', a', Some b) \<in> set (rs_returned s')" for x' a' b
      using that d(10) [of x' a' b] by (simp add: s')
  qed
qed

lemma enter_inv:
  assumes inv: "rpc_inv conf s xs" and step: "enter_call c s = Some s'"
  shows "rpc_inv conf s' (c # xs)"
proof -
  note d = rpc_invD [OF inv]
  from step obtain x a where e: "rs_senders s c = Some (Armed, x, a)" and
    s': "s' = s\<lparr>rs_calls := link_call c (rs_calls s), rs_senders := (rs_senders s)(c \<mapsto> (Sent, x, a))\<rparr>"
    by (auto simp: enter_call_def split: option.splits prod.splits phase.splits)
  from d(5) [OF e] obtain l where l: "own s c = Some l" "call_xid l = x" "call_addr l = a" "call_sem l \<notin> set (pool_sems s)"
    "c \<notin> set xs" "view s c = Not_Mine" "rs_sems s (call_sem l) = Some 0" by (auto simp: sender_ok_def)
  from ownD [OF l(1)] obtain k where k: "calls (rs_calls s) c = Some k" by (auto simp: own_call_def)
  note p = link_call_ok [OF d(1) l(5) k]
  have ow: "own s' = own s" using p k by (auto simp: s' own_def own_call_def unlinked_def fun_eq_iff)
  have same: "view s' = view s" "post_call s' = post_call s" "pool_sems s' = pool_sems s"
    using p by (simp_all add: s' view_def post_call_def fun_eq_iff)
  show ?thesis
  proof (rule rpc_invI)
    fix c' ph x' a' assume c': "rs_senders s' c' = Some (ph, x', a')"
    show "sender_ok conf s' (c # xs) c' (ph, x', a')"
    proof (cases "c' = c")
      case True
      with c' l ow same show ?thesis by (auto simp: s' sender_ok_def)
    next
      case False
      with c' have "rs_senders s c' = Some (ph, x', a')" by (simp add: s')
      from d(5) [OF this] show ?thesis by (rule sender_ok_frame) (simp_all add: ow same False, simp_all add: s')
    qed
  next
    show "apart s'" by (rule apartI [OF d(8)]) (use ow e in \<open>auto simp: s' split: if_splits\<close>)
  qed (use d(2-4) d(6) d(7) d(9) d(10) same p in \<open>auto simp: s' simp del: not_None_eq\<close>)
qed

lemma draw_inv: "rpc_inv conf s xs \<Longrightarrow> rpc_inv conf (draw_xid addr s) xs"
  by (simp add: rpc_inv_def draw_xid_def apart_def sender_ok_def own_def own_call_def view_def post_call_def)

text \<open>The transaction ids that are drawn are distinct and none of them is that of a call.\<close>

definition drawn_ok :: "rpc_system \<Rightarrow> bool" where
  "drawn_ok s \<longleftrightarrow> distinct (map fst (rs_drawn s)) \<and>
     (\<forall>c ph x a. rs_senders s c = Some (ph, x, a) \<longrightarrow> x \<notin> fst ` set (rs_drawn s))"

lemma drawn_frame:
  assumes "drawn_ok s" "rs_drawn s' = rs_drawn s"
    "\<And>c ph x a. rs_senders s' c = Some (ph, x, a) \<Longrightarrow> \<exists>ph. rs_senders s c = Some (ph, x, a)"
  shows "drawn_ok s'"
  using assms(1) unfolding drawn_ok_def assms(2) by (blast dest: assms(3))

lemmas section_defs = enter_call_def acquire_call_def finish_call_def time_out_def withdraw_call_def clean_call_def
  receive_def store_reply_def wake_sender_def

lemma distinct_fst_remove1:
  assumes "distinct (map fst ps)" "(x, a) \<in> set ps"
  shows "distinct (map fst (remove1 (x, a) ps))" "x \<notin> fst ` set (remove1 (x, a) ps)"
proof -
  from split_list [OF assms(2)] obtain us vs where d: "ps = us @ (x, a) # vs" by blast
  with assms(1) have u: "x \<notin> fst ` set us" "x \<notin> fst ` set vs" "distinct (map fst us)" "distinct (map fst vs)"
    "fst ` set us \<inter> fst ` set vs = {}" by auto
  then have "(x, a) \<notin> set us" by (metis fst_conv image_eqI)
  with d have r: "remove1 (x, a) ps = us @ vs" by (simp add: remove1_append)
  show "distinct (map fst (remove1 (x, a) ps))" "x \<notin> fst ` set (remove1 (x, a) ps)"
    unfolding r using u by auto
qed

lemma drawn_okD:
  assumes "drawn_ok s" "rs_senders s c = Some (ph, x, a)"
  shows "x \<notin> fst ` set (rs_drawn s)"
  by (rule mp [OF spec [OF spec [OF spec [OF spec [OF conjunct2 [OF assms(1) [unfolded drawn_ok_def]]]]]] assms(2)])

lemma drawn_okI:
  assumes "distinct (map fst (rs_drawn s))" "\<And>c ph x a. rs_senders s c = Some (ph, x, a) \<Longrightarrow> x \<notin> fst ` set (rs_drawn s)"
  shows "drawn_ok s"
  unfolding drawn_ok_def using assms by (intro conjI allI impI) assumption+

lemma arm_drawn:
  assumes "drawn_ok s" "arm_call c new x a s = Some s'"
  shows "drawn_ok s'" "rs_senders s c' = Some (ph, y, b) \<Longrightarrow> y \<noteq> x"
proof -
  from assms(2) have x: "(x, a) \<in> set (rs_drawn s)" and s': "rs_drawn s' = remove1 (x, a) (rs_drawn s)"
    "rs_senders s' = (rs_senders s)(c \<mapsto> (Armed, x, a))" by (auto simp: arm_call_def split: if_splits)
  have "x \<in> fst ` set (rs_drawn s)" using x by (metis fst_conv image_eqI)
  with assms(1) show "rs_senders s c' = Some (ph, y, b) \<Longrightarrow> y \<noteq> x" unfolding drawn_ok_def by metis
  have sub: "fst ` set (rs_drawn s') \<subseteq> fst ` set (rs_drawn s)" unfolding s'(1) by (intro image_mono set_remove1_subset)
  from assms(1) have "distinct (map fst (rs_drawn s))" by (simp add: drawn_ok_def)
  from distinct_fst_remove1 [OF this x] have "distinct (map fst (rs_drawn s'))" "x \<notin> fst ` set (rs_drawn s')"
    unfolding s'(1) by blast+
  moreover have "y \<notin> fst ` set (rs_drawn s')" if "rs_senders s z = Some (ph, y, b)" for z ph y b
    using drawn_okD [OF assms(1) that] subsetD [OF sub] by (rule contrapos_nn)
  ultimately show "drawn_ok s'" by (intro drawn_okI) (auto simp: s'(2) simp del: set_map image_iff split: if_splits)
qed

lemma draw_drawn:
  assumes "drawn_ok s" "rs_xid s \<notin> fst ` set (rs_drawn s)" "\<And>c ph x a. rs_senders s c = Some (ph, x, a) \<Longrightarrow> x \<noteq> rs_xid s"
  shows "drawn_ok (draw_xid addr s)"
proof (rule drawn_okI)
  have "distinct (map fst (rs_drawn s))" using assms(1) by (simp add: drawn_ok_def)
  with assms(2) show "distinct (map fst (rs_drawn (draw_xid addr s)))" by (simp add: draw_xid_def)
  fix c ph x a assume "rs_senders (draw_xid addr s) c = Some (ph, x, a)"
  then have c: "rs_senders s c = Some (ph, x, a)" by (simp add: draw_xid_def)
  from drawn_okD [OF assms(1) c] assms(3) [OF c] show "x \<notin> fst ` set (rs_drawn (draw_xid addr s))"
    by (simp add: draw_xid_def)
qed

lemma step_inv:
  assumes "rpc_step conf True s s'" "rpc_inv conf s xs" "drawn_ok s"
  shows "(\<exists>xs'. rpc_inv conf s' xs') \<and> drawn_ok s'"
  using assms(1)
proof (cases rule: rpc_step.cases)
  case (draw addr)
  have "rs_xid s \<notin> fst ` set (rs_drawn s)"
  proof
    assume "rs_xid s \<in> fst ` set (rs_drawn s)"
    then obtain q where "rs_xid s = fst q" "q \<in> set (rs_drawn s)" by (rule imageE)
    with draw(3) [of "fst q" "snd q"] show False by simp
  qed
  then have "drawn_ok (draw_xid addr s)" by (rule draw_drawn [OF assms(3)]) (rule draw(2))
  with draw_inv [OF assms(2), of addr] show ?thesis unfolding draw(1) by blast
next
  case (arm c new x a)
  have "rpc_inv conf s' xs" by (rule arm_inv [OF assms(2) arm]) (rule arm_drawn(2) [OF assms(3) arm(1)])
  with arm_drawn(1) [OF assms(3) arm(1)] show ?thesis by blast
next
  case (enter c)
  have "drawn_ok s'" by (rule drawn_frame [OF assms(3)])
    (use enter in \<open>auto simp: section_defs split: option.splits prod.splits phase.splits if_splits\<close>)
  with enter_inv [OF assms(2) enter] show ?thesis by blast
next
  case (acquire c)
  have "drawn_ok s'" by (rule drawn_frame [OF assms(3)])
    (use acquire in \<open>auto simp: section_defs split: option.splits prod.splits phase.splits nat.splits if_splits\<close>)
  with acquire_inv [OF assms(2) acquire] show ?thesis by blast
next
  case (finish c)
  have "drawn_ok s'" by (rule drawn_frame [OF assms(3)])
    (use finish in \<open>auto simp: section_defs split: option.splits prod.splits phase.splits if_splits\<close>)
  with finish_inv [OF assms(2) finish] show ?thesis by blast
next
  case (late c)
  have "drawn_ok s'" by (rule drawn_frame [OF assms(3)])
    (use late in \<open>auto simp: section_defs split: option.splits prod.splits phase.splits if_splits\<close>)
  with time_out_inv [OF assms(2) late] show ?thesis by blast
next
  case (withdraw c)
  have "drawn_ok s'" by (rule drawn_frame [OF assms(3)])
    (use withdraw(1) in \<open>auto simp: section_defs split: option.splits prod.splits phase.splits if_splits\<close>)
  with withdraw_inv [OF assms(2) withdraw(1)] withdraw(2) show ?thesis by blast
next
  case (clean c)
  have "drawn_ok s'" by (rule drawn_frame [OF assms(3)])
    (use clean in \<open>auto simp: section_defs split: option.splits prod.splits phase.splits if_splits\<close>)
  with clean_inv [OF assms(2) clean] show ?thesis by blast
next
  case (receive from_addr b)
  have "drawn_ok s'" by (rule drawn_frame [OF assms(3)])
    (use receive in \<open>auto simp: section_defs split: option.splits prod.splits if_splits\<close>)
  with receive_inv [OF assms(2) receive] show ?thesis by blast
next
  case store_reply
  have "drawn_ok s'" by (rule drawn_frame [OF assms(3)])
    (use store_reply in \<open>auto simp: section_defs split: option.splits post.splits\<close>)
  with store_reply_inv [OF assms(2) store_reply] show ?thesis by blast
next
  case wake
  have "drawn_ok s'" by (rule drawn_frame [OF assms(3)])
    (use wake in \<open>auto simp: section_defs split: option.splits post.splits\<close>)
  with wake_sender_inv [OF assms(2) wake] show ?thesis by blast
qed

lemma reach_inv: "rpc_reach conf True s \<Longrightarrow> (\<exists>xs. rpc_inv conf s xs) \<and> drawn_ok s"
proof (induction rule: rpc_reach.induct)
  case init
  have "drawn_ok rpc_start" by (simp add: drawn_ok_def rpc_start_def)
  with inv_init show ?case by blast
qed (use step_inv in blast)


section \<open>Properties\<close>

text \<open>
  C2: in every interleaving of any number of calling threads, time-outs, late and unsolicited datagrams
  and the post office, in which no thread withdraws its call while the post office is delivering to it:
  freed memory is never used; a call that returns a reply returns a datagram that was received, that
  has its transaction id and, unless the settings allow any sender, came from the address it called; and
  a semaphore in the pool has count zero, so the next call to use it waits for its own reply.
\<close>

theorem rpc_replies_belong:
  assumes "rpc_reach conf True s"
  shows "rs_post s \<noteq> Fault \<and>
    (\<forall>x a b. (x, a, Some b) \<in> set (rs_returned s) \<longrightarrow>
      (\<exists>from_addr. (from_addr, b) \<in> set (rs_received s) \<and> reply_xid b = x \<and> (conf \<or> from_addr = a))) \<and>
    distinct (pool_sems s) \<and> (\<forall>sem \<in> set (pool_sems s). rs_sems s sem = Some 0)"
proof -
  from reach_inv [OF assms] obtain xs where inv: "rpc_inv conf s xs" by blast
  note d = rpc_invD [OF inv]
  from d(9) d(3) d(4) d(10) show ?thesis by (simp add: answers_call_def)
qed

text \<open>A call to the address \<open>(7, 8)\<close> and its reply.\<close>

definition sample_reply :: "uint8 list" where
  "sample_reply = [0, 0, 0, 0, 9]"

definition sample_armed :: rpc_system where
  "sample_armed = the (arm_call 1 10 0 (7, 8) (draw_xid (7, 8) rpc_start))"

definition sample_sent :: rpc_system where
  "sample_sent = the (enter_call 1 sample_armed)"

lemmas sample_start_defs = sample_sent_def sample_armed_def draw_xid_def arm_call_def enter_call_def take_call_def
  link_call_def rpc_start_def RPCPendingCallsInit_def SemaphorePoolGet_def SemaphorePoolInit_def

lemma sample_sent_reach: "rpc_reach conf careful sample_sent"
proof -
  have "rpc_step conf careful rpc_start (draw_xid (7, 8) rpc_start)"
    by (rule rpc_step.draw) (simp_all add: rpc_start_def)
  from rpc_reach.step [OF rpc_reach.init this] have 1: "rpc_reach conf careful (draw_xid (7, 8) rpc_start)" .
  have "arm_call 1 10 0 (7, 8) (draw_xid (7, 8) rpc_start) = Some sample_armed" by (simp add: sample_start_defs)
  then have "rpc_step conf careful (draw_xid (7, 8) rpc_start) sample_armed"
    by (rule rpc_step.arm) (simp_all add: sample_start_defs own_call_def)
  from rpc_reach.step [OF 1 this] have 2: "rpc_reach conf careful sample_armed" .
  have "enter_call 1 sample_armed = Some sample_sent" by (simp add: sample_start_defs)
  from rpc_reach.step [OF 2 rpc_step.enter [OF this]] show ?thesis .
qed

definition sample_call :: pending_call where
  "sample_call = \<lparr>next_call = None, call_sem = 10, call_addr = (7, 8), call_xid = 0, call_buffer = None\<rparr>"

lemma sample_sent_eq:
  "sample_sent = \<lparr>rs_calls = \<lparr>fFirst = Some 1, calls = [1 \<mapsto> sample_call], fCallPool = SemaphorePoolInit\<rparr>,
     rs_sems = [10 \<mapsto> 0], rs_xid = 1, rs_drawn = [], rs_senders = [1 \<mapsto> (Sent, 0, (7, 8))], rs_post = Receiving,
     rs_received = [], rs_returned = []\<rparr>"
  by (simp add: sample_start_defs sample_call_def)

lemma reply_xid_sample: "reply_xid sample_reply = 0"
  by (simp add: reply_xid_def sample_reply_def from_be32_def)

definition sample_delivering :: rpc_system where
  "sample_delivering = sample_sent\<lparr>rs_calls := \<lparr>fFirst = None, calls = [1 \<mapsto> sample_call], fCallPool = SemaphorePoolInit\<rparr>,
     rs_received := [((7, 8), sample_reply)], rs_post := Delivering 1 sample_reply\<rparr>"

lemma sample_receive: "receive False (7, 8) sample_reply sample_sent = Some sample_delivering"
  by (simp add: receive_def sample_sent_eq reply_xid_sample sample_delivering_def sample_call_def sample_reply_def
      RPCPendingCallsFindAndRemovePendingCall_def find_call.simps call_matches_def)
    (simp add: reply_xid_sample [unfolded sample_reply_def])

lemma sample_delivering_reach: "rpc_reach False careful sample_delivering"
  by (rule rpc_reach.step [OF sample_sent_reach rpc_step.receive [OF sample_receive]])

text \<open>The reply is stored, the thread woken, and the thread returns the buffer.\<close>

definition sample_stored :: rpc_system where
  "sample_stored = the (store_reply sample_delivering)"

definition sample_woken :: rpc_system where
  "sample_woken = the (wake_sender sample_stored)"

definition sample_got :: rpc_system where
  "sample_got = the (acquire_call 1 sample_woken)"

definition sample_returned :: rpc_system where
  "sample_returned = the (finish_call 1 sample_got)"

lemmas sample_run_defs = sample_returned_def sample_got_def sample_woken_def sample_stored_def sample_delivering_def
  sample_sent_eq sample_call_def

lemma sample_stored_step: "store_reply sample_delivering = Some sample_stored"
  by (simp add: sample_run_defs store_reply_def own_call_def)

lemma sample_woken_step: "wake_sender sample_stored = Some sample_woken"
  by (simp add: sample_run_defs store_reply_def wake_sender_def own_call_def)

lemma sample_got_step: "acquire_call 1 sample_woken = Some sample_got"
  by (simp add: sample_run_defs store_reply_def wake_sender_def acquire_call_def own_call_def)

lemma sample_returned_step: "finish_call 1 sample_got = Some sample_returned"
  by (simp add: sample_run_defs store_reply_def wake_sender_def acquire_call_def finish_call_def own_call_def
      SemaphorePoolPut_def SemaphorePoolInit_def)

lemma sample_returned_eq: "rs_returned sample_returned = [(0, (7, 8), Some sample_reply)]"
  using sample_returned_step
  by (auto simp: sample_run_defs store_reply_def wake_sender_def acquire_call_def finish_call_def own_call_def
      SemaphorePoolPut_def SemaphorePoolInit_def)

lemma sample_returned_reach: "rpc_reach False careful sample_returned"
proof -
  note sample_delivering_reach
  from rpc_reach.step [OF this rpc_step.store_reply [OF sample_stored_step]] have "rpc_reach False careful sample_stored" .
  from rpc_reach.step [OF this rpc_step.wake [OF sample_woken_step]] have "rpc_reach False careful sample_woken" .
  from rpc_reach.step [OF this rpc_step.acquire [OF sample_got_step]] have "rpc_reach False careful sample_got" .
  from rpc_reach.step [OF this rpc_step.finish [OF sample_returned_step]] show ?thesis .
qed

lemma rpc_replies_belong_witness:
  "rpc_reach False True sample_returned \<and> (0, (7, 8), Some sample_reply) \<in> set (rs_returned sample_returned) \<and>
    (\<exists>from_addr. (from_addr, sample_reply) \<in> set (rs_received sample_returned) \<and> from_addr = (7, 8))"
  using rpc_replies_belong [OF sample_returned_reach] sample_returned_reach [of True] by (auto simp: sample_returned_eq)

section \<open>A call withdrawn while its reply is delivered\<close>

text \<open>
  Without the assumption on withdrawals: the thread of \<open>sample_delivering\<close> times out, does not find its
  call, which the post office has just removed, and frees it; the post office then writes to freed memory.
\<close>

lemma post_office_uses_freed_call:
  "\<exists>s. rpc_reach False False s \<and> rs_post s = Fault"
proof -
  define s1 where "s1 = the (time_out 1 sample_delivering)"
  define s2 where "s2 = the (withdraw_call False 1 s1)"
  define s3 where "s3 = the (clean_call 1 s2)"
  define s4 where "s4 = the (store_reply s3)"
  note defs = s1_def s2_def s3_def s4_def sample_delivering_def sample_sent_eq sample_call_def time_out_def withdraw_call_def
    RPCPendingCallsFindAndRemovePendingCall_def find_call.simps clean_call_def own_call_def free_call_def store_reply_def
  have 1: "time_out 1 sample_delivering = Some s1" by (simp add: defs)
  have 2: "withdraw_call False 1 s1 = Some s2" by (simp add: defs)
  have 3: "clean_call 1 s2 = Some s3" by (simp add: defs)
  have 4: "store_reply s3 = Some s4" by (simp add: defs)
  have f: "rs_post s4 = Fault" by (simp add: defs)
  note sample_delivering_reach [of False]
  from rpc_reach.step [OF this rpc_step.late [OF 1]] have "rpc_reach False False s1" .
  from rpc_reach.step [OF this rpc_step.withdraw [OF 2]] have "rpc_reach False False s2" by simp
  from rpc_reach.step [OF this rpc_step.clean [OF 3]] have "rpc_reach False False s3" .
  from rpc_reach.step [OF this rpc_step.store_reply [OF 4]] f show ?thesis by blast
qed

end
