(* ===== verification/I2c.thy ===== *)
theory I2c
  imports Prelude "HOL-Library.Monad_Syntax"
begin

unbundle bit_operations_syntax

text \<open>
  The I2C protocol of the graphics drivers, \<^verbatim>\<open>src/add-ons/accelerants/common/i2c.c\<close>, by which they talk to
  the monitor. The two signals are set and read through the callbacks of a driver and the code waits by
  reading the system clock: those are the fields of \<open>i2c_bus\<close>, over a state \<open>'w\<close> of the world. A
  result is the status with the world after it; \<open>None\<close> is a loop that never ends. The protocol is
  specified by a monitor that listens on the wire.
\<close>

section \<open>The bus\<close>

record i2c_timing =
  buf :: int
  hd_sta :: int
  low :: int
  high :: int
  su_sta :: int
  hd_dat :: int
  su_dat :: int
  rise :: int
  fall :: int
  su_sto :: int
  start_timeout :: int
  byte_timeout :: int
  bit_timeout :: int
  ack_start_timeout :: int
  ack_timeout :: int

definition kTiming100k :: i2c_timing where
  "kTiming100k = \<lparr>buf = 5, hd_sta = 4, low = 5, high = 4, su_sta = 5, hd_dat = 1, su_dat = 2, rise = 2, fall = 2, su_sto = 4,
     start_timeout = 5, byte_timeout = 5, bit_timeout = 5, ack_start_timeout = 5, ack_timeout = 5\<rparr>"

definition kTiming400k :: i2c_timing where
  "kTiming400k = \<lparr>buf = 2, hd_sta = 1, low = 2, high = 1, su_sta = 1, hd_dat = 0, su_dat = 1, rise = 1, fall = 1, su_sto = 1,
     start_timeout = 2, byte_timeout = 2, bit_timeout = 2, ack_start_timeout = 2, ack_timeout = 2\<rparr>"

text \<open>
  The callbacks, whose status the code ignores, and the clock in microseconds. The last field is the driver's
  own routine for a whole transfer, if it has one: from the buffer as it is before to the buffer after it.
\<close>

record 'w i2c_bus =
  timing :: i2c_timing
  set_signals :: "int \<Rightarrow> int \<Rightarrow> 'w \<Rightarrow> 'w"
  get_signals :: "'w \<Rightarrow> (int \<times> int) \<times> 'w"
  system_time :: "'w \<Rightarrow> int \<times> 'w"
  send_receive :: "(uint32 \<Rightarrow> uint8 list \<Rightarrow> uint8 list \<Rightarrow> 'w \<Rightarrow> (status_t \<times> uint8 list \<times> 'w) option) option"

section \<open>Waiting\<close>

partial_function (option) spin_loop :: "'w i2c_bus \<Rightarrow> int \<times> int \<Rightarrow> 'w \<Rightarrow> 'w option" where
  "spin_loop bus c w =
     (case c of (startTime, delay) \<Rightarrow>
        let (t, w1) = system_time bus w in if t - startTime < delay then spin_loop bus c w1 else Some w1)"

definition spin :: "'w i2c_bus \<Rightarrow> int \<Rightarrow> 'w \<Rightarrow> 'w option" where
  "spin bus delay w = (let (startTime, w1) = system_time bus w in spin_loop bus (startTime, delay) w1)"

partial_function (option) clk_loop :: "'w i2c_bus \<Rightarrow> int \<times> int \<Rightarrow> 'w \<Rightarrow> (status_t \<times> 'w) option" where
  "clk_loop bus c w =
     (case c of (startTime, timeout) \<Rightarrow>
        let ((clk, data), w1) = get_signals bus w
        in if clk \<noteq> 0 then Some (B_OK, w1)
           else
             let (t, w2) = system_time bus w1
             in if t - startTime > timeout then Some (B_TIMEOUT, w2)
                else Option.bind (spin bus (rise (timing bus)) w2) (clk_loop bus c))"

definition wait_for_clk :: "'w i2c_bus \<Rightarrow> int \<Rightarrow> 'w \<Rightarrow> (status_t \<times> 'w) option" where
  "wait_for_clk bus timeout w = do {
     w1 \<leftarrow> spin bus (rise (timing bus)) w;
     let (startTime, w2) = system_time bus w1;
     clk_loop bus (startTime, timeout) w2
   }"

section \<open>Conditions and bits\<close>

definition send_start_condition :: "'w i2c_bus \<Rightarrow> 'w \<Rightarrow> (status_t \<times> 'w) option" where
  "send_start_condition bus w = do {
     let w = set_signals bus 1 1 w;
     (status, w) \<leftarrow> wait_for_clk bus (start_timeout (timing bus)) w;
     if status \<noteq> B_OK then Some (status, w)
     else do {
       w \<leftarrow> spin bus (su_sta (timing bus)) w;
       let w = set_signals bus 1 0 w;
       w \<leftarrow> spin bus (hd_sta (timing bus)) w;
       let w = set_signals bus 0 0 w;
       w \<leftarrow> spin bus (fall (timing bus)) w;
       Some (B_OK, w)
     }
   }"

definition send_stop_condition :: "'w i2c_bus \<Rightarrow> 'w \<Rightarrow> (status_t \<times> 'w) option" where
  "send_stop_condition bus w = do {
     let w = set_signals bus 0 0 w;
     w \<leftarrow> spin bus (rise (timing bus)) w;
     let w = set_signals bus 1 0 w;
     (status, w) \<leftarrow> wait_for_clk bus (ack_timeout (timing bus)) w;
     if status \<noteq> B_OK then Some (status, w)
     else do {
       w \<leftarrow> spin bus (su_sto (timing bus)) w;
       let w = set_signals bus 1 1 w;
       w \<leftarrow> spin bus (buf (timing bus)) w;
       Some (B_OK, w)
     }
   }"

definition send_bit :: "'w i2c_bus \<Rightarrow> uint8 \<Rightarrow> int \<Rightarrow> 'w \<Rightarrow> (status_t \<times> 'w) option" where
  "send_bit bus b timeout w = do {
     let level = uint (b AND 1);
     let w = set_signals bus 0 level w;
     w \<leftarrow> spin bus (su_dat (timing bus)) w;
     let w = set_signals bus 1 level w;
     (status, w) \<leftarrow> wait_for_clk bus timeout w;
     if status \<noteq> B_OK then Some (status, w)
     else do {
       w \<leftarrow> spin bus (high (timing bus)) w;
       let w = set_signals bus 0 level w;
       w \<leftarrow> spin bus (fall (timing bus) + low (timing bus)) w;
       Some (B_OK, w)
     }
   }"

text \<open>Waiting for the slave to pull the data line down.\<close>

partial_function (option) ack_loop :: "'w i2c_bus \<Rightarrow> int \<Rightarrow> 'w \<Rightarrow> (status_t \<times> 'w) option" where
  "ack_loop bus startTime w =
     (let ((clk, data), w1) = get_signals bus w
      in if data = 0 then Some (B_OK, w1)
         else
           let (t, w2) = system_time bus w1
           in if t - startTime > ack_timeout (timing bus) then Some (B_TIMEOUT, w2)
              else Option.bind (spin bus (rise (timing bus)) w2) (ack_loop bus startTime))"

definition send_acknowledge :: "'w i2c_bus \<Rightarrow> 'w \<Rightarrow> (status_t \<times> 'w) option" where
  "send_acknowledge bus w = do {
     let w = set_signals bus 0 1 w;
     w \<leftarrow> spin bus (su_dat (timing bus)) w;
     let w = set_signals bus 1 1 w;
     (status, w) \<leftarrow> wait_for_clk bus (ack_start_timeout (timing bus)) w;
     if status \<noteq> B_OK then Some (status, w)
     else do {
       let (startTime, w) = system_time bus w;
       (status, w) \<leftarrow> ack_loop bus startTime w;
       if status \<noteq> B_OK then Some (status, w)
       else do {
         w \<leftarrow> spin bus (high (timing bus)) w;
         let w = set_signals bus 0 1 w;
         w \<leftarrow> spin bus (fall (timing bus) + low (timing bus)) w;
         Some (B_OK, w)
       }
     }
   }"

section \<open>Bytes\<close>

text \<open>The loop over the bits, from number \<open>n - 1\<close> down to 0.\<close>

fun send_bits :: "'w i2c_bus \<Rightarrow> uint8 \<Rightarrow> nat \<Rightarrow> 'w \<Rightarrow> (status_t \<times> 'w) option" where
  "send_bits bus b 0 w = Some (B_OK, w)"
| "send_bits bus b (Suc i) w = do {
     (status, w) \<leftarrow> send_bit bus (drop_bit i b) (if i = 7 then byte_timeout (timing bus) else bit_timeout (timing bus)) w;
     if status \<noteq> B_OK then Some (status, w) else send_bits bus b i w
   }"

definition send_byte :: "'w i2c_bus \<Rightarrow> uint8 \<Rightarrow> bool \<Rightarrow> 'w \<Rightarrow> (status_t \<times> 'w) option" where
  "send_byte bus b acknowledge w = do {
     (status, w) \<leftarrow> send_bits bus b 8 w;
     if status \<noteq> B_OK then Some (status, w)
     else if acknowledge then send_acknowledge bus w
     else Some (B_OK, w)
   }"

definition first_byte :: "uint8 \<Rightarrow> bool \<Rightarrow> uint8" where
  "first_byte slaveAddress isWrite = (slaveAddress AND 0xfe) OR (if isWrite then 0 else 1)"

definition send_slave_address :: "'w i2c_bus \<Rightarrow> uint8 \<Rightarrow> bool \<Rightarrow> 'w \<Rightarrow> (status_t \<times> 'w) option" where
  "send_slave_address bus slaveAddress isWrite w = do {
     (status, w) \<leftarrow> send_byte bus (first_byte slaveAddress isWrite) True w;
     if status \<noteq> B_OK then Some (status, w)
     else if slaveAddress AND 0xff \<noteq> 0 \<and> slaveAddress AND 0xf8 \<noteq> 0xf0 then Some (B_OK, w)
     else send_byte bus (drop_bit 8 slaveAddress) True w
   }"

definition receive_bit :: "'w i2c_bus \<Rightarrow> int \<Rightarrow> 'w \<Rightarrow> (status_t \<times> bool \<times> 'w) option" where
  "receive_bit bus timeout w = do {
     let w = set_signals bus 1 1 w;
     (status, w) \<leftarrow> wait_for_clk bus timeout w;
     if status \<noteq> B_OK then Some (status, False, w)
     else do {
       let ((clk, data), w) = get_signals bus w;
       w \<leftarrow> spin bus (high (timing bus)) w;
       let w = set_signals bus 0 1 w;
       w \<leftarrow> spin bus (fall (timing bus) + low (timing bus)) w;
       Some (B_OK, data \<noteq> 0, w)
     }
   }"

fun receive_bits :: "'w i2c_bus \<Rightarrow> uint8 \<Rightarrow> nat \<Rightarrow> 'w \<Rightarrow> (status_t \<times> uint8 \<times> 'w) option" where
  "receive_bits bus acc 0 w = Some (B_OK, acc, w)"
| "receive_bits bus acc (Suc i) w = do {
     (status, b, w) \<leftarrow> receive_bit bus (if i = 7 then byte_timeout (timing bus) else bit_timeout (timing bus)) w;
     if status \<noteq> B_OK then Some (status, acc, w)
     else receive_bits bus (push_bit 1 acc OR of_bool b) i w
   }"

text \<open>The byte is stored before the acknowledge is sent.\<close>

definition receive_byte :: "'w i2c_bus \<Rightarrow> bool \<Rightarrow> 'w \<Rightarrow> (status_t \<times> uint8 option \<times> 'w) option" where
  "receive_byte bus acknowledge w = do {
     let w = set_signals bus 0 1 w;
     (status, b, w) \<leftarrow> receive_bits bus 0 8 w;
     if status \<noteq> B_OK then Some (status, None, w)
     else do {
       (status, w) \<leftarrow> send_bit bus (if acknowledge then 0 else 1) (bit_timeout (timing bus)) w;
       Some (status, Some b, w)
     }
   }"

fun send_bytes :: "'w i2c_bus \<Rightarrow> uint8 list \<Rightarrow> 'w \<Rightarrow> (status_t \<times> 'w) option" where
  "send_bytes bus [] w = Some (B_OK, w)"
| "send_bytes bus (b # bs) w = do {
     (status, w) \<leftarrow> send_byte bus b True w;
     if status \<noteq> B_OK then Some (status, w) else send_bytes bus bs w
   }"

text \<open>The bytes are those stored in the buffer.\<close>

fun receive_bytes :: "'w i2c_bus \<Rightarrow> nat \<Rightarrow> 'w \<Rightarrow> (status_t \<times> uint8 list \<times> 'w) option" where
  "receive_bytes bus 0 w = Some (B_OK, [], w)"
| "receive_bytes bus (Suc n) w = do {
     (status, b, w) \<leftarrow> receive_byte bus (n > 0) w;
     if status \<noteq> B_OK then Some (status, (case b of None \<Rightarrow> [] | Some x \<Rightarrow> [x]), w)
     else do {
       (status, bs, w) \<leftarrow> receive_bytes bus n w;
       Some (status, the b # bs, w)
     }
   }"

section \<open>Transfers\<close>

text \<open>An error cancels the transmission with a stop condition, whose own status is ignored.\<close>

definition cancel :: "'w i2c_bus \<Rightarrow> status_t \<Rightarrow> uint8 list \<Rightarrow> 'w \<Rightarrow> (status_t \<times> uint8 list \<times> 'w) option" where
  "cancel bus status got w = map_option (\<lambda>(ignored, w). (status, got, w)) (send_stop_condition bus w)"

definition i2c_send_receive_callback ::
    "'w i2c_bus \<Rightarrow> uint32 \<Rightarrow> uint8 list \<Rightarrow> nat \<Rightarrow> 'w \<Rightarrow> (status_t \<times> uint8 list \<times> 'w) option" where
  "i2c_send_receive_callback bus slaveAddress writeBuffer readLength w =
     (let slaveAddress = push_bit 1 slaveAddress
      in if slaveAddress > 0xff then Some (B_BAD_VALUE, [], w)
      else do {
        (status, w) \<leftarrow> send_start_condition bus w;
        if status \<noteq> B_OK then Some (status, [], w)
        else do {
          (status, w) \<leftarrow> send_slave_address bus (ucast slaveAddress) True w;
          if status \<noteq> B_OK then cancel bus status [] w
          else do {
            (status, w) \<leftarrow> send_bytes bus writeBuffer w;
            if status \<noteq> B_OK then cancel bus status [] w
            else do {
              (status, w) \<leftarrow> send_start_condition bus w;
              if status \<noteq> B_OK then Some (status, [], w)
              else do {
                (status, w) \<leftarrow> send_slave_address bus (ucast slaveAddress) False w;
                if status \<noteq> B_OK then cancel bus status [] w
                else do {
                  (status, got, w) \<leftarrow> receive_bytes bus readLength w;
                  if status \<noteq> B_OK then cancel bus status got w
                  else map_option (\<lambda>(status, w). (status, got, w)) (send_stop_condition bus w)
                }
              }
            }
          }
        }
      })"

definition i2c_get100k_timing :: "i2c_timing" where
  "i2c_get100k_timing = kTiming100k"

definition i2c_get400k_timing :: "i2c_timing" where
  "i2c_get400k_timing = kTiming400k"


section \<open>Waiting ends\<close>

text \<open>
  The clock shows microseconds of a finer time \<open>now\<close>, in nanoseconds, which goes on at every reading of
  the clock and never back.
\<close>

definition clock_runs :: "'w i2c_bus \<Rightarrow> ('w \<Rightarrow> int) \<Rightarrow> bool" where
  "clock_runs bus now \<longleftrightarrow>
     (\<forall>w. fst (system_time bus w) = now w div 1000 \<and> now w < now (snd (system_time bus w))) \<and>
     (\<forall>w. now w \<le> now (snd (get_signals bus w))) \<and> (\<forall>c d w. now w \<le> now (set_signals bus c d w))"

definition ticking :: "'w i2c_bus \<Rightarrow> bool" where
  "ticking bus \<longleftrightarrow> (\<exists>now. clock_runs bus now)"

lemma clock_time:
  "clock_runs bus now \<Longrightarrow> system_time bus w = (t, w1) \<Longrightarrow> t = now w div 1000 \<and> now w < now w1"
  unfolding clock_runs_def by (metis fst_conv snd_conv)

lemma clock_get: "clock_runs bus now \<Longrightarrow> get_signals bus w = (x, w1) \<Longrightarrow> now w \<le> now w1"
  unfolding clock_runs_def by (metis snd_conv)

lemma shown_time: "now div 1000 < t \<Longrightarrow> now < t * 1000" for now t :: int
  by linarith

lemma spin_loop_ends:
  assumes "clock_runs bus now"
  shows "\<exists>w'. spin_loop bus (startTime, delay) w = Some w' \<and> now w \<le> now w'"
proof (induction "nat ((startTime + delay) * 1000 - now w)" arbitrary: w rule: less_induct)
  case less
  obtain t w1 where t: "system_time bus w = (t, w1)" by fastforce
  from clock_time [OF assms this] have c: "t = now w div 1000" "now w < now w1" by auto
  show ?case
  proof (cases "t - startTime < delay")
    case True
    with c(1) have "now w < (startTime + delay) * 1000" by (intro shown_time) simp
    with c(2) have "nat ((startTime + delay) * 1000 - now w1) < nat ((startTime + delay) * 1000 - now w)" by simp
    from less [OF this] c(2) True t show ?thesis by (subst spin_loop.simps) auto
  next
    case False
    with t c(2) show ?thesis by (subst spin_loop.simps) auto
  qed
qed

lemma spin_ends:
  assumes "clock_runs bus now"
  shows "\<exists>w'. spin bus delay w = Some w' \<and> now w \<le> now w'"
proof -
  obtain t w1 where t: "system_time bus w = (t, w1)" by fastforce
  from spin_loop_ends [OF assms, of t delay w1] clock_time [OF assms t] t show ?thesis by (auto simp: spin_def)
qed

text \<open>
  A loop that returns, or finds that its time is over, or spins and goes round again, ends.
\<close>

lemma polling_ends:
  assumes "clock_runs bus now"
    and round: "\<And>w. loop w = (case check w of (Some r, w1) \<Rightarrow> Some (r, w1)
      | (None, w1) \<Rightarrow> let (t, w2) = system_time bus w1
          in if t - startTime > timeout then Some (B_TIMEOUT, w2) else Option.bind (spin bus d w2) loop)"
    and mono: "\<And>w. now w \<le> now (snd (check w))"
  shows "loop w \<noteq> None"
proof (induction "nat ((startTime + timeout + 1) * 1000 - now w)" arbitrary: w rule: less_induct)
  case less
  obtain r w1 where r: "check w = (r, w1)" by fastforce
  from mono [of w] r have w1: "now w \<le> now w1" by simp
  obtain t w2 where t: "system_time bus w1 = (t, w2)" by fastforce
  from clock_time [OF assms(1) this] have c: "t = now w1 div 1000" "now w1 < now w2" by auto
  from spin_ends [OF assms(1), of d w2] obtain w3 where s: "spin bus d w2 = Some w3" "now w2 \<le> now w3" by blast
  show ?case
  proof (cases "r = None \<and> \<not> t - startTime > timeout")
    case True
    with c(1) have "now w1 < (startTime + timeout + 1) * 1000" by (intro shown_time) simp
    with c(2) w1 s(2) have "nat ((startTime + timeout + 1) * 1000 - now w3) < nat ((startTime + timeout + 1) * 1000 - now w)"
      by simp
    from less [OF this] True r t s show ?thesis by (subst round) (simp del: not_None_eq)
  next
    case False
    with r t show ?thesis by (subst round) (auto split: option.split)
  qed
qed

lemma spin_ticking: "ticking bus \<Longrightarrow> spin bus delay w \<noteq> None"
  using spin_ends unfolding ticking_def by fastforce

lemma clk_loop_ticking:
  assumes "ticking bus"
  shows "clk_loop bus (startTime, timeout) w \<noteq> None"
proof -
  from assms obtain now where now: "clock_runs bus now" by (auto simp: ticking_def)
  define check where "check = (\<lambda>w. let ((clk, data), w1) = get_signals bus w in (if clk \<noteq> 0 then Some B_OK else None, w1))"
  show ?thesis
  proof (rule polling_ends [OF now, where check = check and d = "rise (timing bus)"])
    show "now w \<le> now (snd (check w))" for w
      using now by (auto simp: check_def clock_runs_def split: prod.splits) (metis snd_conv)
  qed (subst clk_loop.simps, auto simp: check_def split: prod.splits)
qed

lemma ack_loop_ticking:
  assumes "ticking bus"
  shows "ack_loop bus startTime w \<noteq> None"
proof -
  from assms obtain now where now: "clock_runs bus now" by (auto simp: ticking_def)
  define check where "check = (\<lambda>w. let ((clk, data), w1) = get_signals bus w in (if data = 0 then Some B_OK else None, w1))"
  show ?thesis
  proof (rule polling_ends [OF now, where check = check and d = "rise (timing bus)"])
    show "now w \<le> now (snd (check w))" for w
      using now by (auto simp: check_def clock_runs_def split: prod.splits) (metis snd_conv)
  qed (subst ack_loop.simps, auto simp: check_def split: prod.splits)
qed

lemma bind_ends: "m \<noteq> None \<Longrightarrow> (\<And>x. m = Some x \<Longrightarrow> f x \<noteq> None) \<Longrightarrow> Option.bind m f \<noteq> None"
  by (cases m) auto

lemma wait_ticking: "ticking bus \<Longrightarrow> wait_for_clk bus timeout w \<noteq> None"
  unfolding wait_for_clk_def
  by (rule bind_ends [OF spin_ticking]) (auto simp: clk_loop_ticking split: prod.split simp del: not_None_eq)

named_theorems ends "that an operation returns when the clock runs"
declare spin_ticking [ends] wait_ticking [ends] ack_loop_ticking [ends]

lemma start_condition_ends [ends]: "ticking bus \<Longrightarrow> send_start_condition bus w \<noteq> None"
  by (auto simp: send_start_condition_def Let_def ends bind_eq_None_conv simp del: not_None_eq split: prod.splits)

lemma stop_condition_ends [ends]: "ticking bus \<Longrightarrow> send_stop_condition bus w \<noteq> None"
  by (auto simp: send_stop_condition_def Let_def ends bind_eq_None_conv simp del: not_None_eq split: prod.splits)

lemma send_bit_ends [ends]: "ticking bus \<Longrightarrow> send_bit bus b timeout w \<noteq> None"
  by (auto simp: send_bit_def Let_def ends bind_eq_None_conv simp del: not_None_eq split: prod.splits)

lemma acknowledge_ends [ends]: "ticking bus \<Longrightarrow> send_acknowledge bus w \<noteq> None"
  by (auto simp: send_acknowledge_def Let_def ends bind_eq_None_conv simp del: not_None_eq split: prod.splits)

lemma send_bits_ends [ends]: "ticking bus \<Longrightarrow> send_bits bus b n w \<noteq> None"
  by (induction n arbitrary: w) (auto simp: ends bind_eq_None_conv simp del: not_None_eq split: prod.splits)

lemma send_byte_ends [ends]: "ticking bus \<Longrightarrow> send_byte bus b a w \<noteq> None"
  by (auto simp: send_byte_def ends bind_eq_None_conv simp del: not_None_eq split: prod.splits)

lemma slave_address_ends [ends]: "ticking bus \<Longrightarrow> send_slave_address bus a wr w \<noteq> None"
  by (auto simp: send_slave_address_def ends bind_eq_None_conv simp del: not_None_eq split: prod.splits)

lemma receive_bit_ends [ends]: "ticking bus \<Longrightarrow> receive_bit bus timeout w \<noteq> None"
  by (auto simp: receive_bit_def Let_def ends bind_eq_None_conv simp del: not_None_eq split: prod.splits)

lemma receive_bits_ends [ends]: "ticking bus \<Longrightarrow> receive_bits bus b n w \<noteq> None"
  by (induction n arbitrary: b w) (auto simp: ends bind_eq_None_conv simp del: not_None_eq split: prod.splits)

lemma receive_byte_ends [ends]: "ticking bus \<Longrightarrow> receive_byte bus a w \<noteq> None"
  by (auto simp: receive_byte_def Let_def ends bind_eq_None_conv simp del: not_None_eq split: prod.splits)

lemma send_bytes_ends [ends]: "ticking bus \<Longrightarrow> send_bytes bus bs w \<noteq> None"
  by (induction bs arbitrary: w) (auto simp: ends bind_eq_None_conv simp del: not_None_eq split: prod.splits)

lemma receive_bytes_ends [ends]: "ticking bus \<Longrightarrow> receive_bytes bus n w \<noteq> None"
  by (induction n arbitrary: w) (auto simp: ends bind_eq_None_conv simp del: not_None_eq split: prod.splits)

lemma cancel_ends [ends]: "ticking bus \<Longrightarrow> cancel bus status got w \<noteq> None"
  using stop_condition_ends by (auto simp: cancel_def)

lemma transfer_ends: "ticking bus \<Longrightarrow> i2c_send_receive_callback bus a out n w \<noteq> None"
  by (auto simp: i2c_send_receive_callback_def Let_def ends bind_eq_None_conv simp del: not_None_eq split: prod.splits)


section \<open>Listening on the wire\<close>

text \<open>What happens on the bus: the master drives levels, or sees levels, which a slave may pull low.\<close>

datatype wire = Drive bool bool | See bool

text \<open>
  A byte on the bus: what the master drove and what it saw last while the clock was high, bit for bit,
  and the same for the acknowledge bit.
\<close>

datatype frame = Start | Stop | Byte uint8 uint8 bool bool

text \<open>
  The monitor knows the driven levels of clock and data, the levels of the bit of a clock that is high, and
  the bits of the byte so far. A change of data under a high clock is a condition, else the level counts
  as a bit when the clock falls.
\<close>

type_synonym monitor = "(bool \<times> bool) \<times> (bool \<times> bool) option \<times> (bool \<times> bool) list"

definition byte_of :: "bool list \<Rightarrow> uint8" where
  "byte_of bs = fold (\<lambda>b acc. push_bit 1 acc OR of_bool b) bs 0"

definition add_bit :: "bool \<times> bool \<Rightarrow> (bool \<times> bool) list \<Rightarrow> frame list \<times> (bool \<times> bool) list" where
  "add_bit b acc = (if length acc < 8 then ([], acc @ [b]) else ([Byte (byte_of (map fst acc)) (byte_of (map snd acc)) (fst b) (snd b)], []))"

fun listen :: "monitor \<Rightarrow> wire \<Rightarrow> frame list \<times> monitor" where
  "listen ((c, d), p, acc) (See s) = ([], (c, d), map_option (\<lambda>(b, s'). (b, s)) p, acc)"
| "listen ((c, d), p, acc) (Drive c' d') =
     (if c \<and> c' then
        (if d = d' then ([], (c', d'), p, acc) else ([if d then Start else Stop], (c', d'), None, []))
      else if c' then ([], (c', d'), Some (d', d'), acc)
      else case p of None \<Rightarrow> ([], (c', d'), None, acc) | Some b \<Rightarrow> (case add_bit b acc of (fs, acc') \<Rightarrow> (fs, (c', d'), None, acc')))"

fun hear :: "monitor \<Rightarrow> wire list \<Rightarrow> frame list \<times> monitor" where
  "hear m [] = ([], m)"
| "hear m (x # xs) = (let (fs, m1) = listen m x; (gs, m2) = hear m1 xs in (fs @ gs, m2))"

lemma hear_append:
  "hear m (xs @ ys) = (let (fs, m1) = hear m xs; (gs, m2) = hear m1 ys in (fs @ gs, m2))"
  by (induction xs arbitrary: m) (auto split: prod.split)

text \<open>A log of the bus: a part of the world that records the calls of the callbacks.\<close>

definition logs :: "'w i2c_bus \<Rightarrow> ('w \<Rightarrow> wire list) \<Rightarrow> bool" where
  "logs bus log \<longleftrightarrow>
     (\<forall>c d w. log (set_signals bus c d w) = log w @ [Drive (c \<noteq> 0) (d \<noteq> 0)]) \<and>
     (\<forall>w clk data w'. get_signals bus w = ((clk, data), w') \<longrightarrow> log w' = log w @ [See (data \<noteq> 0)]) \<and>
     (\<forall>w t w'. system_time bus w = (t, w') \<longrightarrow> log w' = log w)"

text \<open>From one world and state of the monitor to another, the monitor hears some frames.\<close>

definition plays :: "('w \<Rightarrow> wire list) \<Rightarrow> 'w \<Rightarrow> monitor \<Rightarrow> frame list \<Rightarrow> 'w \<Rightarrow> monitor \<Rightarrow> bool" where
  "plays log w m fs w' m' \<longleftrightarrow> (\<exists>xs. log w' = log w @ xs \<and> hear m xs = (fs, m'))"

lemma plays_trans: "plays log w m fs w1 m1 \<Longrightarrow> plays log w1 m1 gs w2 m2 \<Longrightarrow> plays log w m (fs @ gs) w2 m2"
  unfolding plays_def by (auto simp: hear_append)

lemma plays_silent: "plays log w m [] w1 m1 \<Longrightarrow> plays log w1 m1 fs w2 m2 \<Longrightarrow> plays log w m fs w2 m2"
  using plays_trans [of log w m "[]"] by simp

lemma plays_then: "plays log w m fs w1 m1 \<Longrightarrow> plays log w1 m1 [] w2 m2 \<Longrightarrow> plays log w m fs w2 m2"
  using plays_trans [of log w m fs w1 m1 "[]"] by simp

lemma plays_same: "log w' = log w \<Longrightarrow> plays log w m [] w' m"
  by (simp add: plays_def)

lemma plays_drive:
  "logs bus log \<Longrightarrow> listen m (Drive (c \<noteq> 0) (d \<noteq> 0)) = (fs, m') \<Longrightarrow> plays log w m fs (set_signals bus c d w) m'"
  by (auto simp: plays_def logs_def)

text \<open>Spinning is silent; waiting for the clock may change what was last seen of a bit.\<close>

lemma logs_time: "logs bus log \<Longrightarrow> system_time bus w = (t, w') \<Longrightarrow> log w' = log w"
  by (simp add: logs_def)

lemma logs_get: "logs bus log \<Longrightarrow> get_signals bus w = ((clk, data), w') \<Longrightarrow> log w' = log w @ [See (data \<noteq> 0)]"
  by (simp add: logs_def)

lemma spin_loop_silent:
  assumes "logs bus log" "spin_loop bus c w = Some w'"
  shows "log w' = log w"
proof -
  have "bus = bus \<longrightarrow> log w' = log w"
  proof (rule spin_loop.raw_induct [of "\<lambda>bus' c w w'. bus' = bus \<longrightarrow> log w' = log w" bus c w w'], rule impI)
    fix loop bus' c w w'
    assume IH: "\<And>bus' c w w'. loop bus' c w = Some w' \<Longrightarrow> bus' = bus \<longrightarrow> log w' = log w"
      and body: "(case c of (startTime, delay) \<Rightarrow>
        let (t, w1) = system_time bus' w in if t - startTime < delay then loop bus' c w1 else Some w1) = Some w'"
      and b: "bus' = bus"
    obtain t w1 where t: "system_time bus w = (t, w1)" by fastforce
    with assms(1) have "log w1 = log w" by (auto simp: logs_def)
    moreover have "log w' = log w1" using body b t IH [of bus c w1 w'] by (auto split: prod.splits if_splits)
    ultimately show "log w' = log w" by simp
  qed (fact assms(2))
  then show ?thesis by simp
qed

lemma spin_silent: "logs bus log \<Longrightarrow> spin bus delay w = Some w' \<Longrightarrow> log w' = log w"
  using spin_loop_silent logs_time by (cases "system_time bus w") (fastforce simp: spin_def)

lemma clk_loop_sees:
  assumes "logs bus log" "clk_loop bus c w = Some y"
  shows "\<exists>ss. log (snd y) = log w @ map See ss"
proof -
  have "bus = bus \<longrightarrow> (\<exists>ss. log (snd y) = log w @ map See ss)"
  proof (rule clk_loop.raw_induct [of "\<lambda>bus' c w y. bus' = bus \<longrightarrow> (\<exists>ss. log (snd y) = log w @ map See ss)" bus c w y], rule impI)
    fix loop bus' c w y
    assume IH: "\<And>bus' c w y. loop bus' c w = Some y \<Longrightarrow> bus' = bus \<longrightarrow> (\<exists>ss. log (snd y) = log w @ map See ss)"
      and body: "(case c of (startTime, timeout) \<Rightarrow>
        let ((clk, data), w1) = get_signals bus' w
        in if clk \<noteq> 0 then Some (B_OK, w1)
           else
             let (t, w2) = system_time bus' w1
             in if t - startTime > timeout then Some (B_TIMEOUT, w2)
                else Option.bind (spin bus' (rise (timing bus')) w2) (loop bus' c)) = Some y"
      and b: "bus' = bus"
    obtain clk data w1 where g: "get_signals bus w = ((clk, data), w1)" by (metis surj_pair)
    obtain t w2 where t: "system_time bus w1 = (t, w2)" by fastforce
    from assms(1) g t have l: "log w1 = log w @ map See [data \<noteq> 0]" "log w2 = log w @ map See [data \<noteq> 0]"
      by (simp_all add: logs_def)
    obtain st tm where c: "c = (st, tm)" by fastforce
    show "\<exists>ss. log (snd y) = log w @ map See ss"
    proof (cases "clk \<noteq> 0 \<or> t - st > tm")
      case True
      with body b g t c have "y = (B_OK, w1) \<or> y = (B_TIMEOUT, w2)" by (auto split: if_splits)
      with l show ?thesis by (metis snd_conv)
    next
      case False
      with body b g t c obtain w3 where s: "spin bus (rise (timing bus)) w2 = Some w3" "loop bus c w3 = Some y"
        by (auto simp: bind_eq_Some_conv)
      from IH [OF s(2)] obtain ss where "log (snd y) = log w3 @ map See ss" by blast
      with l spin_silent [OF assms(1) s(1)] have "log (snd y) = log w @ map See ((data \<noteq> 0) # ss)" by simp
      then show ?thesis by blast
    qed
  qed (fact assms(2))
  then show ?thesis by simp
qed

lemma ack_loop_sees:
  assumes "logs bus log" "ack_loop bus st w = Some y"
  shows "fst y = B_OK \<longrightarrow> (\<exists>ss. log (snd y) = log w @ map See (ss @ [False]))"
proof -
  have "bus = bus \<longrightarrow> fst y = B_OK \<longrightarrow> (\<exists>ss. log (snd y) = log w @ map See (ss @ [False]))"
  proof (rule ack_loop.raw_induct [of "\<lambda>bus' c w y. bus' = bus \<longrightarrow> fst y = B_OK \<longrightarrow> (\<exists>ss. log (snd y) = log w @ map See (ss @ [False]))"
      bus st w y], intro impI)
    fix loop bus' st w y
    assume IH: "\<And>bus' c w y. loop bus' c w = Some y \<Longrightarrow>
        bus' = bus \<longrightarrow> fst y = B_OK \<longrightarrow> (\<exists>ss. log (snd y) = log w @ map See (ss @ [False]))"
      and body: "(let ((clk, data), w1) = get_signals bus' w
        in if data = 0 then Some (B_OK, w1)
         else
           let (t, w2) = system_time bus' w1
           in if t - st > ack_timeout (timing bus') then Some (B_TIMEOUT, w2)
              else Option.bind (spin bus' (rise (timing bus')) w2) (loop bus' st)) = Some y"
      and b: "bus' = bus" and ok: "fst y = B_OK"
    obtain clk data w1 where g: "get_signals bus w = ((clk, data), w1)" by (metis surj_pair)
    obtain t w2 where t: "system_time bus w1 = (t, w2)" by fastforce
    from assms(1) g t have l: "log w1 = log w @ map See [data \<noteq> 0]" "log w2 = log w @ map See [data \<noteq> 0]"
      by (simp_all add: logs_def)
    show "\<exists>ss. log (snd y) = log w @ map See (ss @ [False])"
    proof (cases "data = 0")
      case True
      with body b g have "y = (B_OK, w1)" by simp
      with l True have "log (snd y) = log w @ map See ([] @ [False])" by simp
      then show ?thesis by blast
    next
      case False
      with body b g t ok obtain w3 where s: "spin bus (rise (timing bus)) w2 = Some w3" "loop bus st w3 = Some y"
        by (auto simp: bind_eq_Some_conv split: if_splits)
      from IH [OF s(2)] ok obtain ss where "log (snd y) = log w3 @ map See (ss @ [False])" by blast
      with l spin_silent [OF assms(1) s(1)] have "log (snd y) = log w @ map See (((data \<noteq> 0) # ss) @ [False])" by simp
      then show ?thesis by blast
    qed
  qed (fact assms(2))
  with assms show ?thesis by simp
qed

lemma hear_sees:
  "hear ((c, d), p, acc) (map See ss) = ([], (c, d), map_option (\<lambda>(b, s). (b, last (s # ss))) p, acc)"
proof (induction ss arbitrary: p)
  case Nil
  show ?case by (cases p) auto
next
  case (Cons s ss)
  then show ?case by (cases p) auto
qed

lemma wait_sees:
  assumes "logs bus log" "wait_for_clk bus timeout w = Some (status, w')"
  shows "\<exists>ss. log w' = log w @ map See ss"
proof -
  from assms(2) obtain w1 where s1: "spin bus (rise (timing bus)) w = Some w1"
    by (auto simp: wait_for_clk_def bind_eq_Some_conv)
  obtain st w2 where s2: "system_time bus w1 = (st, w2)" by fastforce
  with s1 assms(2) have "clk_loop bus (st, timeout) w2 = Some (status, w')" by (simp add: wait_for_clk_def)
  note s = s1 s2 this
  from s(2) assms(1) have "log w2 = log w1" by (simp add: logs_def)
  with spin_silent [OF assms(1) s(1)] clk_loop_sees [OF assms(1) s(3)] show ?thesis by simp
qed

lemma spin_plays: "logs bus log \<Longrightarrow> spin bus delay w = Some w' \<Longrightarrow> plays log w m [] w' m"
  by (rule plays_same) (rule spin_silent)

lemma wait_plays:
  assumes "logs bus log" "wait_for_clk bus timeout w = Some (status, w')"
  shows "plays log w ((c, d), None, acc) [] w' ((c, d), None, acc)"
    "\<exists>s'. plays log w ((c, d), Some (b, s), acc) [] w' ((c, d), Some (b, s'), acc)"
  using wait_sees [OF assms] by (auto simp: plays_def hear_sees)

section \<open>What each operation puts on the wire\<close>

text \<open>Between two bits the clock is low.\<close>

abbreviation idle :: monitor where
  "idle \<equiv> ((True, True), None, [])"

abbreviation between :: "bool \<Rightarrow> (bool \<times> bool) list \<Rightarrow> monitor" where
  "between d acc \<equiv> ((False, d), None, acc)"

lemma start_plays:
  assumes l: "logs bus log" and m: "m = idle \<or> (\<exists>d acc. m = between d acc)"
    and run: "send_start_condition bus w = Some (B_OK, w')"
  shows "plays log w m [Start] w' (between False [])"
proof -
  let ?w1 = "set_signals bus 1 1 w"
  from run obtain w2 w3 w4 where r: "wait_for_clk bus (start_timeout (timing bus)) ?w1 = Some (B_OK, w2)"
    "spin bus (su_sta (timing bus)) w2 = Some w3" "spin bus (hd_sta (timing bus)) (set_signals bus 1 0 w3) = Some w4"
    "spin bus (fall (timing bus)) (set_signals bus 0 0 w4) = Some w'"
    by (auto simp: send_start_condition_def Let_def bind_eq_Some_conv split: if_splits)

  have "\<exists>p acc. plays log w m [] w2 ((True, True), p, acc)"
    using m
  proof (elim disjE exE)
    assume "m = idle"
    with plays_drive [OF l, of m 1 1 "[]" idle w] have "plays log w m [] ?w1 idle" by simp
    from plays_silent [OF this wait_plays(1) [OF l r(1)]] show ?thesis by blast
  next
    fix d acc assume "m = between d acc"
    with plays_drive [OF l, of m 1 1 "[]" "((True, True), Some (True, True), acc)" w]
    have "plays log w m [] ?w1 ((True, True), Some (True, True), acc)" by simp
    with wait_plays(2) [OF l r(1)] show ?thesis by (meson plays_silent)
  qed
  then obtain p acc where 1: "plays log w m [] w2 ((True, True), p, acc)" by blast
  have 2: "plays log w3 ((True, True), p, acc) [Start] (set_signals bus 1 0 w3) ((True, False), None, [])"
    by (rule plays_drive [OF l]) simp
  have 3: "plays log w4 ((True, False), None, []) [] (set_signals bus 0 0 w4) (between False [])"
    by (rule plays_drive [OF l]) simp
  note spins = r(2-4) [THEN spin_plays [OF l]]
  from plays_silent [OF 1 plays_silent [OF spins(1) plays_then [OF 2 plays_silent [OF spins(2) plays_silent [OF 3 spins(3)]]]]]
  show ?thesis .
qed

lemma stop_plays:
  assumes l: "logs bus log" and run: "send_stop_condition bus w = Some (B_OK, w')"
  shows "plays log w (between d []) [Stop] w' idle"
proof -
  let ?w1 = "set_signals bus 0 0 w"
  from run obtain w2 w3 w4 where r: "spin bus (rise (timing bus)) ?w1 = Some w2"
    "wait_for_clk bus (ack_timeout (timing bus)) (set_signals bus 1 0 w2) = Some (B_OK, w3)"
    "spin bus (su_sto (timing bus)) w3 = Some w4" "spin bus (buf (timing bus)) (set_signals bus 1 1 w4) = Some w'"
    by (auto simp: send_stop_condition_def Let_def bind_eq_Some_conv split: if_splits)
  have 1: "plays log w (between d []) [] ?w1 (between False [])" by (rule plays_drive [OF l]) simp
  have 2: "plays log w2 (between False []) [] (set_signals bus 1 0 w2) ((True, False), Some (False, False), [])"
    by (rule plays_drive [OF l]) simp
  from wait_plays(2) [OF l r(2)] obtain s where
    3: "plays log (set_signals bus 1 0 w2) ((True, False), Some (False, False), []) [] w3 ((True, False), Some (False, s), [])"
    by blast
  have 4: "plays log w4 ((True, False), Some (False, s), []) [Stop] (set_signals bus 1 1 w4) idle"
    by (rule plays_drive [OF l]) simp
  note spins = r(1,3,4) [THEN spin_plays [OF l]]
  from plays_silent [OF 1 plays_silent [OF spins(1) plays_silent [OF 2 plays_silent [OF 3 plays_silent [OF spins(2) plays_then [OF 4 spins(3)]]]]]]
  show ?thesis .
qed

text \<open>One clock pulse: the driven level, and what was seen of it at the end.\<close>

lemma pulse_plays:
  assumes l: "logs bus log"
    and up: "plays log w (between d acc) [] w1 ((True, x), Some (x, s), acc)"
    and s: "add_bit (x, s) acc = (fs, acc')" and down: "spin bus t (set_signals bus 0 (of_bool x) w1) = Some w'"
  shows "plays log w (between d acc) fs w' (between x acc')"
proof -
  have "plays log w1 ((True, x), Some (x, s), acc) fs (set_signals bus 0 (of_bool x) w1) (between x acc')"
    by (rule plays_drive [OF l]) (simp add: s)
  from plays_silent [OF up plays_then [OF this spin_plays [OF l down]]] show ?thesis .
qed

lemma level_bit: "uint (b AND 1) = of_bool (bit b 0)" for b :: uint8
  by (cases "even b") (simp_all add: and_one_eq bit_0 even_iff_mod_2_eq_zero odd_iff_mod_2_eq_one)

lemma send_bit_plays:
  assumes l: "logs bus log" and run: "send_bit bus b timeout w = Some (B_OK, w')"
  shows "\<exists>s. \<forall>fs acc'. add_bit (bit b 0, s) acc = (fs, acc') \<longrightarrow> plays log w (between d acc) fs w' (between (bit b 0) acc')"
proof -
  let ?x = "bit b 0" and ?v = "of_bool (bit b 0) :: int"
  from run obtain w2 w3 w4 where r: "spin bus (su_dat (timing bus)) (set_signals bus 0 ?v w) = Some w2"
    "wait_for_clk bus timeout (set_signals bus 1 ?v w2) = Some (B_OK, w3)"
    "spin bus (high (timing bus)) w3 = Some w4"
    "spin bus (fall (timing bus) + low (timing bus)) (set_signals bus 0 ?v w4) = Some w'"
    by (auto simp: send_bit_def Let_def level_bit bind_eq_Some_conv split: if_splits)
  have 1: "plays log w (between d acc) [] (set_signals bus 0 ?v w) (between ?x acc)"
    by (rule plays_drive [OF l]) simp
  have 2: "plays log w2 (between ?x acc) [] (set_signals bus 1 ?v w2) ((True, ?x), Some (?x, ?x), acc)"
    by (rule plays_drive [OF l]) simp
  from wait_plays(2) [OF l r(2)] obtain s where
    3: "plays log (set_signals bus 1 ?v w2) ((True, ?x), Some (?x, ?x), acc) [] w3 ((True, ?x), Some (?x, s), acc)" by blast
  note spins = r(1,3) [THEN spin_plays [OF l]]
  from plays_silent [OF 1 plays_silent [OF spins(1) plays_silent [OF 2 plays_silent [OF 3 spins(2)]]]]
  have "plays log w (between d acc) [] w4 ((True, ?x), Some (?x, s), acc)" .
  from pulse_plays [OF l this _ r(4)] show ?thesis by blast
qed

lemma acknowledge_plays:
  assumes l: "logs bus log" and run: "send_acknowledge bus w = Some (B_OK, w')" and "add_bit (True, False) acc = (fs, acc')"
  shows "plays log w (between d acc) fs w' (between True acc')"
proof -
  from run obtain w2 w3 t w4 w5 w6 where r: "spin bus (su_dat (timing bus)) (set_signals bus 0 1 w) = Some w2"
    "wait_for_clk bus (ack_start_timeout (timing bus)) (set_signals bus 1 1 w2) = Some (B_OK, w3)"
    "system_time bus w3 = (t, w4)" "ack_loop bus t w4 = Some (B_OK, w5)"
    "spin bus (high (timing bus)) w5 = Some w6"
    "spin bus (fall (timing bus) + low (timing bus)) (set_signals bus 0 1 w6) = Some w'"
    by (auto simp: send_acknowledge_def Let_def bind_eq_Some_conv split: if_splits prod.splits)
  have 1: "plays log w (between d acc) [] (set_signals bus 0 1 w) (between True acc)"
    by (rule plays_drive [OF l]) simp
  have 2: "plays log w2 (between True acc) [] (set_signals bus 1 1 w2) ((True, True), Some (True, True), acc)"
    by (rule plays_drive [OF l]) simp
  from wait_plays(2) [OF l r(2)] obtain s where
    3: "plays log (set_signals bus 1 1 w2) ((True, True), Some (True, True), acc) [] w3 ((True, True), Some (True, s), acc)" by blast
  from ack_loop_sees [OF l r(4)] logs_time [OF l r(3)] obtain ss where "log w5 = log w3 @ map See (ss @ [False])" by auto
  then have 4: "plays log w3 ((True, True), Some (True, s), acc) [] w5 ((True, True), Some (True, False), acc)"
    unfolding plays_def using hear_sees [of True True "Some (True, s)" acc "ss @ [False]"] by auto
  note spins = r(1,5) [THEN spin_plays [OF l]]
  from plays_silent [OF 1 plays_silent [OF spins(1) plays_silent [OF 2 plays_silent [OF 3 plays_silent [OF 4 spins(2)]]]]]
  have "plays log w (between d acc) [] w6 ((True, True), Some (True, False), acc)" .
  from pulse_plays [OF l this assms(3)] r(6) show ?thesis by simp
qed

lemma receive_bit_plays:
  assumes l: "logs bus log" and run: "receive_bit bus timeout w = Some (B_OK, b, w')"
    and "add_bit (True, b) acc = (fs, acc')"
  shows "plays log w (between d acc) fs w' (between True acc')"
proof -
  from run obtain w3 where w3: "wait_for_clk bus timeout (set_signals bus 1 1 w) = Some (B_OK, w3)"
    by (auto simp: receive_bit_def Let_def bind_eq_Some_conv split: if_splits)
  obtain clk data w5 where g: "get_signals bus w3 = ((clk, data), w5)" by (metis surj_pair)
  from run w3 g obtain w6 where "spin bus (high (timing bus)) w5 = Some w6"
    "spin bus (fall (timing bus) + low (timing bus)) (set_signals bus 0 1 w6) = Some w'" "b = (data \<noteq> 0)"
    by (auto simp: receive_bit_def Let_def bind_eq_Some_conv)
  note r = w3 g this
  have 1: "plays log w (between d acc) [] (set_signals bus 1 1 w) ((True, True), Some (True, True), acc)"
    by (rule plays_drive [OF l]) simp
  from wait_plays(2) [OF l r(1)] obtain s where
    2: "plays log (set_signals bus 1 1 w) ((True, True), Some (True, True), acc) [] w3 ((True, True), Some (True, s), acc)" by blast
  from logs_get [OF l r(2)] r(5) have
    3: "plays log w3 ((True, True), Some (True, s), acc) [] w5 ((True, True), Some (True, b), acc)"
    by (simp add: plays_def)
  from plays_silent [OF 1 plays_silent [OF 2 plays_silent [OF 3 spin_plays [OF l r(3)]]]]
  have "plays log w (between d acc) [] w6 ((True, True), Some (True, b), acc)" .
  from pulse_plays [OF l this assms(3)] r(4) show ?thesis by simp
qed


text \<open>The bits of a byte, the highest first.\<close>

fun high_bits :: "uint8 \<Rightarrow> nat \<Rightarrow> bool list" where
  "high_bits b 0 = []"
| "high_bits b (Suc i) = bit b i # high_bits b i"

lemma length_high_bits [simp]: "length (high_bits b n) = n"
  by (induction n) auto

lemma byte_of_bits: "byte_of (high_bits b 8) = b"
proof -
  have "fold (\<lambda>x acc. push_bit 1 acc OR of_bool x) (high_bits b n) (drop_bit n b) = b" for n
  proof (induction n)
    case (Suc n)
    have "push_bit 1 (drop_bit (Suc n) b) OR of_bool (bit b n) = drop_bit n b"
    proof (rule bit_word_eqI)
      fix k assume "k < LENGTH(8)"
      then show "bit (push_bit 1 (drop_bit (Suc n) b) OR of_bool (bit b n)) k = bit (drop_bit n b) k"
        by (cases k) (simp_all only: bit_or_iff bit_push_bit_iff bit_drop_bit_eq bit_of_bool_iff comp_apply, simp_all)
    qed
    with Suc show ?case by simp
  qed simp
  from this [of 8] have "fold (\<lambda>x acc. push_bit 1 acc OR of_bool x) (high_bits b 8) (drop_bit 8 b) = b" .
  moreover have "drop_bit 8 b = 0" by (rule bit_word_eqI) (simp add: bit_simps)
  ultimately show ?thesis by (simp add: byte_of_def)
qed

lemma zip_high_bits_Suc: "length ss = n \<Longrightarrow> acc @ zip (high_bits b (Suc n)) (s # ss) = (acc @ [(bit b n, s)]) @ zip (high_bits b n) ss"
  by simp

lemma send_bits_plays:
  assumes "logs bus log"
  shows "send_bits bus b n w = Some (B_OK, w') \<Longrightarrow> length acc + n = 8 \<Longrightarrow>
    \<exists>ss d'. length ss = n \<and> plays log w (between d acc) [] w' (between d' (acc @ zip (high_bits b n) ss))"
proof (induction n arbitrary: w d acc)
  case 0
  then show ?case by (auto intro: plays_same)
next
  case (Suc n)
  from Suc.prems(1) obtain timeout w1 where
    r: "send_bit bus (drop_bit n b) timeout w = Some (B_OK, w1)" "send_bits bus b n w1 = Some (B_OK, w')"
    by (auto simp: bind_eq_Some_conv split: if_splits)
  from send_bit_plays [OF assms r(1), of acc d] Suc.prems(2) obtain s where
    1: "plays log w (between d acc) [] w1 (between (bit b n) (acc @ [(bit b n, s)]))"
    by (auto simp: add_bit_def bit_simps)
  from Suc.IH [OF r(2), of "acc @ [(bit b n, s)]" "bit b n"] Suc.prems(2) obtain ss d' where
    "length ss = n" "plays log w1 (between (bit b n) (acc @ [(bit b n, s)])) [] w' (between d' ((acc @ [(bit b n, s)]) @ zip (high_bits b n) ss))"
    by auto
  with plays_silent [OF 1 this(2)] show ?case
    by (intro exI [of _ "s # ss"] exI [of _ d']) simp
qed

text \<open>A byte that was sent: the master drives it and leaves the line to the slave for the acknowledge, which pulls it low.\<close>

lemma send_byte_plays:
  assumes l: "logs bus log" and run: "send_byte bus b True w = Some (B_OK, w')"
  shows "\<exists>s. plays log w (between d []) [Byte b s True False] w' (between True [])"
proof -
  from run obtain w1 where r: "send_bits bus b 8 w = Some (B_OK, w1)" "send_acknowledge bus w1 = Some (B_OK, w')"
    by (auto simp: send_byte_def bind_eq_Some_conv split: if_splits)
  from send_bits_plays [OF l r(1), of "[]" d] obtain ss d' where
    s: "length ss = 8" "plays log w (between d []) [] w1 (between d' (zip (high_bits b 8) ss))" by auto
  have "add_bit (True, False) (zip (high_bits b 8) ss) = ([Byte b (byte_of ss) True False], [])"
    using s(1) by (simp add: add_bit_def byte_of_bits)
  from plays_silent [OF s(2) acknowledge_plays [OF l r(2) this]] show ?thesis by blast
qed

lemma receive_bits_plays:
  assumes "logs bus log"
  shows "receive_bits bus acc0 n w = Some (B_OK, b, w') \<Longrightarrow> length acc + n = 8 \<Longrightarrow>
    \<exists>ss d'. length ss = n \<and> fold (\<lambda>x a. push_bit 1 a OR of_bool x) ss acc0 = b \<and>
      plays log w (between d acc) [] w' (between d' (acc @ map (Pair True) ss))"
proof (induction n arbitrary: w d acc acc0)
  case 0
  then show ?case by (auto intro: plays_same)
next
  case (Suc n)
  from Suc.prems(1) obtain timeout s w1 where
    r: "receive_bit bus timeout w = Some (B_OK, s, w1)" "receive_bits bus (push_bit 1 acc0 OR of_bool s) n w1 = Some (B_OK, b, w')"
    by (auto simp: bind_eq_Some_conv split: if_splits)
  from receive_bit_plays [OF assms r(1), of acc "[]" "acc @ [(True, s)]" d] Suc.prems(2)
  have 1: "plays log w (between d acc) [] w1 (between True (acc @ [(True, s)]))" by (simp add: add_bit_def)
  from Suc.IH [OF r(2), of "acc @ [(True, s)]" True] Suc.prems(2) obtain ss d' where
    "length ss = n" "fold (\<lambda>x a. push_bit 1 a OR of_bool x) ss (push_bit 1 acc0 OR of_bool s) = b"
    "plays log w1 (between True (acc @ [(True, s)])) [] w' (between d' ((acc @ [(True, s)]) @ map (Pair True) ss))"
    by auto
  with plays_silent [OF 1 this(3)] show ?case
    by (intro exI [of _ "s # ss"] exI [of _ d']) simp
qed

lemma all_high: "length ss = 8 \<Longrightarrow> byte_of (map (fst \<circ> Pair True) ss) = 0xFF"
  by (simp add: comp_def map_replicate_const byte_of_def numeral_eq_Suc)

text \<open>A byte that was received: the master leaves the line to the slave, and acknowledges or not.\<close>

lemma receive_byte_plays:
  assumes l: "logs bus log" and run: "receive_byte bus a w = Some (B_OK, r, w')"
  shows "\<exists>b s. r = Some b \<and> plays log w (between d []) [Byte 0xFF b (\<not> a) s] w' (between (\<not> a) [])"
proof -
  from run obtain b w1 where r: "receive_bits bus 0 8 (set_signals bus 0 1 w) = Some (B_OK, b, w1)"
    "send_bit bus (if a then 0 else 1) (bit_timeout (timing bus)) w1 = Some (B_OK, w')" "r = Some b"
    by (auto simp: receive_byte_def Let_def bind_eq_Some_conv split: if_splits)
  have 1: "plays log w (between d []) [] (set_signals bus 0 1 w) (between True [])" by (rule plays_drive [OF l]) simp
  from receive_bits_plays [OF l r(1), of "[]" True] obtain ss d' where
    s: "length ss = 8" "byte_of ss = b" "plays log (set_signals bus 0 1 w) (between True []) [] w1 (between d' (map (Pair True) ss))"
    by (auto simp: byte_of_def)
  have ab: "bit (if a then 0 else 1 :: uint8) 0 = (\<not> a)" by simp
  from send_bit_plays [OF l r(2), of "map (Pair True) ss" d'] obtain x where
    "\<forall>fs acc'. add_bit (\<not> a, x) (map (Pair True) ss) = (fs, acc') \<longrightarrow> plays log w1 (between d' (map (Pair True) ss)) fs w' (between (\<not> a) acc')"
    unfolding ab by blast
  moreover have "add_bit (\<not> a, x) (map (Pair True) ss) = ([Byte 0xFF b (\<not> a) x], [])"
    using s(1,2) all_high [OF s(1)] by (simp add: add_bit_def comp_def)
  ultimately have "plays log w1 (between d' (map (Pair True) ss)) [Byte 0xFF b (\<not> a) x] w' (between (\<not> a) [])" by blast
  from plays_silent [OF 1 plays_silent [OF s(3) this]] r(3) show ?thesis by blast
qed


section \<open>Transfers on the wire\<close>

text \<open>The address as bytes: general call and 10-bit addresses have a second byte, which is always 0.\<close>

definition address_bytes :: "uint8 \<Rightarrow> bool \<Rightarrow> uint8 list" where
  "address_bytes a isWrite = first_byte a isWrite # (if a \<noteq> 0 \<and> a AND 0xf8 \<noteq> 0xf0 then [] else [0])"

fun sent :: "uint8 list \<Rightarrow> uint8 list \<Rightarrow> frame list" where
  "sent [] ss = []"
| "sent (b # bs) ss = Byte b (hd ss) True False # sent bs (tl ss)"

text \<open>Every received byte but the last is acknowledged with a low level.\<close>

fun got :: "uint8 list \<Rightarrow> bool list \<Rightarrow> frame list" where
  "got [] xs = []"
| "got (b # bs) xs = Byte 0xFF b (bs = []) (hd xs) # got bs (tl xs)"

lemma sent_append: "sent (xs @ ys) ss = sent xs ss @ sent ys (drop (length xs) ss)"
  by (induction xs arbitrary: ss) (auto simp: drop_Suc)

lemma sent_cong: "length ss = length xs \<Longrightarrow> sent xs (ss @ ts) = sent xs ss"
proof (induction xs arbitrary: ss)
  case (Cons x xs)
  then show ?case by (cases ss) auto
qed simp

lemma send_bytes_plays:
  assumes "logs bus log"
  shows "send_bytes bus bs w = Some (B_OK, w') \<Longrightarrow>
    \<exists>ss d'. length ss = length bs \<and> plays log w (between d []) (sent bs ss) w' (between d' [])"
proof (induction bs arbitrary: w d)
  case Nil
  then show ?case by (auto intro: plays_same)
next
  case (Cons b bs)
  then obtain w1 where r: "send_byte bus b True w = Some (B_OK, w1)" "send_bytes bus bs w1 = Some (B_OK, w')"
    by (auto simp: bind_eq_Some_conv split: if_splits)
  from send_byte_plays [OF assms r(1), of d] obtain s where
    1: "plays log w (between d []) [Byte b s True False] w1 (between True [])" by blast
  from Cons.IH [OF r(2), of True] obtain ss d' where
    2: "length ss = length bs" "plays log w1 (between True []) (sent bs ss) w' (between d' [])" by blast
  from plays_trans [OF 1 2(2)] 2(1) show ?case
    by (intro exI [of _ "s # ss"] exI [of _ d']) simp
qed

lemma slave_address_plays:
  assumes l: "logs bus log" and run: "send_slave_address bus a isWrite w = Some (B_OK, w')"
  shows "\<exists>ss d'. length ss = length (address_bytes a isWrite) \<and>
    plays log w (between d []) (sent (address_bytes a isWrite) ss) w' (between d' [])"
proof -
  have a: "a AND 0xff = a" "drop_bit 8 a = 0"
    by (rule bit_word_eqI, simp add: bit_simps less_Suc_eq numeral_eq_Suc; fastforce)+
  from run have "send_bytes bus (address_bytes a isWrite) w = Some (B_OK, w')"
    by (auto simp: send_slave_address_def address_bytes_def a bind_eq_Some_conv split: if_splits)
  from send_bytes_plays [OF l this] show ?thesis .
qed

lemma receive_bytes_plays:
  assumes "logs bus log"
  shows "receive_bytes bus n w = Some (B_OK, bs, w') \<Longrightarrow>
    length bs = n \<and> (\<exists>xs d'. length xs = n \<and> plays log w (between d []) (got bs xs) w' (between d' []))"
proof (induction n arbitrary: w d bs)
  case 0
  then show ?case by (auto intro: plays_same)
next
  case (Suc n)
  then obtain b w1 bs' where r: "receive_byte bus (n > 0) w = Some (B_OK, b, w1)" "receive_bytes bus n w1 = Some (B_OK, bs', w')"
    "bs = the b # bs'"
    by (auto simp: bind_eq_Some_conv split: if_splits)
  from receive_byte_plays [OF assms r(1), of d] obtain c s where
    1: "b = Some c" "plays log w (between d []) [Byte 0xFF c (\<not> n > 0) s] w1 (between (\<not> n > 0) [])" by blast
  from Suc.IH [OF r(2), of "\<not> n > 0"] obtain xs d' where
    2: "length bs' = n" "length xs = n" "plays log w1 (between (\<not> n > 0) []) (got bs' xs) w' (between d' [])" by blast
  from 2(1) have "bs' = [] \<longleftrightarrow> \<not> n > 0" by auto
  with plays_trans [OF 1(2) 2(3)] 1(1) 2(1,2) r(3) show ?case
    by (intro conjI exI [of _ "s # xs"] exI [of _ d']) simp_all
qed

lemma transfer_ok:
  assumes "i2c_send_receive_callback bus a out n w = Some (B_OK, bs, w')"
  defines "sa \<equiv> ucast (push_bit 1 a) :: uint8"
  shows "push_bit 1 a \<le> 0xff \<and> (\<exists>w1 w2 w3 w4 w5 w6. send_start_condition bus w = Some (B_OK, w1) \<and>
    send_slave_address bus sa True w1 = Some (B_OK, w2) \<and> send_bytes bus out w2 = Some (B_OK, w3) \<and>
    send_start_condition bus w3 = Some (B_OK, w4) \<and> send_slave_address bus sa False w4 = Some (B_OK, w5) \<and>
    receive_bytes bus n w5 = Some (B_OK, bs, w6) \<and> send_stop_condition bus w6 = Some (B_OK, w'))"
  using assms(1)
  by (auto simp: i2c_send_receive_callback_def Let_def not_less cancel_def sa_def bind_eq_Some_conv split: if_splits)

lemma transfer_plays:
  assumes l: "logs bus log" and run: "i2c_send_receive_callback bus a out n w = Some (B_OK, bs, w')"
  defines "sa \<equiv> ucast (push_bit 1 a) :: uint8"
  shows "push_bit 1 a \<le> 0xff \<and> length bs = n \<and> (\<exists>ss ts xs. length ss = length (address_bytes sa True @ out) \<and>
    length ts = length (address_bytes sa False) \<and> length xs = n \<and>
    plays log w idle (Start # sent (address_bytes sa True @ out) ss @ Start # sent (address_bytes sa False) ts @ got bs xs @ [Stop]) w' idle)"
proof -
  from transfer_ok [OF run] have a: "push_bit 1 a \<le> 0xff" by simp
  from transfer_ok [OF run] obtain w1 w2 w3 w4 w5 w6 where r: "send_start_condition bus w = Some (B_OK, w1)"
    "send_slave_address bus sa True w1 = Some (B_OK, w2)" "send_bytes bus out w2 = Some (B_OK, w3)"
    "send_start_condition bus w3 = Some (B_OK, w4)" "send_slave_address bus sa False w4 = Some (B_OK, w5)"
    "receive_bytes bus n w5 = Some (B_OK, bs, w6)" "send_stop_condition bus w6 = Some (B_OK, w')"
    unfolding sa_def by blast
  from start_plays [OF l _ r(1), of idle] have 1: "plays log w idle [Start] w1 (between False [])" by simp
  from slave_address_plays [OF l r(2), of False] obtain s1 d1 where
    2: "length s1 = length (address_bytes sa True)" "plays log w1 (between False []) (sent (address_bytes sa True) s1) w2 (between d1 [])" by blast
  from send_bytes_plays [OF l r(3), of d1] obtain s2 d2 where
    3: "length s2 = length out" "plays log w2 (between d1 []) (sent out s2) w3 (between d2 [])" by blast
  from start_plays [OF l _ r(4), of "between d2 []"] have 4: "plays log w3 (between d2 []) [Start] w4 (between False [])" by blast
  from slave_address_plays [OF l r(5), of False] obtain ts d3 where
    5: "length ts = length (address_bytes sa False)" "plays log w4 (between False []) (sent (address_bytes sa False) ts) w5 (between d3 [])" by blast
  from receive_bytes_plays [OF l r(6), of d3] obtain xs d4 where
    6: "length bs = n" "length xs = n" "plays log w5 (between d3 []) (got bs xs) w6 (between d4 [])" by blast
  note stop_plays [OF l r(7), of d4]
  from plays_trans [OF 1 plays_trans [OF 2(2) plays_trans [OF 3(2) plays_trans [OF 4 plays_trans [OF 5(2) plays_trans [OF 6(3) this]]]]]]
  have "plays log w idle (Start # sent (address_bytes sa True @ out) (s1 @ s2) @ Start # sent (address_bytes sa False) ts @ got bs xs @ [Stop]) w' idle"
    using 2(1) by (simp add: sent_append sent_cong)
  with a 6(1,2) 2(1) 3(1) 5(1) show ?thesis
    by (intro conjI exI [of _ "s1 @ s2"] exI [of _ ts] exI [of _ xs]) simp_all
qed


section \<open>Status and length\<close>

lemma clk_loop_status:
  assumes "clk_loop bus c w = Some y"
  shows "fst y \<in> {B_OK, B_TIMEOUT}"
proof (rule clk_loop.raw_induct [of "\<lambda>bus c w y. fst y \<in> {B_OK, B_TIMEOUT}" bus c w y])
  fix loop bus c w y
  assume IH: "\<And>bus c w y. loop bus c w = Some y \<Longrightarrow> fst y \<in> {B_OK, B_TIMEOUT}"
    and body: "(case c of (startTime, timeout) \<Rightarrow>
        let ((clk, data), w1) = get_signals bus w
        in if clk \<noteq> 0 then Some (B_OK, w1)
           else
             let (t, w2) = system_time bus w1
             in if t - startTime > timeout then Some (B_TIMEOUT, w2)
                else Option.bind (spin bus (rise (timing bus)) w2) (loop bus c)) = Some y"
  from body show "fst y \<in> {B_OK, B_TIMEOUT}"
    by (auto simp: bind_eq_Some_conv dest: IH split: if_splits prod.splits)
qed (fact assms)

lemma ack_loop_status:
  assumes "ack_loop bus st w = Some y"
  shows "fst y \<in> {B_OK, B_TIMEOUT}"
proof (rule ack_loop.raw_induct [of "\<lambda>bus st w y. fst y \<in> {B_OK, B_TIMEOUT}" bus st w y])
  fix loop bus st w y
  assume IH: "\<And>bus st w y. loop bus st w = Some y \<Longrightarrow> fst y \<in> {B_OK, B_TIMEOUT}"
    and body: "(let ((clk, data), w1) = get_signals bus w
        in if data = 0 then Some (B_OK, w1)
         else
           let (t, w2) = system_time bus w1
           in if t - st > ack_timeout (timing bus) then Some (B_TIMEOUT, w2)
              else Option.bind (spin bus (rise (timing bus)) w2) (loop bus st)) = Some y"
  from body show "fst y \<in> {B_OK, B_TIMEOUT}"
    by (auto simp: bind_eq_Some_conv dest: IH split: if_splits prod.splits)
qed (fact assms)

lemma wait_status: "wait_for_clk bus timeout w = Some (status, w') \<Longrightarrow> status \<in> {B_OK, B_TIMEOUT}"
  by (cases "system_time bus (the (spin bus (rise (timing bus)) w))")
    (auto simp: wait_for_clk_def bind_eq_Some_conv dest!: clk_loop_status)

text \<open>An operation whose status, if not \<open>B_OK\<close>, is a time-out.\<close>

named_theorems late "that an error is a time-out"

lemma start_late [late]: "send_start_condition bus w = Some (status, w') \<Longrightarrow> status \<noteq> B_OK \<Longrightarrow> status = B_TIMEOUT"
  using wait_status by (fastforce simp: send_start_condition_def Let_def bind_eq_Some_conv split: if_splits)

lemma stop_late [late]: "send_stop_condition bus w = Some (status, w') \<Longrightarrow> status \<noteq> B_OK \<Longrightarrow> status = B_TIMEOUT"
  using wait_status by (fastforce simp: send_stop_condition_def Let_def bind_eq_Some_conv split: if_splits)

lemma send_bit_late [late]: "send_bit bus b t w = Some (status, w') \<Longrightarrow> status \<noteq> B_OK \<Longrightarrow> status = B_TIMEOUT"
  using wait_status by (fastforce simp: send_bit_def Let_def bind_eq_Some_conv split: if_splits)

lemma receive_bit_late [late]: "receive_bit bus t w = Some (status, b, w') \<Longrightarrow> status \<noteq> B_OK \<Longrightarrow> status = B_TIMEOUT"
  using wait_status by (fastforce simp: receive_bit_def Let_def bind_eq_Some_conv split: if_splits prod.splits)

lemma acknowledge_late [late]: "send_acknowledge bus w = Some (status, w') \<Longrightarrow> status \<noteq> B_OK \<Longrightarrow> status = B_TIMEOUT"
  using wait_status ack_loop_status by (fastforce simp: send_acknowledge_def Let_def bind_eq_Some_conv split: if_splits prod.splits)

lemma send_bits_late [late]: "send_bits bus b n w = Some (status, w') \<Longrightarrow> status \<noteq> B_OK \<Longrightarrow> status = B_TIMEOUT"
  by (induction n arbitrary: w) (auto simp: bind_eq_Some_conv dest: late split: if_splits)

lemma send_byte_late [late]: "send_byte bus b a w = Some (status, w') \<Longrightarrow> status \<noteq> B_OK \<Longrightarrow> status = B_TIMEOUT"
  by (auto simp: send_byte_def bind_eq_Some_conv dest: late split: if_splits)

lemma slave_address_late [late]: "send_slave_address bus a wr w = Some (status, w') \<Longrightarrow> status \<noteq> B_OK \<Longrightarrow> status = B_TIMEOUT"
  by (auto simp: send_slave_address_def bind_eq_Some_conv dest: late split: if_splits)

lemma receive_bits_late [late]: "receive_bits bus acc n w = Some (status, b, w') \<Longrightarrow> status \<noteq> B_OK \<Longrightarrow> status = B_TIMEOUT"
  by (induction n arbitrary: acc w) (auto simp: bind_eq_Some_conv dest: late split: if_splits)

lemma receive_byte_late [late]: "receive_byte bus a w = Some (status, b, w') \<Longrightarrow> status \<noteq> B_OK \<Longrightarrow> status = B_TIMEOUT"
  by (auto simp: receive_byte_def Let_def bind_eq_Some_conv dest: late split: if_splits)

lemma send_bytes_late [late]: "send_bytes bus bs w = Some (status, w') \<Longrightarrow> status \<noteq> B_OK \<Longrightarrow> status = B_TIMEOUT"
  by (induction bs arbitrary: w) (auto simp: bind_eq_Some_conv dest: late split: if_splits)

lemma receive_bytes_late [late]: "receive_bytes bus n w = Some (status, bs, w') \<Longrightarrow> status \<noteq> B_OK \<Longrightarrow> status = B_TIMEOUT"
  by (induction n arbitrary: w bs) (auto simp: bind_eq_Some_conv dest: late split: if_splits)

lemma receive_bytes_length: "receive_bytes bus n w = Some (status, bs, w') \<Longrightarrow> length bs \<le> n"
  by (induction n arbitrary: w bs status) (auto simp: bind_eq_Some_conv split: if_splits option.splits)

lemma receive_bytes_exact: "receive_bytes bus n w = Some (B_OK, bs, w') \<Longrightarrow> length bs = n"
proof (induction n arbitrary: w bs)
  case (Suc n)
  then obtain b w1 bs' where "receive_byte bus (n > 0) w = Some (B_OK, b, w1)" "receive_bytes bus n w1 = Some (B_OK, bs', w')"
    "bs = the b # bs'"
    by (auto simp: bind_eq_Some_conv split: if_splits)
  with Suc.IH show ?case by simp
qed simp

lemma transfer_status:
  assumes "i2c_send_receive_callback bus a out n w = Some (status, bs, w')" "push_bit 1 a \<le> (0xff :: uint32)"
  shows "status \<in> {B_OK, B_TIMEOUT} \<and> length bs \<le> n"
  using assms
  by (auto simp: i2c_send_receive_callback_def cancel_def Let_def not_less bind_eq_Some_conv
      dest: late receive_bytes_length split: if_splits)


section \<open>The contract of a transfer\<close>

text \<open>
  What the code's own transfer promises: no more bytes than asked for, and all of them when it succeeds.
\<close>

locale byte_transfer =
  fixes transfer :: "uint32 \<Rightarrow> uint8 list \<Rightarrow> nat \<Rightarrow> 'w \<Rightarrow> (status_t \<times> uint8 list \<times> 'w) option"
  assumes within: "transfer a out n w = Some (status, bs, w') \<Longrightarrow> length bs \<le> n"
    and full: "transfer a out n w = Some (B_OK, bs, w') \<Longrightarrow> length bs = n"

lemma full_transfer: "i2c_send_receive_callback bus a out n w = Some (B_OK, bs, w') \<Longrightarrow> length bs = n"
  by (drule transfer_ok) (auto dest: receive_bytes_exact)

lemma transfer_within:
  assumes "i2c_send_receive_callback bus a out n w = Some (status, bs, w')"
  shows "length bs \<le> n"
proof (cases "push_bit 1 a \<le> (0xff :: uint32)")
  case True
  with transfer_status [OF assms] show ?thesis by simp
next
  case False
  with assms show ?thesis by (simp add: i2c_send_receive_callback_def not_le)
qed

interpretation i2c: byte_transfer "i2c_send_receive_callback bus" for bus
  by unfold_locales (rule transfer_within, assumption, rule full_transfer)

section \<open>Properties\<close>

text \<open>
  The address is doubled in 32 bits before it is compared with \<^verbatim>\<open>0xff\<close>: its top bit is lost, and what is
  compared is the rest.
\<close>

lemma wide_address: "push_bit 1 a > (0xff :: uint32) \<longleftrightarrow> take_bit 31 a > 0x7f"
proof -
  have "uint (push_bit 1 a) = take_bit LENGTH(32) (push_bit 1 (uint a))" by (rule unsigned_push_bit_eq)
  also have "\<dots> = take_bit 32 (2 * uint a)" by (simp add: push_bit_eq_mult mult.commute)
  also have "\<dots> = 2 * take_bit 31 (uint a)"
    using mult_mod_right [of 2 "uint a" 2147483648] by (simp add: take_bit_eq_mod)
  finally have d: "uint (push_bit 1 a) = 2 * take_bit 31 (uint a)" .
  have t: "uint (take_bit 31 a) = take_bit 31 (uint a)" by (simp add: unsigned_take_bit_eq)
  have "(255 < 2 * t) = (127 < t)" for t :: int by presburger
  then show ?thesis unfolding word_less_def d t by simp
qed

text \<open>So the addresses from \<^verbatim>\<open>0x80000000\<close> to \<^verbatim>\<open>0x8000007f\<close> pass the test, as those without the top bit.\<close>

lemma top_bit_of_address_lost:
  assumes "a \<le> 0x7f"
  shows "i2c_send_receive_callback bus (0x80000000 OR a) = i2c_send_receive_callback bus a \<and> \<not> push_bit 1 (0x80000000 OR a) > 0xff"
proof -
  have "bit (0x80000000 OR a) k = bit a k" if "k < 31" for k
  proof -
    have "(0x80000000 :: int) = 2 ^ 31" by simp
    then have "\<not> bit (0x80000000 :: int) k" using that by (simp only: bit_exp_iff) simp
    then show ?thesis by (simp add: bit_simps)
  qed
  then have "push_bit 1 (0x80000000 OR a) = push_bit 1 a" by (intro bit_word_eqI) (simp only: bit_push_bit_iff, auto)
  moreover have "\<not> push_bit 1 a > 0xff"
  proof -
    have "uint a \<le> 127" using assms by (simp add: word_le_def)
    moreover from this have "take_bit 31 (uint a) = uint a" by (simp add: take_bit_int_eq_self)
    ultimately show ?thesis unfolding wide_address by (simp add: word_less_def unsigned_take_bit_eq)
  qed
  ultimately show ?thesis by (simp only: i2c_send_receive_callback_def Let_def fun_eq_iff simp_thms)
qed

text \<open>
  C34: however the slave behaves, a transfer comes to an end as long as the clock of the system runs: every
  wait has a time-out. The status is then \<open>B_OK\<close> or a time-out, with no more bytes than asked for. An address
  is refused, without touching the bus, exactly when its lower 31 bits exceed seven bits: the top bit is lost
  before the test, so the addresses from \<^verbatim>\<open>0x80000000\<close> to \<^verbatim>\<open>0x8000007f\<close> are not refused.
\<close>

theorem i2c_always_returns:
  assumes "clock_runs bus now"
  shows "\<exists>status bs w'. i2c_send_receive_callback bus a out n w = Some (status, bs, w') \<and>
    (if take_bit 31 a > 0x7f then status = B_BAD_VALUE \<and> bs = [] \<and> w' = w
     else status \<in> {B_OK, B_TIMEOUT} \<and> length bs \<le> n)"
proof (cases "push_bit 1 a > 0xff")
  case True
  then show ?thesis by (simp add: i2c_send_receive_callback_def wide_address [symmetric])
next
  case False
  from assms have "ticking bus" by (auto simp: ticking_def)
  from transfer_ends [OF this, of a out n w] obtain status bs w' where
    "i2c_send_receive_callback bus a out n w = Some (status, bs, w')" by auto
  with transfer_status [OF this] False show ?thesis unfolding wide_address [symmetric] by (metis not_less)
qed

text \<open>
  C35: a transfer that succeeds is on the wire, to a monitor that decodes every change of the two lines, the
  frame of the protocol: a start condition, the address for writing and the bytes, each acknowledged by a
  low level; a start condition again and the address for reading; then as many bytes as asked for, during which
  the line is left to the slave and whose levels are the bytes returned, all but the last acknowledged; and a
  stop condition that leaves the bus idle.
\<close>

theorem i2c_wire_exact:
  assumes "logs bus log" "i2c_send_receive_callback bus a out n w = Some (B_OK, bs, w')"
  shows "push_bit 1 a \<le> 0xff \<and> length bs = n \<and>
    (\<exists>heard ss ts xs. log w' = log w @ heard \<and> length xs = n \<and>
      hear idle heard =
        (Start # sent (address_bytes (ucast (push_bit 1 a)) True @ out) ss @
         Start # sent (address_bytes (ucast (push_bit 1 a)) False) ts @ got bs xs @ [Stop], idle))"
  using transfer_plays [OF assms] unfolding plays_def by blast

text \<open>A bus without a slave but with the data line held low, and a clock of a millisecond per reading.\<close>

definition sample_bus :: "(int \<times> wire list) i2c_bus" where
  "sample_bus = \<lparr>timing = kTiming100k, set_signals = (\<lambda>c d (t, l). (t, l @ [Drive (c \<noteq> 0) (d \<noteq> 0)])),
     get_signals = (\<lambda>(t, l). ((1, 0), (t, l @ [See False]))), system_time = (\<lambda>(t, l). (t, (t + 1000, l))),
     send_receive = None\<rparr>"

lemma sample_clock_runs: "clock_runs sample_bus (\<lambda>(t, l). 1000 * t)"
  by (auto simp: clock_runs_def sample_bus_def)

lemma sample_logs: "logs sample_bus snd"
  by (auto simp: logs_def sample_bus_def)

definition no_slave :: "(int \<times> wire list) i2c_bus" where
  "no_slave = sample_bus\<lparr>get_signals := (\<lambda>(t, l). ((0, 1), (t, l @ [See True])))\<rparr>"

lemma no_slave_clock_runs: "clock_runs no_slave (\<lambda>(t, l). 1000 * t)"
  by (auto simp: clock_runs_def no_slave_def sample_bus_def)


lemma sample_spin: "d \<le> 1000 \<Longrightarrow> spin sample_bus d (t, l) = Some (t + 2000, l)"
  by (simp add: spin_def sample_bus_def) (subst spin_loop.simps, simp)

lemma sample_wait: "wait_for_clk sample_bus d (t, l) = Some (B_OK, t + 3000, l @ [See False])"
proof -
  have "spin sample_bus (rise (timing sample_bus)) (t, l) = Some (t + 2000, l)"
    by (rule sample_spin) (simp add: sample_bus_def kTiming100k_def)
  then show ?thesis
    by (simp add: wait_for_clk_def) (simp add: sample_bus_def, subst clk_loop.simps, simp)
qed

lemma sample_fields: "set_signals sample_bus c d (t, l) = (t, l @ [Drive (c \<noteq> 0) (d \<noteq> 0)])"
  "get_signals sample_bus (t, l) = ((1, 0), (t, l @ [See False]))"
  "system_time sample_bus (t, l) = (t, (t + 1000, l))"
  "timing sample_bus = kTiming100k"
  by (simp_all add: sample_bus_def)

lemmas sample_run = sample_spin sample_wait sample_fields kTiming100k_def

lemma sample_acks: "ack_loop sample_bus st (t, l) = Some (B_OK, t, l @ [See False])"
  by (subst ack_loop.simps) (simp add: sample_fields)

text \<open>On this bus every step succeeds, and the bits read are 0.\<close>

lemma sample_bit: "\<exists>w'. send_bit sample_bus b d w = Some (B_OK, w')"
  by (cases w) (simp add: send_bit_def sample_run level_bit)

lemma sample_ack: "\<exists>w'. send_acknowledge sample_bus w = Some (B_OK, w')"
  by (cases w) (simp add: send_acknowledge_def sample_run sample_acks)

lemma sample_receive_bit: "\<exists>w'. receive_bit sample_bus d w = Some (B_OK, False, w')"
  by (cases w) (simp add: receive_bit_def sample_run)

lemma sample_start: "\<exists>w'. send_start_condition sample_bus w = Some (B_OK, w')"
  by (cases w) (simp add: send_start_condition_def sample_run)

lemma sample_stop: "\<exists>w'. send_stop_condition sample_bus w = Some (B_OK, w')"
  by (cases w) (simp add: send_stop_condition_def sample_run)

lemma sample_bits: "\<exists>w'. send_bits sample_bus b n w = Some (B_OK, w')"
proof (induction n arbitrary: w)
  case (Suc n)
  from sample_bit [of "drop_bit n b"] Suc show ?case by (simp add: bind_eq_Some_conv) (metis (full_types))
qed simp

lemma sample_byte: "\<exists>w'. send_byte sample_bus b True w = Some (B_OK, w')"
proof -
  from sample_bits obtain w1 where "send_bits sample_bus b 8 w = Some (B_OK, w1)" by blast
  with sample_ack [of w1] show ?thesis by (simp add: send_byte_def)
qed

lemma sample_sends: "\<exists>w'. send_bytes sample_bus bs w = Some (B_OK, w')"
proof (induction bs arbitrary: w)
  case (Cons b bs)
  from sample_byte obtain w1 where "send_byte sample_bus b True w = Some (B_OK, w1)" by blast
  with Cons show ?case by simp
qed simp

lemma sample_zeros: "\<exists>w'. receive_bits sample_bus 0 n w = Some (B_OK, 0, w')"
proof (induction n arbitrary: w)
  case (Suc n)
  obtain w1 where "receive_bit sample_bus (if n = 7 then byte_timeout (timing sample_bus) else bit_timeout (timing sample_bus)) w = Some (B_OK, False, w1)"
    using sample_receive_bit by blast
  with Suc show ?case by simp
qed simp

lemma sample_receives: "\<exists>w'. receive_bytes sample_bus n w = Some (B_OK, replicate n 0, w')"
proof (induction n arbitrary: w)
  case (Suc n)
  from sample_zeros obtain w1 where 1: "receive_bits sample_bus 0 8 (set_signals sample_bus 0 1 w) = Some (B_OK, 0, w1)" by blast
  from sample_bit obtain w2 where "send_bit sample_bus (if n > 0 then 0 else 1) (bit_timeout (timing sample_bus)) w1 = Some (B_OK, w2)" by blast
  with 1 have "receive_byte sample_bus (n > 0) w = Some (B_OK, Some 0, w2)" by (simp add: receive_byte_def)
  with Suc [of w2] show ?case by auto
qed simp

lemma sample_address: "\<exists>w'. send_slave_address sample_bus a wr w = Some (B_OK, w')"
proof -
  from sample_byte obtain w1 where "send_byte sample_bus (first_byte a wr) True w = Some (B_OK, w1)" by blast
  with sample_byte [of "drop_bit 8 a" w1] show ?thesis by (simp add: send_slave_address_def)
qed

lemma sample_transfer: "\<exists>w'. i2c_send_receive_callback sample_bus 0x50 [7] 2 (0, []) = Some (B_OK, [0, 0], w')"
proof -
  let ?a = "ucast (push_bit 1 (0x50 :: uint32)) :: uint8"
  obtain w1 where 1: "send_start_condition sample_bus (0, []) = Some (B_OK, w1)" using sample_start by blast
  obtain w2 where 2: "send_slave_address sample_bus ?a True w1 = Some (B_OK, w2)" using sample_address by blast
  obtain w3 where 3: "send_bytes sample_bus [7] w2 = Some (B_OK, w3)" using sample_sends by blast
  obtain w4 where 4: "send_start_condition sample_bus w3 = Some (B_OK, w4)" using sample_start by blast
  obtain w5 where 5: "send_slave_address sample_bus ?a False w4 = Some (B_OK, w5)" using sample_address by blast
  obtain w6 where 6: "receive_bytes sample_bus 2 w5 = Some (B_OK, replicate 2 0, w6)" using sample_receives by blast
  obtain w7 where 7: "send_stop_condition sample_bus w6 = Some (B_OK, w7)" using sample_stop by blast
  have "\<not> push_bit 1 (0x50 :: uint32) > 0xff" by simp
  with 1 2 3 4 5 6 7 show ?thesis
    by (simp add: i2c_send_receive_callback_def Let_def del: send_bytes.simps) (simp add: numeral_2_eq_2)
qed

lemma sample_address_bytes: "address_bytes (ucast (push_bit 1 (0x50 :: uint32))) True = [0xA0]"
  "address_bytes (ucast (push_bit 1 (0x50 :: uint32))) False = [0xA1]"
  by (simp_all add: address_bytes_def first_byte_def)

lemma i2c_wire_exact_witness:
  "\<exists>w' ss ts xs. i2c_send_receive_callback sample_bus 0x50 [7] 2 (0, []) = Some (B_OK, [0, 0], w') \<and>
     hear idle (snd w') = (Start # sent [0xA0, 7] ss @ Start # sent [0xA1] ts @ got [0, 0] xs @ [Stop], idle)"
proof -
  from sample_transfer obtain w' where r: "i2c_send_receive_callback sample_bus 0x50 [7] 2 (0, []) = Some (B_OK, [0, 0], w')" by blast
  with i2c_wire_exact [OF sample_logs r] show ?thesis unfolding sample_address_bytes by auto
qed

lemma i2c_always_returns_witness:
  "\<exists>status bs w'. i2c_send_receive_callback no_slave 0x50 [7] 2 (0, []) = Some (status, bs, w') \<and>
    status \<in> {B_OK, B_TIMEOUT} \<and> length bs \<le> 2"
proof -
  have "\<not> take_bit 31 (0x50 :: uint32) > 0x7f" by (simp add: take_bit_eq_mask mask_eq_exp_minus_1)
  with i2c_always_returns [OF no_slave_clock_runs, where a = "0x50" and out = "[7]" and n = 2 and w = "(0, [])"] show ?thesis by (simp only: if_False)
qed

text \<open>An address from 0x78 to 0x7B, which is a 7-bit address all the same, is followed by a byte that is always 0.\<close>

lemma ten_bit_address_lost: "a AND 0xf8 = 0xf0 \<Longrightarrow> address_bytes a isWrite = [first_byte a isWrite, 0]"
  by (simp add: address_bytes_def)

end
