(* ===== verification/Edid.thy ===== *)
theory Edid
  imports Prelude "HOL-Library.Monad_Syntax"
begin

unbundle bit_operations_syntax

text \<open>
  The description a monitor gives of itself, \<^verbatim>\<open>src/add-ons/accelerants/common/decode_edid.c\<close>: packed bytes
  are decoded to structures (\<^verbatim>\<open>headers/private/graphics/common/edid.h\<close>, \<^verbatim>\<open>edid_raw.h\<close>). The raw data is a list of
  bytes, at the offsets of the packed structures; a bit field is named by its byte, its lowest bit and its width.
  \<open>None\<close> is a read behind the data or a write behind an array.
\<close>

section \<open>Reading packed data\<close>

definition bits :: "uint8 \<Rightarrow> nat \<Rightarrow> nat \<Rightarrow> uint8" where
  "bits b lo n = take_bit n (drop_bit lo b)"

definition flag :: "uint8 \<Rightarrow> nat \<Rightarrow> bool" where
  "flag b i \<longleftrightarrow> bits b i 1 \<noteq> 0"

definition le16 :: "uint8 list \<Rightarrow> uint16" where
  "le16 r = ucast (r ! 0) OR push_bit 8 (ucast (r ! 1))"

definition le32 :: "uint8 list \<Rightarrow> uint32" where
  "le32 r = ucast (r ! 0) OR push_bit 8 (ucast (r ! 1)) OR push_bit 16 (ucast (r ! 2)) OR push_bit 24 (ucast (r ! 3))"

text \<open>A value in two parts: the high bits above \<open>n\<close> low ones.\<close>

definition join :: "nat \<Rightarrow> uint8 \<Rightarrow> uint8 \<Rightarrow> uint16" where
  "join n hi lo = push_bit n (ucast hi) OR ucast lo"

section \<open>The structures\<close>

record edid1_vendor =
  manufacturer :: "uint8 list"
  prod_id :: uint16
  serial :: uint32
  week :: uint8
  year :: uint16

record edid1_analog_params =
  input_voltage :: uint8
  voltage_setup :: bool
  sep_sync :: bool
  comp_sync :: bool
  sync_on_green :: bool
  sync_serr :: bool

record edid1_digital_params =
  bit_depth :: uint8
  interface :: uint8

record edid1_display =
  input_type :: uint8
  analog_params :: edid1_analog_params
  digital_params :: edid1_digital_params
  disp_h_size :: uint8
  disp_v_size :: uint8
  gamma :: uint8
  dpms_standby :: bool
  dpms_suspend :: bool
  dpms_off :: bool
  display_type :: uint8
  std_colour_space :: bool
  preferred_timing_mode :: bool
  gtf_supported :: bool
  red_x :: uint16
  red_y :: uint16
  green_x :: uint16
  green_y :: uint16
  blue_x :: uint16
  blue_y :: uint16
  white_x :: uint16
  white_y :: uint16

record edid1_std_timing =
  std_h_size :: uint16
  std_v_size :: uint16
  std_id :: uint16
  ratio :: uint8
  refresh :: uint8

record edid1_whitepoint =
  wp_index :: uint8
  wp_white_x :: uint16
  wp_white_y :: uint16
  wp_gamma :: uint8

record edid1_detailed_timing =
  pixel_clock :: uint16
  h_active :: uint16
  h_blank :: uint16
  v_active :: uint16
  v_blank :: uint16
  h_sync_off :: uint16
  h_sync_width :: uint16
  v_sync_off :: uint16
  v_sync_width :: uint16
  h_size :: uint16
  v_size :: uint16
  h_border :: uint16
  v_border :: uint16
  interlaced :: uint8
  stereo :: uint8
  sync :: uint8
  misc :: uint8

text \<open>A monitor description: its type and what the union holds.\<close>

datatype monitor_data =
    Untouched
  | Serial_Number "uint8 list" | Ascii_Data "uint8 list" | Monitor_Name "uint8 list"
  | Monitor_Range "uint8 list"
  | Whitepoints edid1_whitepoint edid1_whitepoint
  | Std_Timings "edid1_std_timing list"
  | Detailed edid1_detailed_timing

type_synonym edid1_detailed_monitor = "uint8 \<times> monitor_data"

text \<open>The arrays \<^verbatim>\<open>detailed_timing[6]\<close> and \<^verbatim>\<open>data_blocks[8]\<close> of the extension as the entries written.\<close>

record cta_info =
  cta_tag :: uint8
  cta_revision :: uint8
  num_native_detailed :: uint8
  ycbcr422_supported :: bool
  ycbcr444_supported :: bool
  audio_supported :: bool
  underscan :: bool
  cta_detailed :: "edid1_detailed_timing list"
  data_blocks :: "uint8 list list"

record displayid_info =
  did_tag :: uint8
  did_version :: uint8
  extension_count :: uint8

record edid1_info =
  vendor :: edid1_vendor
  edid_version :: uint8
  edid_revision :: uint8
  display :: edid1_display
  established_timing :: "uint8 list"
  std_timing :: "edid1_std_timing list"
  detailed_monitor :: "edid1_detailed_monitor list"
  num_sections :: uint8
  cta_block :: "cta_info option"
  displayid_block :: "displayid_info option"

section \<open>The decoders\<close>

definition decode_vendor :: "uint8 list \<Rightarrow> edid1_vendor" where
  "decode_vendor r =
     \<lparr>manufacturer = [bits (r ! 0) 2 5 + 64, (push_bit 3 (bits (r ! 0) 0 2) OR bits (r ! 1) 5 3) + 64, bits (r ! 1) 0 5 + 64, 0],
      prod_id = le16 (drop 2 r), serial = le32 (drop 4 r), week = r ! 8, year = ucast (r ! 9) + 1990\<rparr>"

definition decode_version :: "uint8 list \<Rightarrow> uint8 \<times> uint8" where
  "decode_version r = (r ! 0, r ! 1)"

definition decode_display :: "uint8 list \<Rightarrow> edid1_display" where
  "decode_display r =
     (let type = bits (r ! 0) 7 1; depth = bits (r ! 0) 4 3; p = r ! 4; l = r ! 5; m = r ! 6 in
      \<lparr>input_type = type,
       analog_params =
         (if type \<noteq> 0 then \<lparr>input_voltage = 0, voltage_setup = False, sep_sync = False, comp_sync = False, sync_on_green = False, sync_serr = False\<rparr>
          else \<lparr>input_voltage = bits (r ! 0) 5 2, voltage_setup = flag (r ! 0) 4, sep_sync = flag (r ! 0) 3,
                 comp_sync = flag (r ! 0) 2, sync_on_green = flag (r ! 0) 1, sync_serr = flag (r ! 0) 0\<rparr>),
       digital_params =
         (if type \<noteq> 0 then \<lparr>bit_depth = (if depth > 0 \<and> depth < 7 then depth * 2 + 4 else 0), interface = bits (r ! 0) 0 4\<rparr>
          else \<lparr>bit_depth = 0, interface = 0\<rparr>),
       disp_h_size = r ! 1, disp_v_size = r ! 2, gamma = r ! 3,
       dpms_standby = flag p 7, dpms_suspend = flag p 6, dpms_off = flag p 5, display_type = bits p 3 2,
       std_colour_space = flag p 2, preferred_timing_mode = flag p 1, gtf_supported = flag p 0,
       red_x = join 2 (r ! 7) (bits l 6 2), red_y = join 2 (r ! 8) (bits l 4 2),
       green_x = join 2 (r ! 9) (bits l 2 2), green_y = join 2 (r ! 10) (bits l 0 2),
       blue_x = join 2 (r ! 11) (bits m 6 2), blue_y = join 2 (r ! 12) (bits m 4 2),
       white_x = join 2 (r ! 13) (bits m 2 2), white_y = join 2 (r ! 14) (bits m 0 2)\<rparr>)"

text \<open>The products are computed as integers and stored in 16 bits.\<close>

definition decode_std_timing :: "uint8 list \<Rightarrow> edid1_std_timing" where
  "decode_std_timing r =
     (let h = of_nat ((unat (r ! 0) + 31) * 8) :: uint16; q = bits (r ! 1) 6 2 in
      \<lparr>std_h_size = h,
       std_v_size = (if q = 0 then h else if q = 1 then of_nat (unat h * 3 div 4)
                     else if q = 2 then of_nat (unat h * 4 div 5) else of_nat (unat h * 9 div 16)),
       std_id = le16 r, ratio = q, refresh = bits (r ! 1) 0 6 + 60\<rparr>)"

definition decode_whitepoint :: "uint8 list \<Rightarrow> edid1_whitepoint \<times> edid1_whitepoint" where
  "decode_whitepoint r =
     (\<lparr>wp_index = r ! 0, wp_white_x = join 2 (r ! 2) (bits (r ! 1) 2 2), wp_white_y = join 2 (r ! 3) (bits (r ! 1) 0 2), wp_gamma = r ! 4\<rparr>,
      \<lparr>wp_index = r ! 5, wp_white_x = join 2 (r ! 7) (bits (r ! 6) 2 2), wp_white_y = join 2 (r ! 8) (bits (r ! 6) 0 2), wp_gamma = r ! 9\<rparr>)"

definition decode_detailed_timing :: "uint8 list \<Rightarrow> edid1_detailed_timing" where
  "decode_detailed_timing r =
     \<lparr>pixel_clock = le16 r,
      h_active = join 8 (bits (r ! 4) 4 4) (r ! 2), h_blank = join 8 (bits (r ! 4) 0 4) (r ! 3),
      v_active = join 8 (bits (r ! 7) 4 4) (r ! 5), v_blank = join 8 (bits (r ! 7) 0 4) (r ! 6),
      h_sync_off = join 8 (bits (r ! 11) 6 2) (r ! 8), h_sync_width = join 8 (bits (r ! 11) 4 2) (r ! 9),
      v_sync_off = join 4 (bits (r ! 11) 2 2) (bits (r ! 10) 4 4), v_sync_width = join 4 (bits (r ! 11) 0 2) (bits (r ! 10) 0 4),
      h_size = join 8 (bits (r ! 14) 4 4) (r ! 12), v_size = join 8 (bits (r ! 14) 0 4) (r ! 13),
      h_border = ucast (r ! 15), v_border = ucast (r ! 16),
      interlaced = bits (r ! 17) 7 1, stereo = bits (r ! 17) 5 2, sync = bits (r ! 17) 3 2, misc = bits (r ! 17) 1 2\<rparr>"

text \<open>
  \<^verbatim>\<open>copy_str\<close>: what is copied, without spaces at its end, and the terminator. The members of the union it
  writes to are arrays of 13 bytes; the terminator of a text that fills all of them is written behind the array.
\<close>

abbreviation EDID1_EXTRA_STRING_LEN :: nat where "EDID1_EXTRA_STRING_LEN \<equiv> 13"

definition isgraph :: "uint8 \<Rightarrow> bool" where
  "isgraph c \<longleftrightarrow> 0x21 \<le> c \<and> c \<le> 0x7e"

definition copy_str :: "uint8 list \<Rightarrow> nat \<Rightarrow> uint8 list option" where
  "copy_str src len =
     (let copied = takeWhile (\<lambda>c. c \<noteq> 0xa \<and> (isgraph c \<or> c = 0x20)) (take len src);
          kept = rev (dropWhile (\<lambda>c. c = 0x20) (rev copied))
      in if length copied \<le> EDID1_EXTRA_STRING_LEN \<and> length kept < EDID1_EXTRA_STRING_LEN then Some (kept @ [0]) else None)"

definition decode_monitor_desc :: "uint8 list \<Rightarrow> bool \<Rightarrow> edid1_detailed_monitor option" where
  "decode_monitor_desc r enableExtra =
     (if enableExtra \<and> (r ! 0 = 0 \<and> r ! 1 = 0 \<or> r ! 2 = 0 \<and> r ! 4 = 0) then
        map_option (Pair (r ! 3))
          (let d = drop 5 r in
           if r ! 3 = 0xff then map_option Serial_Number (copy_str d EDID1_EXTRA_STRING_LEN)
           else if r ! 3 = 0xfe then map_option Ascii_Data (copy_str d EDID1_EXTRA_STRING_LEN)
           else if r ! 3 = 0xfd then Some (Monitor_Range (take 5 d))
           else if r ! 3 = 0xfc then map_option Monitor_Name (copy_str d EDID1_EXTRA_STRING_LEN)
           else if r ! 3 = 0xfb then Some (case decode_whitepoint d of (w1, w2) \<Rightarrow> Whitepoints w1 w2)
           else if r ! 3 = 0xfa then Some (Std_Timings (map (\<lambda>j. decode_std_timing (drop (2 * j) d)) [0..<6]))
           else Some Untouched)
      else if le16 r > 0 then Some (1, Detailed (decode_detailed_timing r))
      else Some (0, Untouched))"

definition decode_detailed_monitor :: "uint8 list \<Rightarrow> bool \<Rightarrow> edid1_detailed_monitor list option" where
  "decode_detailed_monitor r enableExtra = those (map (\<lambda>i. decode_monitor_desc (drop (18 * i) r) enableExtra) [0..<4])"

text \<open>The extension at \<open>base\<close>: its data blocks, and the timings behind them.\<close>

function cta_blocks :: "uint8 list \<Rightarrow> nat \<Rightarrow> nat \<Rightarrow> nat \<Rightarrow> uint8 list list \<Rightarrow> uint8 list list option" where
  "cta_blocks mem base offset i acc =
     (if i < offset then
        (if base + i < length mem then
           (let n = unat (bits (mem ! (base + i)) 0 5) + 1 in
            if base + i + n \<le> length mem \<and> length acc < 8
            then cta_blocks mem base offset (i + n) (acc @ [take n (drop (base + i) mem)]) else None)
         else None)
      else Some acc)"
  by pat_completeness auto
termination by (relation "measure (\<lambda>(mem, base, offset, i, acc). offset - i)") auto

function cta_timings :: "uint8 list \<Rightarrow> nat \<Rightarrow> nat \<Rightarrow> edid1_detailed_timing list \<Rightarrow> edid1_detailed_timing list option" where
  "cta_timings mem base i acc =
     (if i + 18 - 1 < 128 then
        (if base + i + 18 \<le> length mem \<and> length acc < 6
         then cta_timings mem base (i + 18) (acc @ [decode_detailed_timing (drop (base + i) mem)]) else None)
      else Some acc)"
  by pat_completeness auto
termination by (relation "measure (\<lambda>(mem, base, i, acc). 128 - i)") auto

declare cta_blocks.simps [simp del] cta_timings.simps [simp del]

text \<open>Entries of an earlier extension stay in the array behind the new ones.\<close>

definition decode_cta_block :: "uint8 list \<Rightarrow> nat \<Rightarrow> edid1_detailed_timing list \<Rightarrow> cta_info option" where
  "decode_cta_block mem base old =
     (if base + 4 \<le> length mem then
        (let r = drop base mem; offset = unat (r ! 2) in do {
           blocks \<leftarrow> cta_blocks mem base offset 4 [];
           timings \<leftarrow> cta_timings mem base offset [];
           Some \<lparr>cta_tag = r ! 0, cta_revision = r ! 1, num_native_detailed = bits (r ! 3) 0 4,
             ycbcr422_supported = flag (r ! 3) 4, ycbcr444_supported = flag (r ! 3) 5, audio_supported = flag (r ! 3) 6,
             underscan = flag (r ! 3) 7, cta_detailed = timings @ drop (length timings) old, data_blocks = blocks\<rparr>
         })
      else None)"

definition decode_displayid_block :: "uint8 list \<Rightarrow> nat \<Rightarrow> displayid_info option" where
  "decode_displayid_block mem base =
     (if base + 5 \<le> length mem
      then Some \<lparr>did_tag = mem ! base, did_version = mem ! (base + 1), extension_count = mem ! (base + 4)\<rparr> else None)"

text \<open>The extensions, by their first byte; \<open>k\<close> of them are left, from number \<open>i\<close> on.\<close>

fun decode_sections :: "uint8 list \<Rightarrow> nat \<Rightarrow> nat \<Rightarrow> edid1_info \<Rightarrow> edid1_info option" where
  "decode_sections mem i 0 edid = Some edid"
| "decode_sections mem i (Suc k) edid =
     (let base = 128 * i in
      if base < length mem then
        (if mem ! base = 0x2 then
           Option.bind (decode_cta_block mem base (case cta_block edid of None \<Rightarrow> [] | Some c \<Rightarrow> cta_detailed c)) (\<lambda>cta. decode_sections mem (i + 1) k (edid\<lparr>cta_block := Some cta\<rparr>))
         else if mem ! base = 0x70 then
           Option.bind (decode_displayid_block mem base) (\<lambda>d. decode_sections mem (i + 1) k (edid\<lparr>displayid_block := Some d\<rparr>))
         else decode_sections mem (i + 1) k edid)
      else None)"

definition decode_base :: "uint8 list \<Rightarrow> edid1_info option" where
  "decode_base raw =
     (let (version, revision) = decode_version (drop 18 raw) in
      map_option (\<lambda>monitors.
       \<lparr>vendor = decode_vendor (drop 8 raw), edid_version = version, edid_revision = revision,
        display = decode_display (drop 20 raw), established_timing = take 3 (drop 35 raw),
        std_timing = map (\<lambda>i. decode_std_timing (drop (38 + 2 * i) raw)) [0..<8],
        detailed_monitor = monitors,
        num_sections = raw ! 126, cta_block = None, displayid_block = None\<rparr>)
       (decode_detailed_monitor (drop 54 raw) (version = 1 \<and> revision \<ge> 1)))"

definition edid_decode :: "uint8 list \<Rightarrow> edid1_info option" where
  "edid_decode raw =
     (if 128 \<le> length raw then Option.bind (decode_base raw) (decode_sections raw 1 (unat (raw ! 126))) else None)"


section \<open>Bit fields\<close>

text \<open>A value that fits in \<open>n\<close> bits.\<close>

definition fits :: "nat \<Rightarrow> 'a::len word \<Rightarrow> bool" where
  "fits n x \<longleftrightarrow> take_bit n x = x"

lemma fits_bit: "fits n x \<Longrightarrow> bit x k \<Longrightarrow> k < n"
  unfolding fits_def by (metis bit_take_bit_iff)

lemma fitsI: "(\<And>k. bit x k \<Longrightarrow> k < n) \<Longrightarrow> fits n x"
  unfolding fits_def by (rule bit_word_eqI) (auto simp: bit_take_bit_iff)

lemma bit_bits: "bit (bits w lo n) k \<longleftrightarrow> k < n \<and> bit w (lo + k)"
  by (auto simp: bits_def bit_take_bit_iff bit_drop_bit_eq)

lemma bit_small: "bit w k \<Longrightarrow> k < LENGTH('a)" for w :: "'a::len word"
  by (rule bit_imp_le_length)

lemma bit_join: "bit (join n hi lo) k \<longleftrightarrow> k < 16 \<and> (n \<le> k \<and> bit hi (k - n) \<or> bit lo k)"
  by (auto simp: join_def bit_or_iff bit_push_bit_iff bit_ucast_iff dest: bit_small)

lemma fits_bits [simp]: "n \<le> m \<Longrightarrow> fits m (bits w lo n)"
  by (rule fitsI) (auto simp: bit_bits)

lemma fits_join: "fits m hi \<Longrightarrow> fits n lo \<Longrightarrow> n \<le> p \<Longrightarrow> l + m \<le> p \<Longrightarrow> fits p (join l hi lo)"
  by (rule fitsI) (auto simp: bit_join dest!: fits_bit)

lemma fits_byte [simp]: "8 \<le> n \<Longrightarrow> fits n (w :: uint8)"
  by (rule fitsI) (auto dest: bit_small)

section \<open>Detailed timings there and back\<close>

definition timing_fits :: "edid1_detailed_timing \<Rightarrow> bool" where
  "timing_fits t \<longleftrightarrow> fits 12 (h_active t) \<and> fits 12 (h_blank t) \<and> fits 12 (v_active t) \<and> fits 12 (v_blank t) \<and>
     fits 10 (h_sync_off t) \<and> fits 10 (h_sync_width t) \<and> fits 6 (v_sync_off t) \<and> fits 6 (v_sync_width t) \<and>
     fits 12 (h_size t) \<and> fits 12 (v_size t) \<and> fits 8 (h_border t) \<and> fits 8 (v_border t) \<and>
     fits 1 (interlaced t) \<and> fits 2 (stereo t) \<and> fits 2 (sync t) \<and> fits 2 (misc t)"

definition high_part :: "nat \<Rightarrow> uint16 \<Rightarrow> uint8" where
  "high_part n x = ucast (drop_bit n x)"

definition low_part :: "nat \<Rightarrow> uint16 \<Rightarrow> uint8" where
  "low_part n x = ucast (take_bit n x)"

definition nibbles :: "uint8 \<Rightarrow> uint8 \<Rightarrow> uint8" where
  "nibbles a b = push_bit 4 a OR b"

definition place :: "nat \<Rightarrow> uint8 \<Rightarrow> uint8" where
  "place n x = push_bit n x"

definition encode_detailed_timing :: "edid1_detailed_timing \<Rightarrow> uint8 list" where
  "encode_detailed_timing t =
     [low_part 8 (pixel_clock t), high_part 8 (pixel_clock t),
      low_part 8 (h_active t), low_part 8 (h_blank t), nibbles (high_part 8 (h_active t)) (high_part 8 (h_blank t)),
      low_part 8 (v_active t), low_part 8 (v_blank t), nibbles (high_part 8 (v_active t)) (high_part 8 (v_blank t)),
      low_part 8 (h_sync_off t), low_part 8 (h_sync_width t), nibbles (low_part 4 (v_sync_off t)) (low_part 4 (v_sync_width t)),
      place 6 (high_part 8 (h_sync_off t)) OR place 4 (high_part 8 (h_sync_width t)) OR
        place 2 (high_part 4 (v_sync_off t)) OR place 0 (high_part 4 (v_sync_width t)),
      low_part 8 (h_size t), low_part 8 (v_size t), nibbles (high_part 8 (h_size t)) (high_part 8 (v_size t)),
      low_part 8 (h_border t), low_part 8 (v_border t),
      place 7 (interlaced t) OR place 5 (stereo t) OR place 3 (sync t) OR place 1 (misc t)]"

lemma bit_high_part: "bit (high_part n x) k \<longleftrightarrow> k < 8 \<and> bit x (n + k)"
  by (auto simp: high_part_def bit_ucast_iff bit_drop_bit_eq)

lemma bit_low_part: "bit (low_part n x) k \<longleftrightarrow> k < 8 \<and> k < n \<and> bit x k"
  by (auto simp: low_part_def bit_ucast_iff bit_take_bit_iff)

lemma fits_high_part: "fits (n + m) x \<Longrightarrow> fits m (high_part n x)"
  by (rule fitsI) (auto simp: bit_high_part dest!: fits_bit)

lemma fits_low_part: "fits n (low_part n x)"
  by (rule fitsI) (simp add: bit_low_part)

lemma parts_join: "n \<le> 8 \<Longrightarrow> fits (n + 8) x \<Longrightarrow> join n (high_part n x) (low_part n x) = x"
  by (rule bit_word_eqI) (auto simp: bit_join bit_high_part bit_low_part dest: fits_bit)

lemma nibbles_high: "fits 4 a \<Longrightarrow> fits 4 b \<Longrightarrow> bits (nibbles a b) 4 4 = a"
  by (rule bit_word_eqI) (auto simp: bit_bits nibbles_def bit_or_iff bit_push_bit_iff dest: fits_bit)

lemma nibbles_low: "fits 4 b \<Longrightarrow> bits (nibbles a b) 0 4 = b"
  by (rule bit_word_eqI) (auto simp: bit_bits nibbles_def bit_or_iff bit_push_bit_iff dest: fits_bit)

lemma le16_parts: "le16 (low_part 8 x # high_part 8 x # r) = x"
  by (rule bit_word_eqI) (auto simp: le16_def bit_or_iff bit_push_bit_iff bit_ucast_iff bit_low_part bit_high_part)

text \<open>Picking a field out of an OR of fields at other places.\<close>

lemma bits_or: "bits (a OR b) lo n = bits a lo n OR bits b lo n"
  by (rule bit_word_eqI) (auto simp: bit_bits bit_or_iff)

lemma bits_here: "fits n x \<Longrightarrow> lo + n \<le> 8 \<Longrightarrow> bits (place lo x) lo n = x"
  by (rule bit_word_eqI) (auto simp: bit_bits place_def bit_push_bit_iff dest: fits_bit)

lemma bits_above: "lo + n \<le> p \<Longrightarrow> bits (place p x) lo n = 0"
  by (rule bit_word_eqI) (auto simp: bit_bits place_def bit_push_bit_iff)

lemma bits_below: "fits m x \<Longrightarrow> p + m \<le> lo \<Longrightarrow> bits (place p x) lo n = 0"
  by (rule bit_word_eqI) (auto simp: bit_bits place_def bit_push_bit_iff dest: fits_bit)

lemma fits_mono: "fits m x \<Longrightarrow> m \<le> n \<Longrightarrow> fits n x"
  by (rule fitsI) (auto dest: fits_bit)


lemma byte11_fields:
  assumes "fits 2 a" "fits 2 b" "fits 2 c" "fits 2 d"
  defines "w \<equiv> place 6 a OR place 4 b OR place 2 c OR place 0 d"
  shows "bits w 6 2 = a" "bits w 4 2 = b" "bits w 2 2 = c" "bits w 0 2 = d"
  unfolding w_def bits_or using assms(1-4)
  by (simp_all add: bits_here bits_above bits_below [where m = 2])

lemma byte17_fields:
  assumes "fits 1 a" "fits 2 b" "fits 2 c" "fits 2 d"
  defines "w \<equiv> place 7 a OR place 5 b OR place 3 c OR place 1 d"
  shows "bits w 7 1 = a" "bits w 5 2 = b" "bits w 3 2 = c" "bits w 1 2 = d"
  unfolding w_def bits_or using assms(1-4)
  by (simp_all add: bits_here bits_above bits_below [where m = 1] bits_below [where m = 2])

lemma ucast_low: "fits 8 x \<Longrightarrow> ucast (low_part 8 x) = x"
  by (rule bit_word_eqI) (auto simp: bit_ucast_iff bit_low_part dest: fits_bit)

lemma decode_encode:
  assumes "timing_fits t"
  shows "decode_detailed_timing (encode_detailed_timing t @ rest) = t"
proof -
  have high: "fits 4 (high_part 8 (h_active t))" "fits 4 (high_part 8 (h_blank t))" "fits 4 (high_part 8 (v_active t))"
    "fits 4 (high_part 8 (v_blank t))" "fits 4 (high_part 8 (h_size t))" "fits 4 (high_part 8 (v_size t))"
    "fits 2 (high_part 8 (h_sync_off t))" "fits 2 (high_part 8 (h_sync_width t))"
    "fits 2 (high_part 4 (v_sync_off t))" "fits 2 (high_part 4 (v_sync_width t))"
    using assms by (auto simp: timing_fits_def intro!: fits_high_part)
  have low: "fits 4 (low_part 4 (v_sync_off t))" "fits 4 (low_part 4 (v_sync_width t))" by (rule fits_low_part)+
  have wide: "fits 16 x" for x :: uint16 by (rule fitsI) (auto dest: bit_small)
  have join8: "join 8 (high_part 8 x) (low_part 8 x) = x" for x using parts_join [of 8 x] wide by simp
  have join4: "fits 6 x \<Longrightarrow> join 4 (high_part 4 x) (low_part 4 x) = x" for x
    using parts_join [of 4 x] fits_mono [of 6 x 12] by simp
  note b11 = byte11_fields [OF high(7-10)]
  note b17 = byte17_fields [of "interlaced t" "stereo t" "sync t" "misc t"]
  from assms show ?thesis
    unfolding timing_fits_def encode_detailed_timing_def decode_detailed_timing_def
    by (simp add: le16_parts nibbles_high nibbles_low high low join8 join4 b11 b17 [unfolded One_nat_def] ucast_low nth_Cons_numeral)
qed

section \<open>What decoding gives\<close>

lemma fits_ucast: "fits 8 (ucast (b :: uint8) :: uint16)"
  by (rule fitsI) (auto simp: bit_ucast_iff dest: bit_small)

lemma decoded_timing_fits: "timing_fits (decode_detailed_timing r)"
  unfolding timing_fits_def decode_detailed_timing_def
  by (auto intro: fits_join [where m = 4 and n = 8] fits_join [where m = 2 and n = 8] fits_join [where m = 2 and n = 4] fits_ucast)


text \<open>
  A descriptor that is no timing but has 1 as its own type byte, the number the decoder gives to timings.
\<close>

definition false_timing :: "uint8 list \<Rightarrow> nat \<Rightarrow> bool" where
  "false_timing raw i \<longleftrightarrow> (let r = drop (54 + 18 * i) raw in
     raw ! 18 = 1 \<and> 1 \<le> raw ! 19 \<and> (r ! 0 = 0 \<and> r ! 1 = 0 \<or> r ! 2 = 0 \<and> r ! 4 = 0) \<and> r ! 3 = 1)"

text \<open>Texts are printable, without spaces at the end, and terminated within the 13 bytes of their array.\<close>

definition text_ok :: "uint8 list \<Rightarrow> bool" where
  "text_ok s \<longleftrightarrow> s \<noteq> [] \<and> last s = 0 \<and> length s \<le> 13 \<and> (\<forall>c \<in> set (butlast s). 0x20 \<le> c \<and> c \<le> 0x7e) \<and>
     (butlast s \<noteq> [] \<longrightarrow> last (butlast s) \<noteq> 0x20)"

definition std_timing_ok :: "edid1_std_timing \<Rightarrow> bool" where
  "std_timing_ok t \<longleftrightarrow> 248 \<le> std_h_size t \<and> std_h_size t \<le> 2288 \<and> std_v_size t \<le> std_h_size t \<and> 60 \<le> refresh t \<and> refresh t \<le> 123 \<and>
     fits 2 (ratio t)"

fun monitor_ok :: "edid1_detailed_monitor \<Rightarrow> bool" where
  "monitor_ok (ty, Untouched) = (ty \<notin> {1, 0xfa, 0xfb, 0xfc, 0xfd, 0xfe, 0xff})"
| "monitor_ok (ty, Serial_Number s) = (ty = 0xff \<and> text_ok s)"
| "monitor_ok (ty, Ascii_Data s) = (ty = 0xfe \<and> text_ok s)"
| "monitor_ok (ty, Monitor_Name s) = (ty = 0xfc \<and> text_ok s)"
| "monitor_ok (ty, Monitor_Range s) = (ty = 0xfd \<and> length s \<le> 5)"
| "monitor_ok (ty, Whitepoints w1 w2) =
     (ty = 0xfb \<and> fits 10 (wp_white_x w1) \<and> fits 10 (wp_white_y w1) \<and> fits 10 (wp_white_x w2) \<and> fits 10 (wp_white_y w2))"
| "monitor_ok (ty, Std_Timings ts) = (ty = 0xfa \<and> length ts = 6 \<and> list_all std_timing_ok ts)"
| "monitor_ok (ty, Detailed t) = (ty = 1 \<and> timing_fits t)"

definition vendor_ok :: "edid1_vendor \<Rightarrow> bool" where
  "vendor_ok v \<longleftrightarrow> (\<exists>a b c. manufacturer v = [a, b, c, 0] \<and> {a, b, c} \<subseteq> {0x40..0x5f}) \<and> 1990 \<le> year v \<and> year v \<le> 2245"

definition display_ok :: "edid1_display \<Rightarrow> bool" where
  "display_ok d \<longleftrightarrow> list_all (fits 10) [red_x d, red_y d, green_x d, green_y d, blue_x d, blue_y d, white_x d, white_y d] \<and>
     bit_depth (digital_params d) \<in> {0, 6, 8, 10, 12, 14, 16} \<and> (input_type d = 0 \<longrightarrow> bit_depth (digital_params d) = 0)"

definition cta_ok :: "cta_info \<Rightarrow> bool" where
  "cta_ok c \<longleftrightarrow> length (cta_detailed c) \<le> 6 \<and> list_all timing_fits (cta_detailed c) \<and> length (data_blocks c) \<le> 8 \<and>
     list_all (\<lambda>b. b \<noteq> [] \<and> length b \<le> 32) (data_blocks c)"

definition edid_ok :: "uint8 list \<Rightarrow> edid1_info \<Rightarrow> bool" where
  "edid_ok raw e \<longleftrightarrow> vendor_ok (vendor e) \<and> display_ok (display e) \<and> length (std_timing e) = 8 \<and> list_all std_timing_ok (std_timing e) \<and>
     length (detailed_monitor e) = 4 \<and>
     (\<forall>i<4. if false_timing raw i then detailed_monitor e ! i = (1, Untouched) else monitor_ok (detailed_monitor e ! i)) \<and>
     (\<forall>c. cta_block e = Some c \<longrightarrow> cta_ok c)"

lemma fits_unat: "fits n x \<Longrightarrow> unat x < 2 ^ n" for x :: "'a::len word"
  by (metis fits_def take_bit_nat_less_exp unsigned_take_bit_eq)

lemma unat_bits: "unat (bits w lo n) < 2 ^ n"
  by (rule fits_unat) simp

lemma copy_str_ok:
  assumes "copy_str src len = Some t"
  shows "text_ok t"
proof -
  define copied where "copied = takeWhile (\<lambda>c. c \<noteq> 0xa \<and> (isgraph c \<or> c = 0x20)) (take len src)"
  define kept where "kept = rev (dropWhile (\<lambda>c. c = 0x20) (rev copied))"
  have r: "t = kept @ [0]" "length kept < 13"
    using assms by (simp_all add: copy_str_def Let_def kept_def copied_def split: if_splits)
  have sub: "set kept \<subseteq> set copied" unfolding kept_def by (auto dest: set_dropWhileD)
  have printable: "0x20 \<le> c \<and> c \<le> 0x7e" if "c \<in> set kept" for c
  proof -
    from that sub have "c \<in> set copied" by blast
    then have "isgraph c \<or> c = 0x20" unfolding copied_def by (metis (mono_tags, lifting) set_takeWhileD)
    then show ?thesis by (auto simp: isgraph_def word_le_nat_alt)
  qed
  have "last kept \<noteq> 0x20" if "kept \<noteq> []"
    using that hd_dropWhile [of "\<lambda>c. c = 0x20" "rev copied"] unfolding kept_def by (simp add: last_rev)
  with r printable show ?thesis by (simp add: text_ok_def)
qed

text \<open>
  A text fits if a byte that ends it is among the 13, a line feed or one that is not printable, or the
  last of them is a space.
\<close>

definition ends_text :: "uint8 \<Rightarrow> bool" where
  "ends_text c \<longleftrightarrow> c = 0xa \<or> c < 0x20 \<or> 0x7e < c"

definition text_fits :: "uint8 list \<Rightarrow> bool" where
  "text_fits d \<longleftrightarrow> (\<exists>k<13. ends_text (d ! k)) \<or> d ! 12 = 0x20"

lemma copied_char: "c \<noteq> 0xa \<and> (isgraph c \<or> c = 0x20) \<longleftrightarrow> \<not> ends_text c"
proof -
  have "isgraph c \<or> c = 0x20 \<longleftrightarrow> 0x20 \<le> unat c \<and> unat c \<le> 0x7e"
    by (auto simp: isgraph_def word_le_nat_alt word_unat_eq_iff)
  then show ?thesis by (auto simp: ends_text_def word_less_nat_alt not_less)
qed

lemma copy_str_fits:
  assumes "13 \<le> length d"
  shows "copy_str d 13 \<noteq> None \<longleftrightarrow> text_fits d"
proof -
  define copied where "copied = takeWhile (\<lambda>c. \<not> ends_text c) (take 13 d)"
  define kept where "kept = rev (dropWhile (\<lambda>c. c = 0x20) (rev copied))"
  have len: "length copied \<le> 13" "length kept \<le> length copied"
    using length_takeWhile_le [of "\<lambda>c. \<not> ends_text c" "take 13 d"] length_dropWhile_le [of _ "rev copied"]
    by (simp_all add: copied_def kept_def)
  have c: "copy_str d 13 \<noteq> None \<longleftrightarrow> length kept < 13"
    using len by (simp add: copy_str_def Let_def copied_char copied_def [symmetric]) (simp add: kept_def)
  show ?thesis
  proof (cases "\<exists>k<13. ends_text (d ! k)")
    case True
    then obtain k where k: "k < 13" "ends_text (d ! k)" by blast
    have "length copied \<le> k"
    proof (rule ccontr)
      assume "\<not> length copied \<le> k"
      then have "copied ! k \<in> set copied" by (simp add: not_le)
      then have "\<not> ends_text (copied ! k)" unfolding copied_def by (metis set_takeWhileD)
      moreover have "copied ! k = d ! k"
        using \<open>\<not> length copied \<le> k\<close> k(1) unfolding copied_def by (simp add: takeWhile_nth not_le)
      ultimately show False using k(2) by simp
    qed
    with k(1) len(2) c True show ?thesis by (auto simp: text_fits_def)
  next
    case False
    then have "copied = take 13 d" unfolding copied_def using assms
      by (intro takeWhile_eq_all_conv [THEN iffD2]) (auto simp: in_set_conv_nth)
    then have r: "rev copied = d ! 12 # rev (take 12 d)" using assms take_Suc_conv_app_nth [of 12 d] by simp
    have "length (dropWhile (\<lambda>c. c = 0x20) (rev (take 12 d))) \<le> 12"
      using length_dropWhile_le [of _ "rev (take 12 d)"] assms by simp
    then have "length kept < 13 \<longleftrightarrow> d ! 12 = 0x20" unfolding kept_def r using assms by simp
    with c False show ?thesis by (auto simp: text_fits_def)
  qed
qed

lemma byte_range: "unat (b :: uint8) < 256"
  using fits_unat [of 8 b] by simp

lemma std_timing_decoded: "std_timing_ok (decode_std_timing r)"
proof -
  have h: "unat (r ! 0) < 256" by (rule byte_range)
  have q: "unat (bits (r ! 1) 0 6) < 64" using unat_bits [of "r ! 1" 0 6] by simp
  define k where "k = (unat (r ! 0) + 31) * 8"
  have k: "248 \<le> k" "k \<le> 2288" using h by (auto simp: k_def)
  have small: "unat (of_nat m :: uint16) = m" if "m \<le> 2288" for m using that by (simp add: unat_of_nat)
  have "unat (bits (r ! 1) 0 6 + 60) = unat (bits (r ! 1) 0 6) + 60" using q by (simp add: unat_word_ariths)
  then have r: "60 \<le> bits (r ! 1) 0 6 + 60" "bits (r ! 1) 0 6 + 60 \<le> 123" using q by (simp_all add: word_le_nat_alt)
  have hk: "unat (of_nat k :: uint16) = k" by (rule small) (rule k)
  have sizes: "std_h_size (decode_std_timing r) = of_nat k"
    "std_v_size (decode_std_timing r) \<in> {of_nat k, of_nat (k * 3 div 4), of_nat (k * 4 div 5), of_nat (k * 9 div 16)}"
    unfolding decode_std_timing_def Let_def k_def [symmetric] hk by simp_all
  have "unat (of_nat (k * 3 div 4) :: uint16) \<le> k" "unat (of_nat (k * 4 div 5) :: uint16) \<le> k" "unat (of_nat (k * 9 div 16) :: uint16) \<le> k"
    by (subst small; use k in linarith)+
  then have "std_v_size (decode_std_timing r) \<le> of_nat k" using sizes(2) by (auto simp: word_le_nat_alt hk)
  moreover have "248 \<le> (of_nat k :: uint16)" "of_nat k \<le> (2288 :: uint16)" using k by (simp_all add: word_le_nat_alt hk)
  moreover have "refresh (decode_std_timing r) = bits (r ! 1) 0 6 + 60" "ratio (decode_std_timing r) = bits (r ! 1) 6 2"
    by (simp_all add: decode_std_timing_def Let_def)
  ultimately show ?thesis using r by (simp add: std_timing_ok_def sizes(1))
qed

lemma colours_fit: "fits 10 (join 2 b (bits w lo 2))"
  by (rule fits_join [where m = 8 and n = 2]) simp_all

lemma vendor_decoded: "vendor_ok (decode_vendor r)"
proof -
  have letter: "fits 5 x \<Longrightarrow> x + 64 \<in> {0x40..0x5f}" for x :: uint8
    using fits_unat [of 5 x] by (simp add: word_le_nat_alt unat_word_ariths)
  have "fits 5 (push_bit 3 (bits a 0 2) OR bits b 5 3)" for a b :: uint8
    by (rule fitsI) (auto simp: bit_or_iff bit_push_bit_iff bit_bits)
  then have "(push_bit 3 (bits (r ! 0) 0 2) OR bits (r ! 1) 5 3) + 64 \<in> {0x40..0x5f}" by (rule letter)
  moreover have "unat (ucast (r ! 9) :: uint16) = unat (r ! 9)"
    using byte_range [of "r ! 9"] by (simp add: unsigned_ucast_eq take_bit_nat_eq_self)
  then have "unat (ucast (r ! 9) + 1990 :: uint16) = unat (r ! 9) + 1990" "unat (r ! 9) < 256"
    using byte_range [of "r ! 9"] by (simp_all add: unat_word_ariths)
  ultimately show ?thesis using letter [of "bits (r ! 0) 2 5"] letter [of "bits (r ! 1) 0 5"]
    by (auto simp: vendor_ok_def decode_vendor_def word_le_nat_alt)
qed

lemma bit_depth_cases: "fits 3 x \<Longrightarrow> 0 < x \<Longrightarrow> x < 7 \<Longrightarrow> x * 2 + 4 \<in> {6, 8, 10, 12, 14, 16 :: uint8}"
proof -
  assume x: "fits 3 x" "0 < x" "x < 7"
  then have "unat x \<in> {1, 2, 3, 4, 5, 6}" by (auto simp: word_less_nat_alt)
  then have "x \<in> {1, 2, 3, 4, 5, 6}" by (auto simp: word_unat_eq_iff)
  then show ?thesis by auto
qed

lemma display_decoded: "display_ok (decode_display r)"
  using bit_depth_cases [of "bits (r ! 0) 4 3"]
  by (auto simp: display_ok_def decode_display_def Let_def colours_fit)

lemma monitor_decoded:
  assumes "decode_monitor_desc r x = Some m"
  shows "if x \<and> (r ! 0 = 0 \<and> r ! 1 = 0 \<or> r ! 2 = 0 \<and> r ! 4 = 0) \<and> r ! 3 = 1 then m = (1, Untouched) else monitor_ok m"
  using assms by (auto simp: decode_monitor_desc_def Let_def copy_str_ok std_timing_decoded decoded_timing_fits colours_fit
      decode_whitepoint_def list_all_iff split: if_splits)

text \<open>The descriptors that hold a text whose array is too small for it make decoding write behind the array.\<close>

definition desc_fits :: "uint8 list \<Rightarrow> bool \<Rightarrow> bool" where
  "desc_fits r x \<longleftrightarrow> (x \<and> (r ! 0 = 0 \<and> r ! 1 = 0 \<or> r ! 2 = 0 \<and> r ! 4 = 0) \<and> r ! 3 \<in> {0xff, 0xfe, 0xfc} \<longrightarrow> text_fits (drop 5 r))"

lemma monitor_decodes: "18 \<le> length r \<Longrightarrow> decode_monitor_desc r x \<noteq> None \<longleftrightarrow> desc_fits r x"
  using copy_str_fits [of "drop 5 r"] by (auto simp: decode_monitor_desc_def desc_fits_def Let_def)

lemma those_Some: "those xs = Some ys \<longleftrightarrow> xs = map Some ys"
  by (induction xs arbitrary: ys) (auto split: option.splits)

lemma those_None: "those xs = None \<longleftrightarrow> None \<in> set xs"
  by (induction xs) (auto split: option.splits)


section \<open>Extensions\<close>

lemma cta_blocks_ok:
  "cta_blocks mem base offset i acc = Some bs \<Longrightarrow> length acc \<le> 8 \<Longrightarrow> list_all (\<lambda>b. b \<noteq> [] \<and> length b \<le> 32) acc \<Longrightarrow>
    length bs \<le> 8 \<and> list_all (\<lambda>b. b \<noteq> [] \<and> length b \<le> 32) bs"
proof (induction mem base offset i acc rule: cta_blocks.induct)
  case (1 mem base offset i acc)
  define n where "n = unat (bits (mem ! (base + i)) 0 5) + 1"
  show ?case
  proof (cases "i < offset")
    case True
    with "1.prems"(1) have run: "base + i < length mem" "base + i + n \<le> length mem" "length acc < 8"
      "cta_blocks mem base offset (i + n) (acc @ [take n (drop (base + i) mem)]) = Some bs"
      by (auto simp: cta_blocks.simps [of mem base offset i] n_def Let_def split: if_splits)
    have "n \<le> 32" using unat_bits [of "mem ! (base + i)" 0 5] by (simp add: n_def)
    moreover have "take n (drop (base + i) mem) \<noteq> []" using run(1) by (simp add: n_def)
    ultimately show ?thesis using "1.IH" [OF True run(1) n_def] run(2-4) "1.prems"(3) by auto
  next
    case False
    with "1.prems" show ?thesis by (simp add: cta_blocks.simps [of mem base offset i])
  qed
qed

lemma cta_timings_ok:
  "cta_timings mem base i acc = Some ts \<Longrightarrow> length acc \<le> 6 \<Longrightarrow> list_all timing_fits acc \<Longrightarrow>
    length ts \<le> 6 \<and> list_all timing_fits ts"
proof (induction mem base i acc rule: cta_timings.induct)
  case (1 mem base i acc)
  show ?case
  proof (cases "i + 18 - 1 < 128")
    case True
    with "1.prems"(1) have run: "base + i + 18 \<le> length mem \<and> length acc < 6"
      "cta_timings mem base (i + 18) (acc @ [decode_detailed_timing (drop (base + i) mem)]) = Some ts"
      by (auto simp: cta_timings.simps [of mem base i] split: if_splits)
    from "1.IH" [OF True run] run(1) "1.prems"(3) show ?thesis by (simp add: decoded_timing_fits)
  next
    case False
    with "1.prems" show ?thesis by (simp add: cta_timings.simps [of mem base i])
  qed
qed

lemma list_all_drop: "list_all P xs \<Longrightarrow> list_all P (drop n xs)"
  by (auto simp: list_all_iff dest: in_set_dropD)

lemma cta_decoded:
  assumes "decode_cta_block mem base old = Some c" "length old \<le> 6" "list_all timing_fits old"
  shows "cta_ok c"
proof -
  from assms(1) obtain bs ts where r: "cta_blocks mem base (unat (drop base mem ! 2)) 4 [] = Some bs"
    "cta_timings mem base (unat (drop base mem ! 2)) [] = Some ts" "cta_detailed c = ts @ drop (length ts) old" "data_blocks c = bs"
    by (auto simp: decode_cta_block_def Let_def bind_eq_Some_conv split: if_splits)
  from cta_blocks_ok [OF r(1)] cta_timings_ok [OF r(2)] r(3,4) assms(2,3) show ?thesis
    by (auto simp: cta_ok_def list_all_drop)
qed

lemma sections_ok: "decode_sections mem i k e = Some e' \<Longrightarrow> edid_ok raw e \<Longrightarrow> edid_ok raw e'"
proof (induction k arbitrary: i e)
  case (Suc k)
  let ?old = "case cta_block e of None \<Rightarrow> [] | Some c \<Rightarrow> cta_detailed c"
  have old: "length ?old \<le> 6" "list_all timing_fits ?old"
    using Suc.prems(2) by (auto simp: edid_ok_def cta_ok_def split: option.split)
  show ?case
  proof (cases "mem ! (128 * i) = 0x2")
    case True
    with Suc.prems(1) obtain c where "decode_cta_block mem (128 * i) ?old = Some c"
      "decode_sections mem (i + 1) k (e\<lparr>cta_block := Some c\<rparr>) = Some e'"
      by (auto simp: Let_def bind_eq_Some_conv split: if_splits)
    note r = this
    have "edid_ok raw (e\<lparr>cta_block := Some c\<rparr>)" using cta_decoded [OF r(1) old] Suc.prems(2) by (simp add: edid_ok_def)
    with r(2) show ?thesis by (rule Suc.IH)
  next
    case False
    have "\<exists>d. decode_sections mem (i + 1) k (e\<lparr>displayid_block := d\<rparr>) = Some e'"
    proof (cases "mem ! (128 * i) = 0x70")
      case True
      with Suc.prems(1) show ?thesis by (auto simp: Let_def bind_eq_Some_conv split: if_splits)
    next
      case no: False
      have "decode_sections mem (i + 1) k e = Some e'"
        using Suc.prems(1) False no by (simp add: Let_def split: if_splits)
      then have "decode_sections mem (i + 1) k (e\<lparr>displayid_block := displayid_block e\<rparr>) = Some e'" by simp
      then show ?thesis by blast
    qed
    then obtain d where "decode_sections mem (i + 1) k (e\<lparr>displayid_block := d\<rparr>) = Some e'" by blast
    moreover have "edid_ok raw (e\<lparr>displayid_block := d\<rparr>)" using Suc.prems(2) by (simp add: edid_ok_def)
    ultimately show ?thesis by (rule Suc.IH)
  qed
qed simp

text \<open>The descriptor at a number and whether descriptors are taken for more than timings.\<close>

abbreviation descriptor :: "uint8 list \<Rightarrow> nat \<Rightarrow> uint8 list" where
  "descriptor raw i \<equiv> drop (54 + 18 * i) raw"

abbreviation extra :: "uint8 list \<Rightarrow> bool" where
  "extra raw \<equiv> raw ! 18 = 1 \<and> 1 \<le> raw ! 19"

lemma base_monitors:
  assumes "128 \<le> length raw"
  shows "decode_detailed_monitor (drop 54 raw) (extra raw) =
    those (map (\<lambda>i. decode_monitor_desc (descriptor raw i) (extra raw)) [0..<4])"
  by (simp add: decode_detailed_monitor_def add.commute)

lemma base_ok:
  assumes "decode_base raw = Some e" "128 \<le> length raw"
  shows "edid_ok raw e"
proof -
  from assms base_monitors [OF assms(2)] have m:
    "map (\<lambda>i. decode_monitor_desc (descriptor raw i) (extra raw)) [0..<4] = map Some (detailed_monitor e)"
    by (auto simp: decode_base_def decode_version_def those_Some)
  from arg_cong [OF m, of length] have len: "length (detailed_monitor e) = 4" by simp
  have "if false_timing raw i then detailed_monitor e ! i = (1, Untouched) else monitor_ok (detailed_monitor e ! i)"
    if i: "i < 4" for i
  proof -
    from arg_cong [OF m, of "\<lambda>l. l ! i"] i len
    have "decode_monitor_desc (descriptor raw i) (extra raw) = Some (detailed_monitor e ! i)" by simp
    from monitor_decoded [OF this] show ?thesis by (auto simp: false_timing_def Let_def split: if_splits)
  qed
  with assms(1) len show ?thesis
    by (auto simp: edid_ok_def decode_base_def vendor_decoded display_decoded list_all_iff std_timing_decoded split: prod.splits)
qed

lemma base_decodes:
  assumes "128 \<le> length raw"
  shows "decode_base raw \<noteq> None \<longleftrightarrow> (\<forall>i<4. desc_fits (descriptor raw i) (extra raw))"
proof -
  have "decode_base raw \<noteq> None \<longleftrightarrow> decode_detailed_monitor (drop 54 raw) (extra raw) \<noteq> None"
    using assms by (simp add: decode_base_def decode_version_def)
  also have "\<dots> \<longleftrightarrow> (\<forall>i<4. decode_monitor_desc (descriptor raw i) (extra raw) \<noteq> None)"
    unfolding base_monitors [OF assms] those_None set_map image_iff set_upt by (metis atLeastLessThan_iff zero_le)
  also have "\<dots> \<longleftrightarrow> (\<forall>i<4. desc_fits (descriptor raw i) (extra raw))"
  proof -
    have "18 \<le> length (descriptor raw i)" if "i < 4" for i using assms that by simp
    then show ?thesis using monitor_decodes by blast
  qed
  finally show ?thesis .
qed

text \<open>The data blocks of an extension, one behind the other from \<open>i\<close> to \<open>e\<close>, each with its length in its first byte.\<close>

fun blocks_at :: "uint8 list \<Rightarrow> nat \<Rightarrow> uint8 list list \<Rightarrow> nat \<Rightarrow> bool" where
  "blocks_at mem i [] e = (i = e)"
| "blocks_at mem i (b # bs) e = (b \<noteq> [] \<and> take (length b) (drop i mem) = b \<and> unat (bits (hd b) 0 5) + 1 = length b \<and>
     blocks_at mem (i + length b) bs e)"

definition section_ok :: "uint8 list \<Rightarrow> nat \<Rightarrow> bool" where
  "section_ok mem base \<longleftrightarrow> base + 128 \<le> length mem \<and>
     (mem ! base = 0x2 \<longrightarrow> 3 \<le> unat (mem ! (base + 2)) \<and> unat (mem ! (base + 2)) \<le> 128 \<and>
       (\<exists>bs. length bs \<le> 8 \<and> blocks_at mem (base + 4) bs (base + max 4 (unat (mem ! (base + 2))))))"

lemma blocks_at_le: "blocks_at mem i bs e \<Longrightarrow> i \<le> e"
  by (induction bs arbitrary: i) (auto dest: add_leD1)

lemma cta_blocks_exact:
  "blocks_at mem (base + i) bs (base + max i offset) \<Longrightarrow> length acc + length bs \<le> 8 \<Longrightarrow> cta_blocks mem base offset i acc = Some (acc @ bs)"
proof (induction bs arbitrary: i acc)
  case Nil
  then show ?case by (auto simp: cta_blocks.simps [of mem base offset i])
next
  case (Cons b bs)
  from Cons.prems(1) have b: "b \<noteq> []" "take (length b) (drop (base + i) mem) = b" "unat (bits (hd b) 0 5) + 1 = length b"
    "blocks_at mem (base + (i + length b)) bs (base + max i offset)" by (simp_all add: add.assoc)
  from b(2) have len: "base + i + length b \<le> length mem"
  proof -
    from arg_cong [OF b(2), of length] have "min (length mem - (base + i)) (length b) = length b" by simp
    moreover have "0 < length b" using b(1) by simp
    ultimately show ?thesis by linarith
  qed
  have hd: "mem ! (base + i) = hd b"
  proof -
    from b(1) len have "base + i < length mem" "0 < length b" by (cases b; simp)+
    then show ?thesis by (subst b(2) [symmetric]) (simp add: hd_drop_conv_nth hd_take)
  qed
  from b(1) obtain n where "length b = Suc n" by (cases b) auto
  with blocks_at_le [OF b(4)] have i: "i < offset" by (simp add: max_def split: if_splits)
  with blocks_at_le [OF b(4)] have "max (i + length b) offset = offset" "max i offset = offset" by auto
  with b(4) Cons.IH [of "i + length b" "acc @ [b]"] Cons.prems(2) have
    "cta_blocks mem base offset (i + length b) (acc @ [b]) = Some (acc @ b # bs)" by simp
  then show ?case using i len b(1,2,3) hd Cons.prems(2)
    by (subst cta_blocks.simps) (auto simp: Let_def simp flip: b(3))
qed


lemma cta_timings_exact:
  "base + 128 \<le> length mem \<Longrightarrow> length acc + (128 - i) div 18 \<le> 6 \<Longrightarrow>
    cta_timings mem base i acc = Some (acc @ map (\<lambda>j. decode_detailed_timing (drop (base + i + 18 * j) mem)) [0..<(128 - i) div 18])"
proof (induction mem base i acc rule: cta_timings.induct)
  case (1 mem base i acc)
  show ?case
  proof (cases "i + 18 - 1 < 128")
    case True
    then have "128 - i = (128 - (i + 18)) + 18" by simp
    then have n: "(128 - i) div 18 = Suc ((128 - (i + 18)) div 18)" by (simp only: div_add_self2 Suc_eq_plus1)
    have fit: "base + i + 18 \<le> length mem \<and> length acc < 6" using True "1.prems" n by auto
    have "map (\<lambda>j. decode_detailed_timing (drop (base + i + 18 * j) mem)) [0..<Suc m] =
      decode_detailed_timing (drop (base + i) mem) # map (\<lambda>j. decode_detailed_timing (drop (base + (i + 18) + 18 * j) mem)) [0..<m]" for m
      by (simp add: upt_conv_Cons map_Suc_upt [symmetric] algebra_simps del: upt_Suc)
    with "1.IH" [OF True fit] "1.prems" n True fit show ?thesis by (simp add: cta_timings.simps [of mem base i])
  next
    case False
    then show ?thesis by (simp add: cta_timings.simps [of mem base i])
  qed
qed

definition section_timings :: "uint8 list \<Rightarrow> nat \<Rightarrow> edid1_detailed_timing list" where
  "section_timings mem base = (let offset = unat (mem ! (base + 2)) in
     map (\<lambda>j. decode_detailed_timing (drop (base + offset + 18 * j) mem)) [0..<(128 - offset) div 18])"

lemma decode_cta_exact:
  assumes "base + 128 \<le> length mem" "3 \<le> unat (mem ! (base + 2))" "length bs \<le> 8"
    "blocks_at mem (base + 4) bs (base + max 4 (unat (mem ! (base + 2))))"
  shows "\<exists>c. decode_cta_block mem base old = Some c \<and> data_blocks c = bs \<and>
    cta_detailed c = section_timings mem base @ drop (length (section_timings mem base)) old"
proof -
  define offset where "offset = unat (mem ! (base + 2))"
  have o: "unat (drop base mem ! 2) = offset" using assms(1) by (simp add: offset_def)
  have "(128 - offset) div 18 \<le> 6" using assms(2) by (simp add: offset_def div_le_mono [of _ 125 18, simplified])
  then have t: "cta_timings mem base offset [] = Some (section_timings mem base)"
    using cta_timings_exact [OF assms(1), of "[]" offset] by (simp add: section_timings_def Let_def offset_def)
  have "cta_blocks mem base offset 4 [] = Some bs"
    using cta_blocks_exact [of mem base 4 bs offset "[]"] assms(3,4) by (simp add: offset_def)
  with t o assms(1) show ?thesis by (simp add: decode_cta_block_def Let_def)
qed

lemma sections_decode:
  "(\<forall>j \<in> {i..<i + k}. section_ok mem (128 * j)) \<Longrightarrow> decode_sections mem i k e \<noteq> None"
proof (induction k arbitrary: i e)
  case (Suc k)
  then have s: "section_ok mem (128 * i)" and rest: "\<forall>j \<in> {i + 1..<i + 1 + k}. section_ok mem (128 * j)" by auto
  from s have len: "128 * i + 128 \<le> length mem" by (simp add: section_ok_def)
  note IH = Suc.IH [OF rest]
  consider "mem ! (128 * i) = 0x2" | "mem ! (128 * i) = 0x70" | "mem ! (128 * i) \<noteq> 0x2" "mem ! (128 * i) \<noteq> 0x70" by blast
  then show ?case
  proof cases
    case 1
    with s decode_cta_exact [OF len] obtain c where
      "decode_cta_block mem (128 * i) (case cta_block e of None \<Rightarrow> [] | Some c \<Rightarrow> cta_detailed c) = Some c"
      by (fastforce simp: section_ok_def)
    with 1 len IH [of "e\<lparr>cta_block := Some c\<rparr>"] show ?thesis by (simp add: Let_def)
  next
    case 2
    with len IH show ?thesis by (simp add: Let_def decode_displayid_block_def)
  next
    case 3
    with len IH [of e] show ?thesis by (simp add: Let_def)
  qed
qed simp



section \<open>Properties\<close>

text \<open>
  C36: whatever 128 bytes and extensions the monitor sends, a description that is decoded is well-formed: three
  letters and a terminator for the manufacturer, colours of ten bits, timings within the widths of their fields
  and heights not above widths, texts that are printable and terminated within their arrays, at most six timings
  and eight data blocks of an extension. The type of each descriptor is that of its data, with exactly one exception:
  a descriptor that is no timing and has 1 as its type byte gets the type of timings with data that was not
  decoded.
\<close>

theorem edid_decode_typed:
  assumes "edid_decode raw = Some e"
  shows "edid_ok raw e"
proof -
  from assms obtain b where b: "decode_base raw = Some b" "decode_sections raw 1 (unat (raw ! 126)) b = Some e" "128 \<le> length raw"
    by (auto simp: edid_decode_def bind_eq_Some_conv split: if_splits)
  from sections_ok [OF b(2) base_ok [OF b(1,3)]] show ?thesis .
qed

text \<open>The exception happens.\<close>

lemma descriptor_type_one:
  "r ! 0 = 0 \<Longrightarrow> r ! 1 = 0 \<Longrightarrow> r ! 3 = 1 \<Longrightarrow> decode_monitor_desc r True = Some (1, Untouched)"
  by (simp add: decode_monitor_desc_def)

text \<open>
  C37: a detailed timing whose values fit their fields, packed as the standard lays it out, is decoded to itself;
  and every decoded timing fits.
\<close>

theorem edid_timing_roundtrip:
  assumes "timing_fits t"
  shows "decode_detailed_timing (encode_detailed_timing t @ rest) = t \<and> timing_fits (decode_detailed_timing r)"
  using decode_encode [OF assms] decoded_timing_fits by simp

text \<open>
  C38: decoding succeeds, without a read behind the data or a write behind an array, if every descriptor with a
  text has a byte that ends it among its 13 or a space as the last of them, all extensions the base block
  announces are there, and those of type 2 place their data blocks one behind the other, at most eight,
  and their timings behind them. With one such extension the result has exactly its data blocks and its timings.
  A text that fills its descriptor without such a byte is always written behind its array.
\<close>

theorem edid_extensions_decoded:
  assumes "128 \<le> length mem" "\<forall>j \<in> {1..<1 + unat (mem ! 126)}. section_ok mem (128 * j)"
  shows "if \<forall>i<4. desc_fits (descriptor mem i) (extra mem) then
      \<exists>b e. decode_base mem = Some b \<and> edid_decode mem = Some e \<and>
        (unat (mem ! 126) = 0 \<longrightarrow> e = b) \<and>
        (\<forall>bs. unat (mem ! 126) = 1 \<and> mem ! 128 = 2 \<and> length bs \<le> 8 \<and> blocks_at mem 132 bs (128 + max 4 (unat (mem ! 130))) \<longrightarrow>
          (\<exists>c. e = b\<lparr>cta_block := Some c\<rparr> \<and> data_blocks c = bs \<and> cta_detailed c = section_timings mem 128))
    else edid_decode mem = None"
proof (cases "\<forall>i<4. desc_fits (descriptor mem i) (extra mem)")
  case False
  with base_decodes [OF assms(1)] have "decode_base mem = None" by blast
  with False assms(1) show ?thesis by (simp only: if_False edid_decode_def if_True bind.bind_lzero)
next
  case True
  with base_decodes [OF assms(1)] obtain b where b: "decode_base mem = Some b" by blast
  from sections_decode [OF assms(2), of b] assms(1) b obtain e where e: "edid_decode mem = Some e"
    by (auto simp: edid_decode_def)
  have "\<exists>c. e = b\<lparr>cta_block := Some c\<rparr> \<and> data_blocks c = bs \<and> cta_detailed c = section_timings mem 128"
    if bs: "unat (mem ! 126) = 1" "mem ! 128 = 2" "length bs \<le> 8" "blocks_at mem 132 bs (128 + max 4 (unat (mem ! 130)))" for bs
  proof -
    from assms(2) bs(1,2) have s: "section_ok mem 128" by simp
    with bs(2-4) decode_cta_exact [of 128 mem bs "[]"] obtain c where
      "decode_cta_block mem 128 [] = Some c" "data_blocks c = bs" "cta_detailed c = section_timings mem 128"
      by (auto simp: section_ok_def)
    moreover have "cta_block b = None" using b by (auto simp: decode_base_def decode_version_def)
    moreover have "128 < length mem" using s by (simp add: section_ok_def)
    ultimately show ?thesis using e assms(1) b bs(1,2) by (auto simp: edid_decode_def Let_def)
  qed
  moreover have "unat (mem ! 126) = 0 \<longrightarrow> e = b" using e b assms(1) by (auto simp: edid_decode_def)
  ultimately show ?thesis using True b e by simp
qed

text \<open>The name of a monitor with thirteen letters, which the standard allows.\<close>

lemma long_monitor_name:
  "decode_monitor_desc ([0, 0, 0, 0xfc, 0] @ map of_nat [65..<78]) True = None"
  by code_simp

text \<open>A base block that announces an extension which was not read is read behind its end.\<close>

lemma announced_extension_missing:
  "length raw = 128 \<Longrightarrow> 0 < unat (raw ! 126) \<Longrightarrow> edid_decode raw = None"
  by (cases "unat (raw ! 126)"; cases "decode_base raw") (auto simp: edid_decode_def)

text \<open>
  An extension whose timings start at offset 0, which the standard has for "no data blocks and no timings", has
  its header read as a timing and seven timings written to an array of six.
\<close>

lemma seven_timings: "i \<le> 2 \<Longrightarrow> cta_timings mem base i [] = None"
  by (simp add: cta_timings.simps)

lemma extension_without_timings: "mem ! (base + 2) = 0 \<Longrightarrow> base + 4 \<le> length mem \<Longrightarrow> decode_cta_block mem base old = None"
  by (simp add: decode_cta_block_def Let_def seven_timings split: bind_split)


section \<open>Examples\<close>

definition sample_edid :: "uint8 \<Rightarrow> uint8 list" where
  "sample_edid n = replicate 18 0 @ [1, 4] @ replicate 106 0 @ [n, 0]"

definition sample_cta :: "uint8 list" where
  "sample_cta = [2, 3, 7, 0, 0x42, 16, 4] @ replicate 121 0"

definition sample_timing :: edid1_detailed_timing where
  "sample_timing = \<lparr>pixel_clock = 14850, h_active = 1920, h_blank = 280, v_active = 1080, v_blank = 45, h_sync_off = 88,
     h_sync_width = 44, v_sync_off = 4, v_sync_width = 5, h_size = 509, v_size = 286, h_border = 0, v_border = 0,
     interlaced = 0, stereo = 0, sync = 3, misc = 3\<rparr>"

definition sample_info :: "uint8 \<Rightarrow> edid1_info" where
  "sample_info n = the (decode_base (sample_edid n))"

lemma sample_base: "decode_base (sample_edid n @ rest) = Some (the (decode_base (sample_edid n @ rest)))"
proof -
  have "desc_fits (descriptor (sample_edid n @ rest) i) x" if "i < 4" for i x
  proof -
    have "i = 0 \<or> i = 1 \<or> i = 2 \<or> i = 3" using that by auto
    then have "descriptor (sample_edid n @ rest) i ! 3 = 0" by (auto simp: sample_edid_def nth_append)
    then show ?thesis by (simp add: desc_fits_def)
  qed
  with base_decodes [of "sample_edid n @ rest"] have "decode_base (sample_edid n @ rest) \<noteq> None" by (simp add: sample_edid_def)
  then show ?thesis by simp
qed

lemma edid_decode_typed_witness:
  "edid_decode (sample_edid 0) = Some (sample_info 0) \<and> edid_ok (sample_edid 0) (sample_info 0)"
proof -
  have "edid_decode (sample_edid 0) = Some (sample_info 0)"
  proof -
    have l: "128 \<le> length (sample_edid 0)" "sample_edid 0 ! 126 = 0" by (simp_all add: sample_edid_def nth_append)
    have b: "decode_base (sample_edid 0) = Some (sample_info 0)" using sample_base [of 0 "[]"] by (simp add: sample_info_def)
    show ?thesis unfolding edid_decode_def b by (simp add: l)
  qed
  with edid_decode_typed [OF this] show ?thesis by simp
qed

lemma edid_timing_roundtrip_witness:
  "encode_detailed_timing sample_timing = [2, 58, 128, 24, 113, 56, 45, 64, 88, 44, 69, 0, 253, 30, 17, 0, 0, 30] \<and>
   decode_detailed_timing (encode_detailed_timing sample_timing) = sample_timing"
proof -
  have "timing_fits sample_timing" by (simp add: timing_fits_def sample_timing_def fits_def)
  moreover have "encode_detailed_timing sample_timing = [2, 58, 128, 24, 113, 56, 45, 64, 88, 44, 69, 0, 253, 30, 17, 0, 0, 30]"
    by (simp add: encode_detailed_timing_def sample_timing_def low_part_def high_part_def nibbles_def place_def)
  ultimately show ?thesis using edid_timing_roundtrip [of sample_timing "[]"] by simp
qed

lemma sample_cta_blocks: "blocks_at (sample_edid 1 @ sample_cta) 132 [[0x42, 16, 4]] 135"
  by (simp add: sample_edid_def sample_cta_def bits_def)

lemma edid_extensions_decoded_witness:
  "\<exists>b c. decode_base (sample_edid 1 @ sample_cta) = Some b \<and>
     edid_decode (sample_edid 1 @ sample_cta) = Some (b\<lparr>cta_block := Some c\<rparr>) \<and> data_blocks c = [[0x42, 16, 4]]"
proof -
  let ?mem = "sample_edid 1 @ sample_cta"
  have m: "length ?mem = 256" "?mem ! 126 = 1" "?mem ! 128 = 2" "?mem ! 130 = 7"
    by (simp_all add: sample_edid_def sample_cta_def nth_append)
  from m sample_cta_blocks have "section_ok ?mem 128"
    unfolding section_ok_def by (auto intro!: exI [of _ "[[0x42, 16, 4]]"])
  then have s: "\<forall>j \<in> {1..<1 + unat (?mem ! 126)}. section_ok ?mem (128 * j)" using m(2) by simp
  have l: "128 \<le> length ?mem" using m(1) by simp
  have "\<forall>i<4. desc_fits (descriptor ?mem i) (extra ?mem)"
    using base_decodes [OF l] sample_base [of 1 sample_cta] by (metis option.distinct(1))
  note r = edid_extensions_decoded [OF l s, unfolded if_P [OF this]]
  from r obtain b e where e: "decode_base ?mem = Some b" "edid_decode ?mem = Some e"
    "\<forall>bs. unat (?mem ! 126) = 1 \<and> ?mem ! 128 = 2 \<and> length bs \<le> 8 \<and> blocks_at ?mem 132 bs (128 + max 4 (unat (?mem ! 130))) \<longrightarrow>
      (\<exists>c. e = b\<lparr>cta_block := Some c\<rparr> \<and> data_blocks c = bs \<and> cta_detailed c = section_timings ?mem 128)"
    by blast
  from e(3) [rule_format, of "[[0x42, 16, 4]]"] m(2-4) sample_cta_blocks obtain c where
    "e = b\<lparr>cta_block := Some c\<rparr>" "data_blocks c = [[0x42, 16, 4]]" by auto
  with e(1,2) show ?thesis by blast
qed

end
