(* ===== verification/Ddc.thy ===== *)
theory Ddc
  imports I2c Edid
begin

text \<open>
  Reading the monitor's description, \<^verbatim>\<open>src/add-ons/accelerants/common/ddc.c\<close>: transfers of \<^verbatim>\<open>I2c\<close> or of the
  driver's own routine, repeated until the checksum is right, and the decoder of \<^verbatim>\<open>Edid\<close>. What a buffer holds
  before is an argument. Of a driver's own routine only the contract \<open>buffer_transfer\<close> is asked, that it stays
  in the buffer: it may report \<open>B_OK\<close> without having filled it, as that of \<^verbatim>\<open>intel_extreme\<close> may.
\<close>

section \<open>The operations\<close>

definition verify_checksum :: "uint8 list \<Rightarrow> status_t" where
  "verify_checksum data =
     (let sum = fold (+) data 0; allOr = fold (OR) data 0
      in if allOr = 0 then B_ERROR else if sum \<noteq> 0 then B_IO_ERROR else B_OK)"

text \<open>The code's own transfer in terms of the buffer: the bytes received replace the first ones.\<close>

definition into_buffer ::
    "(uint32 \<Rightarrow> uint8 list \<Rightarrow> nat \<Rightarrow> 'w \<Rightarrow> (status_t \<times> uint8 list \<times> 'w) option) \<Rightarrow>
     uint32 \<Rightarrow> uint8 list \<Rightarrow> uint8 list \<Rightarrow> 'w \<Rightarrow> (status_t \<times> uint8 list \<times> 'w) option" where
  "into_buffer f a out buffer w =
     map_option (\<lambda>(status, bytes, w). (status, bytes @ drop (length bytes) buffer, w)) (f a out (length buffer) w)"

definition call_send_receive ::
    "'w i2c_bus \<Rightarrow> uint32 \<Rightarrow> uint8 list \<Rightarrow> uint8 list \<Rightarrow> 'w \<Rightarrow> (status_t \<times> uint8 list \<times> 'w) option" where
  "call_send_receive bus =
     (case send_receive bus of None \<Rightarrow> into_buffer (i2c_send_receive_callback bus) | Some f \<Rightarrow> f)"

definition write_buffer :: "int \<Rightarrow> uint8 list" where
  "write_buffer start = take (if start < 0x100 then 1 else 2) [word_of_int start, word_of_int (drop_bit 8 start)]"

text \<open>The attempts that are left, the status and the buffer so far.\<close>

fun ddc2_tries ::
    "(uint32 \<Rightarrow> uint8 list \<Rightarrow> uint8 list \<Rightarrow> 'w \<Rightarrow> (status_t \<times> uint8 list \<times> 'w) option) \<Rightarrow> int \<Rightarrow> nat \<Rightarrow> status_t \<Rightarrow>
     uint8 list \<Rightarrow> 'w \<Rightarrow> (status_t \<times> uint8 list \<times> 'w) option" where
  "ddc2_tries transfer start 0 status buffer w = Some (status, buffer, w)"
| "ddc2_tries transfer start (Suc k) status buffer w = do {
     (status, buffer, w) \<leftarrow> transfer 0x50 (write_buffer start) buffer w;
     if status = B_OK then
       (let status = verify_checksum buffer
        in if status = B_OK then Some (B_OK, buffer, w) else ddc2_tries transfer start k status buffer w)
     else ddc2_tries transfer start k status buffer w
   }"

definition READ_RETRIES :: nat where "READ_RETRIES = 4"

definition ddc2_read :: "'w i2c_bus \<Rightarrow> int \<Rightarrow> uint8 list \<Rightarrow> 'w \<Rightarrow> (status_t \<times> uint8 list \<times> 'w) option" where
  "ddc2_read bus start buffer w = ddc2_tries (call_send_receive bus) start READ_RETRIES B_OK buffer w"

definition ddc2_init_timing :: "'w i2c_bus \<Rightarrow> 'w i2c_bus" where
  "ddc2_init_timing bus = bus\<lparr>send_receive := None,
     timing := i2c_get100k_timing\<lparr>start_timeout := 550, byte_timeout := 2200, bit_timeout := 40, ack_start_timeout := 40, ack_timeout := 40\<rparr>\<rparr>"

text \<open>The description, if there is one; \<open>raw\<close> is the memory of the structure it is read to.\<close>

definition ddc2_read_edid1 :: "'w i2c_bus \<Rightarrow> uint8 list \<Rightarrow> 'w \<Rightarrow> (status_t \<times> edid1_info option \<times> 'w) option" where
  "ddc2_read_edid1 bus raw w = do {
     (status, raw, w) \<leftarrow> ddc2_read bus 0 raw w;
     if status \<noteq> B_OK then Some (status, None, w)
     else if raw ! 18 \<noteq> 1 \<or> raw ! 19 > 4 then Some (B_ERROR, None, w)
     else map_option (\<lambda>edid. (B_OK, Some edid, w)) (edid_decode raw)
   }"

section \<open>Attempts\<close>

lemma fold_plus: "fold (+) data (a :: uint8) = a + of_nat (sum_list (map unat data))"
  by (induction data arbitrary: a) (auto simp: algebra_simps)

lemma fold_or: "fold (OR) data (a :: uint8) = 0 \<longleftrightarrow> a = 0 \<and> (\<forall>b \<in> set data. b = 0)"
  by (induction data arbitrary: a) (auto simp: or_eq_0_iff)

lemma checksum_ok:
  "verify_checksum data = B_OK \<longleftrightarrow> (\<exists>b \<in> set data. b \<noteq> 0) \<and> sum_list (map unat data) mod 256 = 0"
proof -
  have "(of_nat m :: uint8) = 0 \<longleftrightarrow> m mod 256 = 0" for m
    by (simp add: word_of_nat_eq_0_iff mod_eq_0_iff_dvd)
  then show ?thesis by (simp add: verify_checksum_def Let_def fold_plus fold_or)
qed

section \<open>The contract of a transfer into a buffer\<close>

locale buffer_transfer =
  fixes transfer :: "uint32 \<Rightarrow> uint8 list \<Rightarrow> uint8 list \<Rightarrow> 'w \<Rightarrow> (status_t \<times> uint8 list \<times> 'w) option"
  assumes in_buffer: "transfer a out buffer w = Some (status, buffer', w') \<Longrightarrow> length buffer' = length buffer"
begin

text \<open>
  What attempts end with: with success, after a transfer that reported success and left a buffer with a right
  checksum; with the buffer as long as before.
\<close>

lemma tries_checked:
  "ddc2_tries transfer start k status0 buffer w = Some (status, buffer', w') \<Longrightarrow>
    length buffer' = length buffer \<and>
    (status = B_OK \<and> (status0 \<noteq> B_OK \<or> 0 < k) \<longrightarrow> verify_checksum buffer' = B_OK \<and>
      (\<exists>b w1. length b = length buffer \<and> transfer 0x50 (write_buffer start) b w1 = Some (B_OK, buffer', w')))"
proof (induction k arbitrary: status0 buffer w)
  case (Suc k)
  from Suc.prems obtain st b w1 where t: "transfer 0x50 (write_buffer start) buffer w = Some (st, b, w1)"
    by (auto simp: bind_eq_Some_conv)
  have len: "length b = length buffer" using in_buffer [OF t] .
  show ?case
  proof (cases "st = B_OK \<and> verify_checksum b = B_OK")
    case True
    with t len Suc.prems show ?thesis by (auto simp: Let_def)
  next
    case False
    define st1 where "st1 = (if st = B_OK then verify_checksum b else st)"
    from False have "st1 \<noteq> B_OK" by (simp add: st1_def)
    moreover from False t Suc.prems have "ddc2_tries transfer start k st1 b w1 = Some (status, buffer', w')"
      by (auto simp: Let_def st1_def split: if_splits)
    ultimately show ?thesis using Suc.IH [of st1 b w1] len by simp
  qed
qed simp

text \<open>If every transfer returns, so do the attempts.\<close>

lemma tries_end:
  "(\<And>b w. transfer 0x50 (write_buffer start) b w \<noteq> None) \<Longrightarrow> ddc2_tries transfer start k status buffer w \<noteq> None"
proof (induction k arbitrary: status buffer w)
  case (Suc k)
  from Suc.prems [of buffer w] obtain st b w1 where "transfer 0x50 (write_buffer start) buffer w = Some (st, b, w1)"
    by auto
  with Suc.IH [OF Suc.prems, of _ b w1] show ?case by (simp add: Let_def)
qed simp

end

text \<open>
  A transfer of bytes is one into a buffer, and fills it when it succeeds: with this the interpretation \<open>i2c\<close> of
  the code's own transfer is one of \<open>buffer_transfer\<close>, with the facts \<open>i2c.buffer\<close>.
\<close>

sublocale byte_transfer \<subseteq> buffer: buffer_transfer "into_buffer transfer"
  by unfold_locales (auto simp: into_buffer_def dest: within)

context byte_transfer begin

lemma buffer_filled:
  assumes "into_buffer transfer a out b w = Some (B_OK, b', w')"
  shows "transfer a out (length b) w = Some (B_OK, b', w')"
proof -
  from assms obtain bs where "transfer a out (length b) w = Some (B_OK, bs, w')" "b' = bs @ drop (length bs) b"
    by (auto simp: into_buffer_def)
  with full [OF this(1)] show ?thesis by simp
qed

end

lemma call_in_buffer:
  assumes "\<And>f. send_receive bus = Some f \<Longrightarrow> buffer_transfer f"
  shows "buffer_transfer (call_send_receive bus)"
  using assms i2c.buffer.buffer_transfer_axioms by (auto simp: call_send_receive_def split: option.split)

lemma write_buffer_0: "write_buffer 0 = [0]"
  by (simp add: write_buffer_def)

section \<open>Properties\<close>

text \<open>
  C39: the attempts to read a description end when the transfers do, those of the code when the clock of the
  system runs. If they succeed, the 128 bytes in the buffer are those after a transfer that reported success, are
  not all zero and sum up to 0 modulo 256; with the code's own transfer they are exactly the bytes transferred,
  with a driver's own routine, of which only is asked that it stays in the buffer, what it left there. An error
  status, a version that is not 1 or a revision above 4 is an error and nothing is given out; otherwise the result
  is what the decoder makes of these bytes, but for monitors that announce extensions, of which none
  was read: the decoder then reads behind the 128 bytes.
\<close>

theorem ddc_edid_checked:
  assumes "\<forall>f. send_receive bus = Some f \<longrightarrow> buffer_transfer f \<and> (\<forall>out b w. f 0x50 out b w \<noteq> None)"
    "send_receive bus = None \<longrightarrow> clock_runs bus now" "length raw = 128"
  shows "\<exists>st data w'. ddc2_read bus 0 raw w = Some (st, data, w') \<and> length data = 128 \<and>
    ddc2_read_edid1 bus raw w =
      (if st \<noteq> B_OK then Some (st, None, w')
       else if data ! 18 \<noteq> 1 \<or> data ! 19 > 4 then Some (B_ERROR, None, w')
       else if data ! 126 = 0 then map_option (\<lambda>e. (B_OK, Some e, w')) (decode_base data)
       else None) \<and>
    (st = B_OK \<longrightarrow> (\<exists>b \<in> set data. b \<noteq> 0) \<and> sum_list (map unat data) mod 256 = 0 \<and>
      (\<exists>buffer w1. length buffer = 128 \<and> call_send_receive bus 0x50 [0] buffer w1 = Some (B_OK, data, w')) \<and>
      (send_receive bus = None \<longrightarrow> (\<exists>w1. i2c_send_receive_callback bus 0x50 [0] 128 w1 = Some (B_OK, data, w'))))"
proof -
  have c: "buffer_transfer (call_send_receive bus)" using assms(1) by (intro call_in_buffer) blast
  have ends: "call_send_receive bus 0x50 (write_buffer 0) b w \<noteq> None" for b w
  proof (cases "send_receive bus")
    case None
    with assms(2) have "ticking bus" by (auto simp: ticking_def)
    from transfer_ends [OF this] None show ?thesis by (simp add: call_send_receive_def into_buffer_def del: not_None_eq)
  qed (use assms(1) in \<open>simp add: call_send_receive_def del: not_None_eq\<close>)
  have "ddc2_read bus 0 raw w \<noteq> None"
    unfolding ddc2_read_def by (rule buffer_transfer.tries_end [OF c ends])
  then obtain st data w' where rd: "ddc2_read bus 0 raw w = Some (st, data, w')" by auto
  from buffer_transfer.tries_checked [OF c rd [unfolded ddc2_read_def]] assms(3) have
    d: "length data = 128" and ok: "st = B_OK \<longrightarrow> verify_checksum data = B_OK \<and>
      (\<exists>b w1. length b = 128 \<and> call_send_receive bus 0x50 [0] b w1 = Some (B_OK, data, w'))"
    by (auto simp: READ_RETRIES_def write_buffer_0)
  have dec: "edid_decode data = (if data ! 126 = 0 then decode_base data else None)"
    using announced_extension_missing [OF d] d
    by (cases "decode_base data") (auto simp: edid_decode_def word_neq_0_conv word_less_nat_alt)
  have "ddc2_read_edid1 bus raw w =
      (if st \<noteq> B_OK then Some (st, None, w')
       else if data ! 18 \<noteq> 1 \<or> data ! 19 > 4 then Some (B_ERROR, None, w')
       else if data ! 126 = 0 then map_option (\<lambda>e. (B_OK, Some e, w')) (decode_base data)
       else None)"
    by (simp add: ddc2_read_edid1_def rd dec)
  moreover have "\<exists>w1. i2c_send_receive_callback bus 0x50 [0] 128 w1 = Some (B_OK, data, w')"
    if "st = B_OK" "send_receive bus = None"
  proof -
    from ok that obtain b w1 where "length b = 128"
      "into_buffer (i2c_send_receive_callback bus) 0x50 [0] b w1 = Some (B_OK, data, w')"
      by (auto simp: call_send_receive_def)
    from i2c.buffer_filled [OF this(2)] this(1) show ?thesis by auto
  qed
  ultimately show ?thesis using rd d ok by (auto simp: checksum_ok)
qed

text \<open>A driver with its own transfer, and a monitor that sends \<open>data\<close>.\<close>

definition ready_bus :: "uint8 list \<Rightarrow> (int \<times> wire list) i2c_bus" where
  "ready_bus data = sample_bus\<lparr>send_receive := Some (\<lambda>a out b w. Some (B_OK, take (length b) (data @ b), w))\<rparr>"

definition good_block :: "uint8 \<Rightarrow> uint8 list" where
  "good_block n = replicate 18 0 @ [1, 4] @ replicate 106 0 @ [n, 251 - n]"

lemma ready_transfer: "send_receive (ready_bus data) = Some f \<Longrightarrow> buffer_transfer f \<and> (\<forall>out b w. f 0x50 out b w \<noteq> None)"
  by (auto simp: ready_bus_def intro!: buffer_transfer.intro)

lemma first_try:
  "transfer 0x50 (write_buffer start) buffer w = Some (B_OK, data, w1) \<Longrightarrow>
    verify_checksum data = B_OK \<Longrightarrow> 0 < k \<Longrightarrow> ddc2_tries transfer start k status buffer w = Some (B_OK, data, w1)"
  by (cases k) (auto simp: Let_def)

lemma ready_read:
  assumes "length data = 128" "verify_checksum data = B_OK" "length raw = 128"
  shows "ddc2_read (ready_bus data) 0 raw w = Some (B_OK, data, w)"
proof -
  have "call_send_receive (ready_bus data) 0x50 (write_buffer 0) raw w = Some (B_OK, data, w)"
    using assms(1,3) by (simp add: call_send_receive_def ready_bus_def)
  from first_try [where transfer = "call_send_receive (ready_bus data)", OF this assms(2)] show ?thesis
    by (simp add: ddc2_read_def READ_RETRIES_def)
qed

lemma good_block_ok: "length (good_block n) = 128" "verify_checksum (good_block n) = B_OK"
proof -
  show "length (good_block n) = 128" by (simp add: good_block_def)
  have "(of_nat (sum_list (map unat (good_block n))) :: uint8) = 0"
    by (simp add: good_block_def sum_list_replicate)
  then have "sum_list (map unat (good_block n)) mod 256 = 0"
    by (simp add: word_of_nat_eq_0_iff mod_eq_0_iff_dvd)
  moreover have "1 \<in> set (good_block n)" by (simp add: good_block_def)
  ultimately show "verify_checksum (good_block n) = B_OK" unfolding checksum_ok by (intro conjI bexI [of _ 1]) simp_all
qed

lemma good_block_fields: "good_block n ! 18 = 1" "good_block n ! 19 = 4" "good_block n ! 126 = n"
  by (simp_all add: good_block_def nth_append)

lemma good_block_decodes: "decode_base (good_block n) \<noteq> None"
proof -
  have "desc_fits (descriptor (good_block n) i) x" if "i < 4" for i x
  proof -
    have "i = 0 \<or> i = 1 \<or> i = 2 \<or> i = 3" using that by auto
    then have "descriptor (good_block n) i ! 3 = 0" by (auto simp: good_block_def nth_append)
    then show ?thesis by (simp add: desc_fits_def)
  qed
  with base_decodes [of "good_block n"] good_block_ok(1) show ?thesis by simp
qed

lemma ddc_edid_checked_witness:
  "\<exists>e. ddc2_read_edid1 (ready_bus (good_block 0)) (replicate 128 7) (0, []) = Some (B_OK, Some e, (0, [])) \<and>
     decode_base (good_block 0) = Some e \<and> sum_list (map unat (good_block 0)) mod 256 = 0"
proof -
  let ?bus = "ready_bus (good_block 0)"
  have c: "\<forall>f. send_receive ?bus = Some f \<longrightarrow> buffer_transfer f \<and> (\<forall>out b w. f 0x50 out b w \<noteq> None)"
    using ready_transfer by blast
  have own: "send_receive ?bus = None \<longrightarrow> clock_runs ?bus (\<lambda>(t, l). 1000 * t)" by (simp add: ready_bus_def)
  have len: "length (replicate 128 7 :: uint8 list) = 128" by simp
  from ddc_edid_checked [OF c own len, where w = "(0, [])"] ready_read [OF good_block_ok len, where w = "(0, [])"]
  have r: "ddc2_read_edid1 ?bus (replicate 128 7) (0, []) =
      map_option (\<lambda>e. (B_OK, Some e, (0, []))) (decode_base (good_block 0))" "sum_list (map unat (good_block 0)) mod 256 = 0"
    by (auto simp: good_block_fields)
  from good_block_decodes [of 0] obtain e where "decode_base (good_block 0) = Some e" by blast
  with r show ?thesis by simp
qed

text \<open>
  A monitor whose base block is right and announces an extension: the decoder goes on behind the 128 bytes
  that were read.
\<close>

lemma extension_read_behind_block:
  "0 < n \<Longrightarrow> ddc2_read_edid1 (ready_bus (good_block n)) (replicate 128 7) w = None"
  using announced_extension_missing [OF good_block_ok(1), of n] ready_read [OF good_block_ok, of "replicate 128 7" n w]
  by (simp add: ddc2_read_edid1_def good_block_fields word_less_nat_alt)

text \<open>
  A driver's routine that reports success without having read a byte: whatever the buffer held, when its
  checksum happens to be right, is taken for the monitor's description.
\<close>

lemma unread_buffer_accepted:
  assumes "send_receive bus = Some (\<lambda>a out b w. Some (B_OK, b, w))" "verify_checksum raw = B_OK"
  shows "ddc2_read bus 0 raw w = Some (B_OK, raw, w)"
proof -
  have "call_send_receive bus 0x50 (write_buffer 0) raw w = Some (B_OK, raw, w)"
    using assms(1) by (simp add: call_send_receive_def)
  from first_try [where transfer = "call_send_receive bus", OF this assms(2)] show ?thesis
    by (simp add: ddc2_read_def READ_RETRIES_def)
qed

end
