(* ===== verification/HashTable.thy ===== *)
theory HashTable
  imports KeyedTable "HOL-Library.Multiset"
begin

unbundle bit_operations_syntax

text \<open>
  The hash table of the block cache that userlandfs gives to file systems of the old kernel interface,
  \<^verbatim>\<open>src/add-ons/kernel/file_systems/userlandfs/server/beos/fs_cache.c\<close>. The chains are lists; an element's memory
  and the new array of a growing table may not be available, which are arguments. The size stays below the
  range of \<^verbatim>\<open>int\<close> as long as there is memory for the elements.
\<close>

section \<open>The table\<close>

text \<open>An element: device, block number, hash value, and the address of the cache entry.\<close>

record hash_ent =
  he_dev :: uint32
  he_bnum :: uint64
  hash_val :: uint64
  he_data :: nat

record hash_table =
  table :: "hash_ent list list"
  ht_max :: nat
  ht_mask :: nat
  num_elements :: nat

definition HT_DEFAULT_MAX :: nat where "HT_DEFAULT_MAX = 128"

definition HASH :: "uint32 \<Rightarrow> uint64 \<Rightarrow> uint64" where
  "HASH d b = push_bit (64 - 6) (scast d) OR b"

definition init_hash_table :: "bool \<Rightarrow> status_t \<times> hash_table option" where
  "init_hash_table calloc_ok =
     (if calloc_ok
      then (B_OK, Some \<lparr>table = replicate HT_DEFAULT_MAX [], ht_max = HT_DEFAULT_MAX, ht_mask = HT_DEFAULT_MAX - 1, num_elements = 0\<rparr>)
      else (ENOMEM, None))"

definition new_hash_ent :: "uint32 \<Rightarrow> uint64 \<Rightarrow> nat \<Rightarrow> hash_ent" where
  "new_hash_ent dev bnum data = \<lparr>he_dev = dev, he_bnum = bnum, hash_val = HASH dev bnum, he_data = data\<rparr>"

definition same_block :: "uint32 \<Rightarrow> uint64 \<Rightarrow> hash_ent \<Rightarrow> bool" where
  "same_block dev bnum he \<longleftrightarrow> he_dev he = dev \<and> he_bnum he = bnum"

definition bucket :: "nat \<Rightarrow> uint64 \<Rightarrow> nat" where
  "bucket m h = unat h AND m"

text \<open>Every element goes to the front of its chain in the new array, in the order of the old one.\<close>

definition push_front :: "nat \<Rightarrow> hash_ent \<Rightarrow> hash_ent list list \<Rightarrow> hash_ent list list" where
  "push_front m he t = (let i = bucket m (hash_val he) in t[i := he # t ! i])"

definition grow_hash_table :: "bool \<Rightarrow> hash_table \<Rightarrow> status_t \<times> hash_table" where
  "grow_hash_table calloc_ok ht =
     (let newsize = ht_max ht * 2; newmask = newsize - 1
      in if \<not> calloc_ok then (ENOMEM, ht)
         else (B_OK, ht\<lparr>table := fold (push_front newmask) (concat (table ht)) (replicate newsize []), ht_max := newsize, ht_mask := newmask\<rparr>))"

definition hash_insert :: "bool \<Rightarrow> bool \<Rightarrow> uint32 \<Rightarrow> uint64 \<Rightarrow> nat \<Rightarrow> hash_table \<Rightarrow> status_t \<times> hash_table" where
  "hash_insert malloc_ok calloc_ok dev bnum data ht =
     (let hash = bucket (ht_mask ht) (HASH dev bnum)
      in case find (same_block dev bnum) (table ht ! hash) of
           Some found \<Rightarrow> (EEXIST, ht)
         | None \<Rightarrow>
             if \<not> malloc_ok then (ENOMEM, ht)
             else
               (let ht1 = ht\<lparr>table := (table ht)[hash := new_hash_ent dev bnum data # table ht ! hash], num_elements := num_elements ht + 1\<rparr>
                in if num_elements ht1 \<ge> ht_max ht1 * 3 div 4 then
                     (case grow_hash_table calloc_ok ht1 of (st, ht2) \<Rightarrow> (if st \<noteq> B_OK then ENOMEM else B_OK, ht2))
                   else (B_OK, ht1)))"

definition hash_lookup :: "hash_table \<Rightarrow> uint32 \<Rightarrow> uint64 \<Rightarrow> nat option" where
  "hash_lookup ht dev bnum = map_option he_data (find (same_block dev bnum) (table ht ! bucket (ht_mask ht) (HASH dev bnum)))"

fun unchain :: "(hash_ent \<Rightarrow> bool) \<Rightarrow> hash_ent list \<Rightarrow> hash_ent list" where
  "unchain P [] = []"
| "unchain P (he # hs) = (if P he then hs else he # unchain P hs)"

definition hash_delete :: "uint32 \<Rightarrow> uint64 \<Rightarrow> hash_table \<Rightarrow> nat option \<times> hash_table" where
  "hash_delete dev bnum ht =
     (let hash = bucket (ht_mask ht) (HASH dev bnum)
      in case find (same_block dev bnum) (table ht ! hash) of
           None \<Rightarrow> (None, ht)
         | Some he \<Rightarrow> (Some (he_data he), ht\<lparr>table := (table ht)[hash := unchain (same_block dev bnum) (table ht ! hash)],
             num_elements := num_elements ht - 1\<rparr>))"

text \<open>The elements that are freed at the end, in the order in which that happens.\<close>

definition shutdown_hash_table :: "hash_table \<Rightarrow> hash_ent list" where
  "shutdown_hash_table ht = concat (table ht)"

section \<open>Well-formed tables\<close>

type_synonym block_key = "uint32 \<times> uint64"

definition he_key :: "hash_ent \<Rightarrow> block_key" where
  "he_key he = (he_dev he, he_bnum he)"

abbreviation elements :: "hash_table \<Rightarrow> hash_ent list" where
  "elements ht \<equiv> concat (table ht)"

definition ht_ok :: "hash_table \<Rightarrow> bool" where
  "ht_ok ht \<longleftrightarrow> (\<exists>k. ht_max ht = 2 ^ k) \<and> 4 \<le> ht_max ht \<and> ht_mask ht = ht_max ht - 1 \<and> length (table ht) = ht_max ht \<and>
     (\<forall>i < ht_max ht. \<forall>he \<in> set (table ht ! i). bucket (ht_mask ht) (hash_val he) = i) \<and>
     (\<forall>he \<in> set (elements ht). hash_val he = HASH (he_dev he) (he_bnum he)) \<and>
     distinct (map he_key (elements ht)) \<and> num_elements ht = length (elements ht)"

lemma bucket_less: "m + 1 = 2 ^ k \<Longrightarrow> bucket m h < m + 1"
proof -
  assume "m + 1 = 2 ^ k"
  then have "m = mask k" by (simp add: mask_eq_exp_minus_1)
  then have "bucket m h = take_bit k (unat h)" by (simp add: bucket_def take_bit_eq_mask)
  with \<open>m + 1 = 2 ^ k\<close> show ?thesis by (metis take_bit_nat_less_exp)
qed

lemma same_block_key: "same_block dev bnum he \<longleftrightarrow> he_key he = (dev, bnum)"
  by (auto simp: same_block_def he_key_def)

lemma mset_elements_update:
  "i < length t \<Longrightarrow> mset (concat (t[i := xs])) + mset (t ! i) = mset (concat t) + mset xs"
proof (induction t arbitrary: i)
  case (Cons a t)
  then show ?case by (cases i) (auto simp: ac_simps)
qed simp

lemma elements_nth: "he \<in> set (concat t) \<longleftrightarrow> (\<exists>i < length t. he \<in> set (t ! i))"
  unfolding set_concat by (auto simp: set_conv_nth [of t])

lemma ht_okD:
  assumes "ht_ok ht"
  shows "length (table ht) = ht_max ht" "i < ht_max ht \<Longrightarrow> he \<in> set (table ht ! i) \<Longrightarrow> bucket (ht_mask ht) (hash_val he) = i"
    "he \<in> set (elements ht) \<Longrightarrow> hash_val he = HASH (he_dev he) (he_bnum he)" "distinct (map he_key (elements ht))"
  using assms unfolding ht_ok_def by blast+

lemma element_place:
  assumes "ht_ok ht" "he \<in> set (elements ht)"
  shows "he \<in> set (table ht ! bucket (ht_mask ht) (HASH (he_dev he) (he_bnum he)))"
proof -
  from assms(2) [unfolded elements_nth] obtain i where i: "i < ht_max ht" "he \<in> set (table ht ! i)"
    unfolding ht_okD(1) [OF assms(1)] by blast
  from ht_okD(2) [OF assms(1) i] ht_okD(3) [OF assms] i(2) show ?thesis by simp
qed

lemma bucket_in_table: "ht_ok ht \<Longrightarrow> bucket (ht_mask ht) h < length (table ht)"
  using bucket_less [of "ht_mask ht"] by (auto simp: ht_ok_def)

lemma key_unique: "distinct (map he_key es) \<Longrightarrow> x \<in> set es \<Longrightarrow> y \<in> set es \<Longrightarrow> he_key x = he_key y \<Longrightarrow> x = y"
  by (auto simp: distinct_map inj_on_def)

text \<open>What is found are the elements of the table.\<close>

lemma find_element:
  assumes "ht_ok ht"
  shows "find (same_block dev bnum) (table ht ! bucket (ht_mask ht) (HASH dev bnum)) = Some he \<longleftrightarrow>
    he \<in> set (elements ht) \<and> he_key he = (dev, bnum)" (is "find ?P ?b = _ \<longleftrightarrow> _")
proof
  assume "find ?P ?b = Some he"
  then have "he \<in> set ?b" "?P he" by (auto simp: find_Some_iff in_set_conv_nth)
  with bucket_in_table [OF assms, of "HASH dev bnum"] show "he \<in> set (elements ht) \<and> he_key he = (dev, bnum)"
    by (auto simp: elements_nth same_block_key)
next
  assume he: "he \<in> set (elements ht) \<and> he_key he = (dev, bnum)"
  with element_place [OF assms, of he] have b: "he \<in> set ?b" "?P he" by (auto simp: he_key_def same_block_def)
  then obtain x where x: "find ?P ?b = Some x" by (cases "find ?P ?b") (auto simp: find_None_iff)
  then have "x \<in> set ?b" "?P x" by (auto simp: find_Some_iff in_set_conv_nth)
  with bucket_in_table [OF assms, of "HASH dev bnum"] have "x \<in> set (elements ht)" "he_key x = (dev, bnum)"
    by (auto simp: elements_nth same_block_key)
  with he key_unique [of "elements ht" x he] assms x show "find ?P ?b = Some he" by (auto simp: ht_ok_def)
qed

lemma lookup_iff:
  assumes "ht_ok ht"
  shows "hash_lookup ht dev bnum = Some a \<longleftrightarrow> (\<exists>he \<in> set (elements ht). he_key he = (dev, bnum) \<and> he_data he = a)"
  using find_element [OF assms] by (auto simp: hash_lookup_def)

lemma lookup_elements:
  assumes "ht_ok ht" "ht_ok ht'" "set (elements ht) = set (elements ht')"
  shows "hash_lookup ht = hash_lookup ht'"
proof (intro ext)
  fix dev bnum
  have "\<forall>a. hash_lookup ht dev bnum = Some a \<longleftrightarrow> hash_lookup ht' dev bnum = Some a"
    unfolding lookup_iff [OF assms(1)] lookup_iff [OF assms(2)] assms(3) by simp
  then show "hash_lookup ht dev bnum = hash_lookup ht' dev bnum" by (metis not_None_eq)
qed

section \<open>Growing\<close>

lemma push_front_step:
  assumes "m + 1 = 2 ^ k" "length t = m + 1" "\<forall>i < m + 1. \<forall>he \<in> set (t ! i). bucket m (hash_val he) = i"
  shows "length (push_front m he t) = m + 1" "\<forall>i < m + 1. \<forall>x \<in> set (push_front m he t ! i). bucket m (hash_val x) = i"
    "mset (concat (push_front m he t)) = add_mset he (mset (concat t))"
proof -
  let ?i = "bucket m (hash_val he)"
  have i: "?i < length t" using bucket_less [OF assms(1)] assms(2) by simp
  show "length (push_front m he t) = m + 1" using assms(2) by (simp add: push_front_def Let_def)
  show "\<forall>i < m + 1. \<forall>x \<in> set (push_front m he t ! i). bucket m (hash_val x) = i"
    using assms(2,3) i by (auto simp: push_front_def Let_def nth_list_update)
  show "mset (concat (push_front m he t)) = add_mset he (mset (concat t))"
    using mset_elements_update [OF i, of "he # t ! ?i"] by (simp add: push_front_def Let_def)
qed

lemma push_fronts:
  assumes "m + 1 = 2 ^ k"
  shows "length t = m + 1 \<Longrightarrow> \<forall>i < m + 1. \<forall>he \<in> set (t ! i). bucket m (hash_val he) = i \<Longrightarrow>
    length (fold (push_front m) hes t) = m + 1 \<and>
    (\<forall>i < m + 1. \<forall>x \<in> set (fold (push_front m) hes t ! i). bucket m (hash_val x) = i) \<and>
    mset (concat (fold (push_front m) hes t)) = mset hes + mset (concat t)"
proof (induction hes arbitrary: t)
  case (Cons he hes)
  from push_front_step [OF assms Cons.prems, of he] Cons.IH [of "push_front m he t"] show ?case by simp
qed simp

lemma grow_table_ok:
  assumes "ht_ok ht" "grow_hash_table True ht = (st, ht')"
  shows "st = B_OK \<and> ht_ok ht' \<and> mset (elements ht') = mset (elements ht)"
proof -
  from assms(1) obtain k where k: "ht_max ht = 2 ^ k" "ht_mask ht = ht_max ht - 1" "4 \<le> ht_max ht" by (auto simp: ht_ok_def)
  define m where "m = ht_max ht * 2 - 1"
  have m: "m + 1 = 2 ^ Suc k" using k(1) by (simp add: m_def)
  define t where "t = fold (push_front m) (elements ht) (replicate (m + 1) [])"
  have s: "m + 1 = ht_max ht * 2" using m k(1) by simp
  from push_fronts [OF m, of "replicate (m + 1) []" "elements ht"] have
    t: "length t = m + 1" "\<forall>i < m + 1. \<forall>x \<in> set (t ! i). bucket m (hash_val x) = i" "mset (concat t) = mset (elements ht)"
    by (simp_all add: t_def del: replicate_Suc)
  from t(3) have e: "set (concat t) = set (elements ht)" "length (concat t) = length (elements ht)"
    by (metis set_mset_mset, metis size_mset)
  have "mset (map he_key (concat t)) = mset (map he_key (elements ht))" using t(3) by (simp only: mset_map)
  then have d: "distinct (map he_key (concat t)) = distinct (map he_key (elements ht))" by (rule mset_eq_imp_distinct_iff)
  have ht': "ht' = ht\<lparr>table := t, ht_max := ht_max ht * 2, ht_mask := m\<rparr>" "st = B_OK"
    using assms(2) unfolding t_def s by (simp_all add: grow_hash_table_def Let_def m_def)
  have "ht_ok ht'" unfolding ht_ok_def
  proof (intro conjI)
    show "\<exists>k. ht_max ht' = 2 ^ k" using m s by (intro exI [of _ "Suc k"]) (simp add: ht')
    show "distinct (map he_key (elements ht'))" using d assms(1) by (simp add: ht' ht_ok_def del: concat.simps)
    show "num_elements ht' = length (elements ht')" using e(2) assms(1) by (simp add: ht' ht_ok_def)
    show "\<forall>he \<in> set (elements ht'). hash_val he = HASH (he_dev he) (he_bnum he)"
      using e(1) assms(1) by (simp add: ht' ht_ok_def del: set_concat)
  qed (use k(3) t s m_def in \<open>auto simp: ht'\<close>)
  with t(3) ht' show ?thesis by simp
qed

section \<open>Insertion and removal\<close>

definition added :: "uint32 \<Rightarrow> uint64 \<Rightarrow> nat \<Rightarrow> hash_table \<Rightarrow> hash_table" where
  "added dev bnum data ht = (let hash = bucket (ht_mask ht) (HASH dev bnum) in
     ht\<lparr>table := (table ht)[hash := new_hash_ent dev bnum data # table ht ! hash], num_elements := num_elements ht + 1\<rparr>)"

lemma added_ok:
  assumes "ht_ok ht" "\<forall>he \<in> set (elements ht). he_key he \<noteq> (dev, bnum)"
  shows "ht_ok (added dev bnum data ht)"
    "mset (elements (added dev bnum data ht)) = add_mset (new_hash_ent dev bnum data) (mset (elements ht))"
proof -
  let ?i = "bucket (ht_mask ht) (HASH dev bnum)" and ?he = "new_hash_ent dev bnum data"
  note i = bucket_in_table [OF assms(1), of "HASH dev bnum"]
  show m: "mset (elements (added dev bnum data ht)) = add_mset ?he (mset (elements ht))"
    using mset_elements_update [OF i, of "?he # table ht ! ?i"] by (simp add: added_def Let_def)
  then have e: "set (elements (added dev bnum data ht)) = insert ?he (set (elements ht))"
    "length (elements (added dev bnum data ht)) = Suc (length (elements ht))"
    by (metis set_mset_mset set_mset_add_mset_insert, metis size_mset size_add_mset)
  have "mset (map he_key (elements (added dev bnum data ht))) = mset (map he_key (?he # elements ht))"
    using m by (simp only: mset_map mset.simps image_mset_add_mset)
  then have "distinct (map he_key (elements (added dev bnum data ht))) = distinct (map he_key (?he # elements ht))"
    by (rule mset_eq_imp_distinct_iff)
  also have "\<dots>" using assms by (auto simp: ht_ok_def new_hash_ent_def he_key_def)
  finally have d: "distinct (map he_key (elements (added dev bnum data ht)))" .
  show "ht_ok (added dev bnum data ht)" unfolding ht_ok_def
  proof (intro conjI)
    show "distinct (map he_key (elements (added dev bnum data ht)))" by (rule d)
    show "num_elements (added dev bnum data ht) = length (elements (added dev bnum data ht))"
      unfolding e(2) using assms(1) by (simp add: added_def Let_def ht_ok_def)
    show "\<forall>he \<in> set (elements (added dev bnum data ht)). hash_val he = HASH (he_dev he) (he_bnum he)"
      unfolding e(1) using assms(1) by (auto simp: ht_ok_def new_hash_ent_def)
    show "\<forall>j < ht_max (added dev bnum data ht). \<forall>he \<in> set (table (added dev bnum data ht) ! j).
        bucket (ht_mask (added dev bnum data ht)) (hash_val he) = j"
      using assms(1) i by (auto simp: added_def Let_def ht_ok_def nth_list_update new_hash_ent_def)
  qed (use assms(1) in \<open>auto simp: added_def Let_def ht_ok_def\<close>)
qed

lemma absent: "ht_ok ht \<Longrightarrow> hash_lookup ht dev bnum = None \<longleftrightarrow> (\<forall>he \<in> set (elements ht). he_key he \<noteq> (dev, bnum))"
  using lookup_iff [of ht dev bnum] by (metis not_None_eq)

lemma insert_cases:
  assumes "ht_ok ht" "hash_insert malloc_ok calloc_ok dev bnum data ht = (st, ht')"
  shows "if hash_lookup ht dev bnum \<noteq> None then st = EEXIST \<and> ht' = ht
    else if \<not> malloc_ok then st = ENOMEM \<and> ht' = ht
    else ht_ok ht' \<and> mset (elements ht') = add_mset (new_hash_ent dev bnum data) (mset (elements ht)) \<and>
      (st = B_OK \<or> st = ENOMEM \<and> \<not> calloc_ok)"
proof (cases "hash_lookup ht dev bnum")
  case (Some a)
  then have "find (same_block dev bnum) (table ht ! bucket (ht_mask ht) (HASH dev bnum)) \<noteq> None"
    by (cases "find (same_block dev bnum) (table ht ! bucket (ht_mask ht) (HASH dev bnum))") (simp_all add: hash_lookup_def)
  with Some assms(2) show ?thesis by (auto simp: hash_insert_def Let_def)
next
  case None
  then have f: "find (same_block dev bnum) (table ht ! bucket (ht_mask ht) (HASH dev bnum)) = None"
    by (simp add: hash_lookup_def)
  show ?thesis
  proof (cases malloc_ok)
    case False
    with None f assms(2) show ?thesis by (simp add: hash_insert_def Let_def)
  next
    case True
    note a = added_ok [OF assms(1) iffD1 [OF absent [OF assms(1)] None], of data]
    have h: "(st, ht') = (let ht1 = added dev bnum data ht in
        if num_elements ht1 \<ge> ht_max ht1 * 3 div 4
        then (case grow_hash_table calloc_ok ht1 of (st, ht2) \<Rightarrow> (if st \<noteq> B_OK then ENOMEM else B_OK, ht2)) else (B_OK, ht1))"
      using assms(2) f True by (simp add: hash_insert_def added_def Let_def)
    show ?thesis
    proof (cases "num_elements (added dev bnum data ht) \<ge> ht_max (added dev bnum data ht) * 3 div 4")
      case False
      with h a None True show ?thesis by (simp add: Let_def)
    next
      case grow: True
      obtain st2 ht2 where g: "grow_hash_table calloc_ok (added dev bnum data ht) = (st2, ht2)" by fastforce
      show ?thesis
      proof (cases calloc_ok)
        case True
        with grow_table_ok [OF a(1)] g have "st2 = B_OK" "ht_ok ht2" "mset (elements ht2) = mset (elements (added dev bnum data ht))" by auto
        with h g grow a None \<open>malloc_ok\<close> show ?thesis by (simp add: Let_def)
      next
        case False
        with g have "st2 = ENOMEM" "ht2 = added dev bnum data ht" by (simp_all add: grow_hash_table_def Let_def)
        with h g grow a None \<open>malloc_ok\<close> False show ?thesis by (simp add: Let_def)
      qed
    qed
  qed
qed

lemma unchain_mset: "find P hs = Some he \<Longrightarrow> add_mset he (mset (unchain P hs)) = mset hs"
  by (induction hs) (auto split: if_splits)

lemma delete_cases:
  assumes "ht_ok ht" "hash_delete dev bnum ht = (r, ht')"
  shows "r = hash_lookup ht dev bnum \<and> ht_ok ht' \<and>
    (if r = None then ht' = ht
     else \<exists>he. he_key he = (dev, bnum) \<and> r = Some (he_data he) \<and> add_mset he (mset (elements ht')) = mset (elements ht))"
proof (cases "find (same_block dev bnum) (table ht ! bucket (ht_mask ht) (HASH dev bnum))")
  case None
  with assms show ?thesis by (simp add: hash_delete_def hash_lookup_def Let_def)
next
  case (Some he)
  let ?i = "bucket (ht_mask ht) (HASH dev bnum)"
  note i = bucket_in_table [OF assms(1), of "HASH dev bnum"]
  from Some find_element [OF assms(1)] have he: "he \<in> set (elements ht)" "he_key he = (dev, bnum)" by auto
  have ht': "ht' = ht\<lparr>table := (table ht)[?i := unchain (same_block dev bnum) (table ht ! ?i)], num_elements := num_elements ht - 1\<rparr>"
    "r = Some (he_data he)"
    using assms(2) Some by (auto simp: hash_delete_def Let_def)
  have "add_mset he (mset (elements ht')) + mset (table ht ! ?i) = mset (elements ht) + mset (table ht ! ?i)"
    using mset_elements_update [OF i, of "unchain (same_block dev bnum) (table ht ! ?i)"] unchain_mset [OF Some]
    by (simp add: ht' ac_simps)
  then have m: "add_mset he (mset (elements ht')) = mset (elements ht)" by simp
  then have e: "set (elements ht) = insert he (set (elements ht'))" "length (elements ht) = Suc (length (elements ht'))"
    by (metis set_mset_mset set_mset_add_mset_insert, metis size_mset size_add_mset)
  have "mset (map he_key (elements ht)) = mset (map he_key (he # elements ht'))"
    using m [symmetric] by (simp only: mset_map mset.simps image_mset_add_mset)
  then have "distinct (map he_key (he # elements ht'))" using assms(1) by (metis mset_eq_imp_distinct_iff ht_ok_def)
  then have d: "distinct (map he_key (elements ht'))" by simp
  have sub: "set (unchain (same_block dev bnum) (table ht ! ?i)) \<subseteq> set (table ht ! ?i)"
    using unchain_mset [OF Some] by (metis mset_subset_eq_add_right set_mset_mono set_mset_mset add_mset_add_single subset_mset.le_add_same_cancel1 union_commute empty_le)
  have "ht_ok ht'" unfolding ht_ok_def
  proof (intro conjI)
    show "distinct (map he_key (elements ht'))" by (rule d)
    show "num_elements ht' = length (elements ht')" using e(2) assms(1) by (simp add: ht' ht_ok_def)
    show "\<forall>he \<in> set (elements ht'). hash_val he = HASH (he_dev he) (he_bnum he)"
    proof
      fix x assume "x \<in> set (elements ht')"
      then have "x \<in> set (elements ht)" unfolding e(1) by (rule insertI2)
      with assms(1) show "hash_val x = HASH (he_dev x) (he_bnum x)" by (auto simp: ht_ok_def)
    qed
    show "\<forall>j < ht_max ht'. \<forall>x \<in> set (table ht' ! j). bucket (ht_mask ht') (hash_val x) = j"
      using assms(1) i sub by (auto simp: ht' ht_ok_def nth_list_update)
  qed (use assms(1) in \<open>auto simp: ht' ht_ok_def\<close>)
  with ht'(2) Some he(2) m show ?thesis by (auto simp: hash_lookup_def)
qed


section \<open>The table as a map\<close>

definition ht_map :: "hash_table \<Rightarrow> block_key \<Rightarrow> nat option" where
  "ht_map ht k = hash_lookup ht (fst k) (snd k)"

definition ht_enter :: "bool \<Rightarrow> block_key \<Rightarrow> nat \<Rightarrow> hash_table \<Rightarrow> hash_table" where
  "ht_enter c k a ht = snd (hash_insert True c (fst k) (snd k) a ht)"

definition ht_drop :: "block_key \<Rightarrow> hash_table \<Rightarrow> hash_table" where
  "ht_drop k ht = snd (hash_delete (fst k) (snd k) ht)"

lemma map_iff: "ht_ok ht \<Longrightarrow> ht_map ht k = Some a \<longleftrightarrow> (\<exists>he \<in> set (elements ht). he_key he = k \<and> he_data he = a)"
  by (cases k) (simp add: ht_map_def lookup_iff)

lemma map_eqI:
  assumes "ht_ok ht" "\<And>k a. f k = Some a \<longleftrightarrow> (\<exists>he \<in> set (elements ht). he_key he = k \<and> he_data he = a)"
  shows "ht_map ht = f"
proof
  fix k
  have "\<forall>a. ht_map ht k = Some a \<longleftrightarrow> f k = Some a" using map_iff [OF assms(1)] assms(2) by simp
  then show "ht_map ht k = f k" by (metis not_None_eq)
qed

lemma set_of_mset: "mset xs = add_mset x (mset ys) \<Longrightarrow> set xs = insert x (set ys)"
  by (metis set_mset_mset set_mset_add_mset_insert)

lemma enter_known: "ht_ok ht \<Longrightarrow> ht_map ht k \<noteq> None \<Longrightarrow> ht_enter c k a ht = ht"
  using insert_cases [of ht True c "fst k" "snd k" a] by (cases "hash_insert True c (fst k) (snd k) a ht") (auto simp: ht_map_def ht_enter_def)

lemma enter_new:
  assumes "ht_ok ht" "ht_map ht k = None"
  shows "ht_ok (ht_enter c k a ht)" "ht_map (ht_enter c k a ht) = (ht_map ht)(k \<mapsto> a)"
proof -
  obtain st ht' where i: "hash_insert True c (fst k) (snd k) a ht = (st, ht')" by fastforce
  with insert_cases [OF assms(1) i] assms(2) have
    r: "ht_ok ht'" "mset (elements ht') = add_mset (new_hash_ent (fst k) (snd k) a) (mset (elements ht))"
    by (auto simp: ht_map_def)
  from i have e: "ht_enter c k a ht = ht'" by (simp add: ht_enter_def)
  show "ht_ok (ht_enter c k a ht)" using r(1) e by simp
  have no: "\<forall>he \<in> set (elements ht). he_key he \<noteq> k"
    using absent [OF assms(1), of "fst k" "snd k"] assms(2) by (simp add: ht_map_def)
  show "ht_map (ht_enter c k a ht) = (ht_map ht)(k \<mapsto> a)"
    unfolding e
  proof (rule map_eqI [OF r(1)])
    fix j b
    have key: "he_key (new_hash_ent (fst k) (snd k) a) = k" "he_data (new_hash_ent (fst k) (snd k) a) = a"
      by (simp_all add: new_hash_ent_def he_key_def)
    show "((ht_map ht)(k \<mapsto> a)) j = Some b \<longleftrightarrow> (\<exists>he \<in> set (elements ht'). he_key he = j \<and> he_data he = b)"
      unfolding set_of_mset [OF r(2)] using key no map_iff [OF assms(1), of j b] by (cases "j = k") auto
  qed
qed

lemma drop_map:
  assumes "ht_ok ht"
  shows "ht_ok (ht_drop k ht)" "ht_map (ht_drop k ht) = (ht_map ht)(k := None)"
proof -
  obtain r ht' where d: "hash_delete (fst k) (snd k) ht = (r, ht')" by fastforce
  note c = delete_cases [OF assms d]
  from d have e: "ht_drop k ht = ht'" by (simp add: ht_drop_def)
  from c show ok: "ht_ok (ht_drop k ht)" by (simp add: e)
  show "ht_map (ht_drop k ht) = (ht_map ht)(k := None)"
  proof (cases r)
    case None
    with c have "ht_map ht k = None" "ht' = ht" by (simp_all add: ht_map_def)
    then show ?thesis by (simp add: e fun_upd_idem)
  next
    case (Some a)
    with c obtain he where he: "he_key he = k" "mset (elements ht) = add_mset he (mset (elements ht'))" by auto
    have uniq: "he_key x \<noteq> k" if "x \<in> set (elements ht')" for x
    proof -
      have "mset (map he_key (elements ht)) = mset (map he_key (he # elements ht'))"
        using he(2) by (simp only: mset_map mset.simps image_mset_add_mset)
      then have "distinct (map he_key (he # elements ht'))" using ht_okD(4) [OF assms] by (metis mset_eq_imp_distinct_iff)
      then have "he_key he \<notin> he_key ` set (elements ht') \<and> distinct (map he_key (elements ht'))"
        by (simp only: list.map distinct.simps set_map simp_thms)
      with that he(1) show ?thesis by blast
    qed
    show ?thesis unfolding e
    proof (rule map_eqI)
      show "ht_ok ht'" using ok e by simp
      fix j b
      have "ht_map ht j = Some b \<longleftrightarrow> (\<exists>x \<in> insert he (set (elements ht')). he_key x = j \<and> he_data x = b)"
        using map_iff [OF assms, of j b] unfolding set_of_mset [OF he(2)] .
      with uniq he(1) show "((ht_map ht)(k := None)) j = Some b \<longleftrightarrow> (\<exists>x \<in> set (elements ht'). he_key x = j \<and> he_data x = b)"
        by (cases "j = k") auto
    qed
  qed
qed

interpretation ht: keyed_table ht_ok ht_map "ht_enter c" ht_drop "\<lambda>k a. True" for c
proof unfold_locales
  fix t k a assume ok: "ht_ok t"
  show "ht_ok (ht_enter c k a t)" using enter_known [OF ok, where c = c] enter_new [OF ok, where c = c] ok by (cases "ht_map t k = None") auto
  show "ht_map (ht_enter c k a t) = map_op (Enter k a) (ht_map t)"
    using enter_known [OF ok, where c = c] enter_new [OF ok, where c = c] by (cases "ht_map t k = None") auto
qed (simp_all add: drop_map)

definition fresh_table :: hash_table where
  "fresh_table = the (snd (init_hash_table True))"

lemma fresh_ok: "ht_ok fresh_table" "ht_map fresh_table = Map.empty"
proof -
  have t: "table fresh_table = replicate 128 []" "ht_max fresh_table = 128" "ht_mask fresh_table = 127" "num_elements fresh_table = 0"
    by (simp_all add: fresh_table_def init_hash_table_def HT_DEFAULT_MAX_def)
  have "elements fresh_table = []" unfolding t by (simp add: concat_eq_Nil_conv)
  note none = this
  show ok: "ht_ok fresh_table" unfolding ht_ok_def none
  proof (intro conjI)
    show "\<exists>k. ht_max fresh_table = 2 ^ k" by (rule exI [of _ 7]) (simp add: t)
  qed (simp_all add: t)
  show "ht_map fresh_table = Map.empty" by (rule map_eqI [OF ok]) (simp only: none, simp)
qed


section \<open>Properties\<close>

text \<open>
  Uses of the table: inserting, with whether there is memory for the element and for a larger array, and
  removing; and what each does to the map. An insertion does not depend on the growth that may follow it.
\<close>

datatype table_use = Insert block_key nat bool bool | Remove block_key

fun table_run :: "table_use \<Rightarrow> hash_table \<Rightarrow> hash_table" where
  "table_run (Insert k a malloc_ok calloc_ok) ht = snd (hash_insert malloc_ok calloc_ok (fst k) (snd k) a ht)"
| "table_run (Remove k) ht = snd (hash_delete (fst k) (snd k) ht)"

fun map_use :: "table_use \<Rightarrow> (block_key \<rightharpoonup> nat) \<Rightarrow> (block_key \<rightharpoonup> nat)" where
  "map_use (Insert k a malloc_ok calloc_ok) f = (if malloc_ok then map_op (Enter k a) f else f)"
| "map_use (Remove k) f = map_op (Drop k) f"

lemma insert_no_memory: "ht_ok ht \<Longrightarrow> snd (hash_insert False c dev bnum a ht) = ht"
  using insert_cases [of ht False c dev bnum a] by (cases "hash_insert False c dev bnum a ht") (auto split: if_splits)

lemma table_run_refines:
  assumes "ht_ok ht"
  shows "ht_ok (table_run u ht) \<and> ht_map (table_run u ht) = map_use u (ht_map ht)"
proof (cases u)
  case (Insert k a m c)
  show ?thesis
  proof (cases m)
    case True
    then have "table_run u ht = ht_enter c k a ht" by (simp add: Insert ht_enter_def)
    with ht.enter_ok [OF assms, where c = c and k = k and v = a] ht.enter_lookup [OF assms, where c = c and k = k and v = a] True Insert show ?thesis by simp
  next
    case False
    with assms Insert insert_no_memory [OF assms] show ?thesis by simp
  qed
next
  case (Remove k)
  then have "table_run u ht = ht_drop k ht" by (simp add: ht_drop_def)
  with ht.drop_ok [OF assms, of k] ht.drop_lookup [OF assms, of k] Remove show ?thesis by simp
qed

lemma fold_refines:
  "ht_ok ht \<Longrightarrow> ht_ok (fold table_run uses ht) \<and> ht_map (fold table_run uses ht) = fold map_use uses (ht_map ht)"
  by (induction uses arbitrary: ht) (simp_all add: table_run_refines)

text \<open>
  C40: through any insertions and removals, however often the table grows or fails to grow, it is the map these
  operations make of the empty one, in which an insertion counts when there is memory for its element: every
  look-up and removal answers with the entry of the map, an insertion is refused with \<open>EEXIST\<close> exactly for a block
  that is there, and without memory for the element nothing changes.
\<close>

theorem hash_table_refines:
  "\<exists>f ht. ht = fold table_run uses fresh_table \<and> f = fold map_use uses Map.empty \<and>
    (\<forall>dev bnum. hash_lookup ht dev bnum = f (dev, bnum) \<and> fst (hash_delete dev bnum ht) = f (dev, bnum) \<and>
      (\<forall>a. fst (hash_insert True True dev bnum a ht) = (if f (dev, bnum) = None then B_OK else EEXIST) \<and>
        (\<forall>calloc_ok. fst (hash_insert False calloc_ok dev bnum a ht) = (if f (dev, bnum) = None then ENOMEM else EEXIST) \<and>
          snd (hash_insert False calloc_ok dev bnum a ht) = ht)))"
proof -
  define ht where "ht = fold table_run uses fresh_table"
  from fold_refines [OF fresh_ok(1), of uses] have ok: "ht_ok ht" and f: "ht_map ht = fold map_use uses Map.empty"
    by (simp_all add: ht_def fresh_ok(2))
  have l: "hash_lookup ht dev bnum = fold map_use uses Map.empty (dev, bnum)" for dev bnum
    unfolding f [symmetric] by (simp add: ht_map_def)
  have d: "fst (hash_delete dev bnum ht) = hash_lookup ht dev bnum" for dev bnum
    using delete_cases [OF ok, of dev bnum] by (cases "hash_delete dev bnum ht") auto
  have i: "fst (hash_insert True True dev bnum a ht) = (if hash_lookup ht dev bnum = None then B_OK else EEXIST)" for dev bnum a
    using insert_cases [OF ok, of True True dev bnum a] by (cases "hash_insert True True dev bnum a ht") (auto split: if_splits)
  have m: "fst (hash_insert False c dev bnum a ht) = (if hash_lookup ht dev bnum = None then ENOMEM else EEXIST)" for c dev bnum a
    using insert_cases [OF ok, of False c dev bnum a] by (cases "hash_insert False c dev bnum a ht") (auto split: if_splits)
  note n = insert_no_memory [OF ok]
  show ?thesis by (intro exI conjI allI) (rule ht_def [symmetric, THEN sym], rule refl, simp_all only: l d i m n)
qed

text \<open>
  When the table cannot grow, an insertion reports that there is no memory, although the block was entered.
\<close>

lemma insert_reports_failed_growth:
  assumes "ht_ok ht" "hash_lookup ht dev bnum = None" "num_elements ht + 1 \<ge> ht_max ht * 3 div 4"
  shows "\<exists>ht'. hash_insert True False dev bnum a ht = (ENOMEM, ht') \<and> hash_lookup ht' dev bnum = Some a"
proof -
  from assms(2) have f: "find (same_block dev bnum) (table ht ! bucket (ht_mask ht) (HASH dev bnum)) = None"
    by (simp add: hash_lookup_def)
  with assms(3) have i: "hash_insert True False dev bnum a ht = (ENOMEM, added dev bnum a ht)"
    by (simp add: hash_insert_def added_def Let_def grow_hash_table_def)
  note r = added_ok [OF assms(1) iffD1 [OF absent [OF assms(1)] assms(2)], of a]
  have "hash_lookup (added dev bnum a ht) dev bnum = Some a"
    unfolding lookup_iff [OF r(1)] set_of_mset [OF r(2)] by (simp add: new_hash_ent_def he_key_def)
  with i show ?thesis by blast
qed

end
