(* ===== verification/Spec2Isabelle.thy ===== *)
theory Spec2Isabelle
  imports MemoryManager Uuid Inet RingBuffer Dpc NfsVolume RpcClient Ddc HashTable
begin

text \<open>
  A verification library for the C code of the operating system in \<^verbatim>\<open>src/\<close>: parts of the kernel's
  library, of the file systems and drivers that are written in C, and of the libraries above it. Each
  theory models the C files it names function by function, and proves what makes them correct.

  \<^bold>\<open>Theories.\<close>
  \<^item> \<^verbatim>\<open>Prelude\<close>: machine integers at the width of the code, status codes, results, C strings and lemmas
    about lists and words that all parts share.
  \<^item> \<^verbatim>\<open>MemoryManager\<close> (\<^verbatim>\<open>drivers/graphics/common/memory_manager.c\<close>): the first-fit allocator of
    graphics memory. The heap array with its doubly linked list and list of unused entries is a map
    from indices to records. \<open>mem_inv\<close> says that the list tiles the heap; \<open>extents\<close> is the
    abstraction by which allocation, freeing and freeing by owner are specified.
  \<^item> \<^verbatim>\<open>StrToInt\<close> (\<^verbatim>\<open>kernel/lib/strto*.c\<close>): one model for the four routines, generic in the width
    of the result. A character list that ends without a terminator gives \<open>None\<close>.
  \<^item> \<^verbatim>\<open>Uuid\<close> (\<^verbatim>\<open>libs/uuid\<close>): packing, text, comparison, and generation from random bytes or the clock;
    \<^verbatim>\<open>uuid_parse\<close> calls \<^verbatim>\<open>strtoul\<close> of the theory above.
  \<^item> \<^verbatim>\<open>Inet\<close> (\<^verbatim>\<open>kernel/util/inet_addr.c\<close>, \<^verbatim>\<open>kernel/util/inet_ntop.c\<close>): text of addresses, with the array
    of the parts of an address as a list of four entries that are unset at first.
  \<^item> \<^verbatim>\<open>Fifo\<close>: circular windows of an array, and the contract \<open>bounded_fifo\<close> of a queue of bounded
    capacity that may accept only a part of the data, with the theorem that what goes in comes out in order.
    \<^verbatim>\<open>RingBuffer\<close> (\<^verbatim>\<open>websearchfs/ringbuff.c\<close>) is its instance. \<^verbatim>\<open>Dpc\<close> (\<^verbatim>\<open>generic/dpc/dpc.c\<close>)
    shares the lemmas on windows; it has the interleavings of callers, closing and the thread of the queue
    as a step relation.
  \<^item> \<^verbatim>\<open>Xdr\<close> (\<^verbatim>\<open>nfs/XDROutPacket.c\<close>, \<^verbatim>\<open>XDRInPacket.c\<close>): packets as byte lists with their buffer's size; the
    contract \<open>codec\<close> makes round trips of sequences of items out of those of single items.
  \<^item> \<^verbatim>\<open>PendingCalls\<close> (\<^verbatim>\<open>nfs/RPCPendingCalls.c\<close>): the list of waiting calls, on a map from addresses to
    calls, and the pool of semaphores, an instance of the contract \<open>reuse_pool\<close>, whose client takes
    semaphores and gives back any of those it holds, with memory for the pool or without.
  \<^item> \<^verbatim>\<open>NfsRpc\<close>, \<^verbatim>\<open>NfsVolume\<close> (\<^verbatim>\<open>nfs/nfs_add_on.c\<close>): remote procedures and the operations of a volume,
    over an environment that stands for the server, the network, the VFS, memory and the clock. The
    node table is an instance of \<open>keyed_table\<close> of \<^verbatim>\<open>KeyedTable\<close>.
  \<^item> \<^verbatim>\<open>HashTable\<close> (\<^verbatim>\<open>userlandfs/server/beos/fs_cache.c\<close>): the table of the block cache, with chains as lists,
    is the second instance of \<open>keyed_table\<close>, whether or not it can grow; \<open>ht_ok\<close> says that every element
    is in its chain, once.
  \<^item> \<^verbatim>\<open>RpcClient\<close> (\<^verbatim>\<open>nfs/nfs_add_on.c\<close>): any number of threads in \<^verbatim>\<open>send_rpc_call\<close> and the post office
    thread, as a step relation whose steps are the sections under one lock: drawing a transaction id,
    taking a semaphore and entering the call in the list are three steps.
  \<^item> \<^verbatim>\<open>I2c\<close> (\<^verbatim>\<open>accelerants/common/i2c.c\<close>): the bit-level protocol to the monitor over the callbacks of a driver
    and the system clock. A monitor automaton that decodes the changes of the two lines is its specification.
    \<^verbatim>\<open>Edid\<close> (\<^verbatim>\<open>decode_edid.c\<close>): the packed description of a monitor and what is decoded from it. \<^verbatim>\<open>Ddc\<close>
    (\<^verbatim>\<open>ddc.c\<close>): repeated transfers until the checksum is right, proved in the contract \<open>buffer_transfer\<close>, which
    asks of a transfer only that it stays in its buffer. The transfer of \<^verbatim>\<open>I2c\<close> keeps the stronger
    contract \<open>byte_transfer\<close>, that success means all bytes; a driver's own routine need not.

  \<^bold>\<open>How the parts interact.\<close> \<^verbatim>\<open>Uuid\<close> and \<^verbatim>\<open>Inet\<close> parse numbers as the kernel's library does. The NFS
  operations build calls with \<^verbatim>\<open>Xdr\<close>; in \<^verbatim>\<open>NfsRpc\<close> the exchange of a call for a reply is an argument
  of the model (it may answer anything, or nothing), and \<^verbatim>\<open>RpcClient\<close> shows what the threads and the
  list of \<^verbatim>\<open>PendingCalls\<close> promise of that exchange: the reply given to a caller is one that arrived
  and answers that call. \<^verbatim>\<open>Ddc\<close> puts together the transfers of \<^verbatim>\<open>I2c\<close> and the decoder of \<^verbatim>\<open>Edid\<close>.

  \<^bold>\<open>Conventions.\<close> \<open>None\<close> as the result of an operation stands for undefined behaviour of the C code, for
  a failed assertion or for a loop that does not end; every status code and early return of the code is a
  value. Where a caller passes memory, its length bounds what may be written. Loops that may not end
  are partial functions, and their termination is a part of the theorems; no model uses fuel.

  \<^bold>\<open>Not modelled.\<close> C++ code; drivers whose behaviour is that of the device; third-party code. Of the C
  files above: set-up of threads, sockets and locks, mounting, and output for debugging.
\<close>

end
